(* ===== verification/Prelude.thy ===== *)
theory Prelude
  imports Main "HOL-Library.Word"
begin

text \<open>
  Shared vocabulary of the development: the machine-integer types the firmware uses, the
  collections of facts the component theories register their lemmas in, and the generic
  lemmas on lists, options and words that several components need. Nothing here models
  code of the repository; the Rust standard library is in \<open>RustStd\<close>.
\<close>

unbundle bit_operations_syntax

section \<open>Types\<close>

type_synonym u8 = "8 word"
type_synonym u16 = "16 word"
type_synonym u32 = "32 word"
type_synonym u64 = "64 word"

text \<open>A signed 16-bit sample is its two's-complement word; \<^term>\<open>sint\<close> reads its value.\<close>

type_synonym i16 = "16 word"

text \<open>
  \<open>usize\<close> is modelled as \<^typ>\<open>nat\<close>: every place where the code could leave the range
  (a subtraction below zero, an index past the end of a slice) is written out in the
  component that does it.
\<close>

type_synonym usize = nat

text \<open>A Rust \<open>char\<close> is its Unicode scalar value.\<close>

type_synonym rchar = nat

text \<open>A Rust \<open>str\<close> or \<open>String\<close> is its UTF-8 bytes; a HOL \<^typ>\<open>char\<close> is one byte.\<close>

type_synonym rstr = string

section \<open>Fact collections\<close>

named_theorems inv_intros \<open>preservation facts of the components' invariants\<close>
named_theorems frame_simps \<open>fields an operation leaves alone\<close>
named_theorems byte_simps \<open>evaluation of bytes and characters\<close>

section \<open>Lists\<close>

text \<open>The last \<open>n\<close> elements of a list: what a bounded buffer that drops its oldest keeps.\<close>

definition last_n :: "nat \<Rightarrow> 'a list \<Rightarrow> 'a list" where
  "last_n n xs = drop (length xs - n) xs"

lemma length_last_n [simp]: "length (last_n n xs) = min n (length xs)"
  by (simp add: last_n_def)

lemma last_n_all [simp]: "length xs \<le> n \<Longrightarrow> last_n n xs = xs"
  by (simp add: last_n_def)

lemma last_n_Nil [simp]: "last_n n [] = []"
  by (simp add: last_n_def)

lemma last_n_append_last_n: "last_n n (last_n n xs @ ys) = last_n n (xs @ ys)"
proof (cases "length xs \<le> n")
  case True
  then show ?thesis by simp
next
  case False
  then show ?thesis
    by (cases "length ys \<le> n") (simp_all add: last_n_def add.commute)
qed

lemma last_n_snoc_full:
  "length xs = n \<Longrightarrow> 0 < n \<Longrightarrow> last_n n (xs @ [x]) = tl xs @ [x]"
  by (cases xs) (simp_all add: last_n_def)

lemma last_n_suffix: "\<exists>zs. xs = zs @ last_n n xs"
  by (metis append_take_drop_id last_n_def)

lemma set_last_n: "set (last_n n xs) \<subseteq> set xs"
  by (simp add: last_n_def set_drop_subset)

lemma sorted_wrt_drop: "sorted_wrt P xs \<Longrightarrow> sorted_wrt P (drop n xs)"
  by (metis append_take_drop_id sorted_wrt_append)

lemma sorted_wrt_last_n: "sorted_wrt P xs \<Longrightarrow> sorted_wrt P (last_n n xs)"
  by (simp add: last_n_def sorted_wrt_drop)

lemma list_all_take [intro]: "list_all P xs \<Longrightarrow> list_all P (take n xs)"
  by (auto simp: list_all_iff dest: in_set_takeD)

lemma list_all_drop [intro]: "list_all P xs \<Longrightarrow> list_all P (drop n xs)"
  by (auto simp: list_all_iff dest: in_set_dropD)

lemma list_all_last_n [intro]: "list_all P xs \<Longrightarrow> list_all P (last_n n xs)"
  by (auto simp: last_n_def)

lemma take_within_takeWhile:
  assumes "n \<le> length (takeWhile P xs)" and "x \<in> set (take n xs)"
  shows "P x"
proof -
  obtain i where "i < n" and x: "x = xs ! i"
    using assms(2) by (auto simp: in_set_conv_nth)
  with assms(1) have i: "i < length (takeWhile P xs)" by simp
  then have "takeWhile P xs ! i \<in> set (takeWhile P xs)" by (rule nth_mem)
  with i x show ?thesis by (simp add: takeWhile_nth) (metis set_takeWhileD)
qed

text \<open>Indices of a ring of \<open>n\<close> slots.\<close>

lemma ring_index_inj:
  assumes "i < j" and "j < i + n"
  shows "(h + i) mod n \<noteq> (h + j) mod (n::nat)"
proof
  assume "(h + i) mod n = (h + j) mod n"
  then have "n dvd (h + j) - (h + i)"
    using assms(1) by (intro mod_eq_dvd_iff_nat [THEN iffD1]) auto
  then have "n dvd j - i" by simp
  moreover from assms have "0 < j - i" and "j - i < n" by auto
  ultimately show False by (auto dest: dvd_imp_le)
qed

lemma ring_index_step: "((h + 1) mod n + i) mod n = (h + Suc i) mod (n::nat)"
  by (metis add.assoc mod_add_left_eq plus_1_eq_Suc)

lemma ring_index_add: "((h + k) mod n + i) mod n = (h + (k + i)) mod (n::nat)"
  by (metis add.assoc mod_add_left_eq)

section \<open>Conditionals\<close>

lemma if_eqE:
  "(if b then x else y) = z \<Longrightarrow> (b \<Longrightarrow> x = z \<Longrightarrow> P) \<Longrightarrow> (\<not> b \<Longrightarrow> y = z \<Longrightarrow> P) \<Longrightarrow> P"
  by (cases b) auto

section \<open>Words\<close>

lemma unat_of_nat_small: "n < 2 ^ LENGTH('a) \<Longrightarrow> unat (of_nat n :: 'a::len word) = n"
  by (simp add: unat_of_nat)

lemma unat_u32_bound [simp]: "unat (w :: u32) < 4294967296"
  using unsigned_less [of w, where ?'a = nat] by simp

lemma unat_u8_bound [simp]: "unat (w :: u8) < 256"
  using unsigned_less [of w, where ?'a = nat] by simp

lemma unat_u16_bound [simp]: "unat (w :: u16) < 65536"
  using unsigned_less [of w, where ?'a = nat] by simp

end
