(* ===== verification/RustStd.thy ===== *)
theory RustStd
  imports Prelude "HOL-Library.Monad_Syntax"
begin

text \<open>
  The part of the Rust language and standard library the firmware uses, as executable
  functions: checked and saturating integer arithmetic, UTF-8, \<open>char\<close> classes, and the
  \<open>str\<close>/\<open>String\<close> operations (with \<^term>\<open>None\<close> where Rust panics). Decimal formatting and
  parsing come with their round trip.
\<close>

section \<open>Integers\<close>

definition sat_sub :: "nat \<Rightarrow> nat \<Rightarrow> nat" where
  "sat_sub a b = (if a < b then 0 else a - b)"

lemma sat_sub_eq [simp]: "sat_sub a b = a - b"
  by (simp add: sat_sub_def)

definition checked_mul :: "'a::len word \<Rightarrow> 'a word \<Rightarrow> 'a word option" where
  "checked_mul a b = (if unat a * unat b < 2 ^ LENGTH('a) then Some (a * b) else None)"

definition saturating_mul :: "'a::len word \<Rightarrow> 'a word \<Rightarrow> 'a word" where
  "saturating_mul a b = (case checked_mul a b of Some c \<Rightarrow> c | None \<Rightarrow> - 1)"

definition saturating_add :: "'a::len word \<Rightarrow> 'a word \<Rightarrow> 'a word" where
  "saturating_add a b = (if unat a + unat b < 2 ^ LENGTH('a) then a + b else - 1)"

lemma checked_mul_Some_iff:
  "checked_mul a b = Some c \<longleftrightarrow> unat a * unat b < 2 ^ LENGTH('a) \<and> c = a * b"
  for a b c :: "'a::len word"
  by (auto simp: checked_mul_def)

lemma unat_mult_no_overflow:
  "unat a * unat b < 2 ^ LENGTH('a) \<Longrightarrow> unat (a * b) = unat a * unat b"
  for a b :: "'a::len word"
  by (simp add: unat_mult_lem)

lemma unat_minus_one_word_all: "unat (- 1 :: 'a::len word) = 2 ^ LENGTH('a) - 1"
  by (simp only: unsigned_minus_1_eq_mask mask_eq_exp_minus_1)

lemma unat_saturating_add:
  "unat (saturating_add a b) = min (2 ^ LENGTH('a) - 1) (unat a + unat b)"
  for a b :: "'a::len word"
  by (auto simp: saturating_add_def unat_add_lem [THEN iffD1] unat_minus_one_word_all)

text \<open>Signed division of the language truncates towards zero.\<close>

definition trunc_div :: "int \<Rightarrow> int \<Rightarrow> int" where
  "trunc_div a b = sgn a * sgn b * (\<bar>a\<bar> div \<bar>b\<bar>)"

definition div_ceil :: "nat \<Rightarrow> nat \<Rightarrow> nat" where
  "div_ceil a b = (if a mod b = 0 then a div b else a div b + 1)"

section \<open>Vectors\<close>

text \<open>Indexing, \<open>Vec::remove\<close> and \<open>Vec::insert\<close>; \<^term>\<open>None\<close> is the panic.\<close>

definition vec_get :: "'a list \<Rightarrow> nat \<Rightarrow> 'a option" where
  "vec_get xs i = (if i < length xs then Some (xs ! i) else None)"

definition vec_remove :: "'a list \<Rightarrow> nat \<Rightarrow> ('a \<times> 'a list) option" where
  "vec_remove xs i =
     (if i < length xs then Some (xs ! i, take i xs @ drop (Suc i) xs) else None)"

definition vec_insert :: "'a list \<Rightarrow> nat \<Rightarrow> 'a \<Rightarrow> 'a list option" where
  "vec_insert xs i x = (if i \<le> length xs then Some (take i xs @ x # drop i xs) else None)"

lemma vec_get_Some [simp]: "i < length xs \<Longrightarrow> vec_get xs i = Some (xs ! i)"
  by (simp add: vec_get_def)

lemma vec_get_None [simp]: "length xs \<le> i \<Longrightarrow> vec_get xs i = None"
  by (simp add: vec_get_def)

section \<open>Characters and UTF-8\<close>

abbreviation byte_of :: "nat \<Rightarrow> char" where
  "byte_of \<equiv> char_of"

abbreviation nat_of_byte :: "char \<Rightarrow> nat" where
  "nat_of_byte \<equiv> of_char"

text \<open>The scalar value of an ASCII literal.\<close>

abbreviation rch :: "char \<Rightarrow> rchar" where
  "rch \<equiv> of_char"

definition encode_utf8 :: "rchar \<Rightarrow> rstr" where
  "encode_utf8 c =
     (if c < 128 then [byte_of c]
      else if c < 2048 then [byte_of (192 + c div 64), byte_of (128 + c mod 64)]
      else if c < 65536 then
        [byte_of (224 + c div 4096), byte_of (128 + c div 64 mod 64), byte_of (128 + c mod 64)]
      else
        [byte_of (240 + c div 262144), byte_of (128 + c div 4096 mod 64),
         byte_of (128 + c div 64 mod 64), byte_of (128 + c mod 64)])"

definition len_utf8 :: "rchar \<Rightarrow> nat" where
  "len_utf8 c = (if c < 128 then 1 else if c < 2048 then 2 else if c < 65536 then 3 else 4)"

lemma length_encode_utf8 [simp]: "length (encode_utf8 c) = len_utf8 c"
  by (simp add: encode_utf8_def len_utf8_def)

text \<open>Width of the sequence a leading byte starts, and the scalar value a sequence holds.\<close>

definition utf8_width :: "char \<Rightarrow> nat" where
  "utf8_width b = (let n = nat_of_byte b in
     if n < 128 then 1 else if n < 224 then 2 else if n < 240 then 3 else 4)"

fun decode_utf8_seq :: "nat list \<Rightarrow> rchar" where
  "decode_utf8_seq [a] = a"
| "decode_utf8_seq [a, b] = (a - 192) * 64 + (b - 128)"
| "decode_utf8_seq [a, b, c] = (a - 224) * 4096 + (b - 128) * 64 + (c - 128)"
| "decode_utf8_seq [a, b, c, d] =
     (a - 240) * 262144 + (b - 128) * 4096 + (c - 128) * 64 + (d - 128)"
| "decode_utf8_seq _ = 0"

text \<open>\<open>str::chars\<close>: the scalar values of a string, in order.\<close>

function str_chars :: "rstr \<Rightarrow> rchar list" where
  "str_chars [] = []"
| "str_chars (b # bs) =
     decode_utf8_seq (map nat_of_byte (b # take (utf8_width b - 1) bs))
       # str_chars (drop (utf8_width b - 1) bs)"
  by pat_completeness auto
termination
  by (relation "measure length") auto

definition str_of_chars :: "rchar list \<Rightarrow> rstr" where
  "str_of_chars cs = concat (map encode_utf8 cs)"

definition is_ascii :: "rstr \<Rightarrow> bool" where
  "is_ascii s \<longleftrightarrow> list_all (\<lambda>b. nat_of_byte b < 128) s"

lemma is_ascii_Cons [simp]: "is_ascii (b # s) \<longleftrightarrow> nat_of_byte b < 128 \<and> is_ascii s"
  by (simp add: is_ascii_def)

lemma is_ascii_Nil [simp]: "is_ascii []"
  by (simp add: is_ascii_def)

lemma is_ascii_append [simp]: "is_ascii (s @ t) \<longleftrightarrow> is_ascii s \<and> is_ascii t"
  by (simp add: is_ascii_def)

lemma str_chars_ascii: "is_ascii s \<Longrightarrow> str_chars s = map nat_of_byte s"
  by (induction s) (auto simp: utf8_width_def)

lemma encode_utf8_ascii [simp]: "c < 128 \<Longrightarrow> encode_utf8 c = [byte_of c]"
  by (simp add: encode_utf8_def)

lemma str_of_chars_ascii: "is_ascii s \<Longrightarrow> str_of_chars (map nat_of_byte s) = s"
  by (induction s) (auto simp: str_of_chars_def)

lemma len_utf8_ascii [simp]: "c < 128 \<Longrightarrow> len_utf8 c = 1"
  by (simp add: len_utf8_def)

text \<open>\<open>char::is_whitespace\<close> (Unicode \<open>White_Space\<close>) and \<open>char::is_ascii_whitespace\<close>.\<close>

definition is_whitespace :: "rchar \<Rightarrow> bool" where
  "is_whitespace c \<longleftrightarrow> 9 \<le> c \<and> c \<le> 13 \<or> c = 32 \<or> c = 133 \<or> c = 160 \<or> c = 5760
     \<or> 8192 \<le> c \<and> c \<le> 8202 \<or> c = 8232 \<or> c = 8233 \<or> c = 8239 \<or> c = 8287 \<or> c = 12288"

definition is_ascii_whitespace :: "nat \<Rightarrow> bool" where
  "is_ascii_whitespace c \<longleftrightarrow> c = 9 \<or> c = 10 \<or> c = 12 \<or> c = 13 \<or> c = 32"

section \<open>Strings\<close>

definition trim_both :: "('a \<Rightarrow> bool) \<Rightarrow> 'a list \<Rightarrow> 'a list" where
  "trim_both P xs = rev (dropWhile P (rev (dropWhile P xs)))"

text \<open>\<open>str::trim\<close>.\<close>

definition str_trim :: "rstr \<Rightarrow> rstr" where
  "str_trim s = str_of_chars (trim_both is_whitespace (str_chars s))"

text \<open>\<open>str::trim_end\<close>.\<close>

definition str_trim_end :: "rstr \<Rightarrow> rstr" where
  "str_trim_end s = str_of_chars (rev (dropWhile is_whitespace (rev (str_chars s))))"

text \<open>
  \<open>str::is_char_boundary\<close>: the two ends, and every byte that does not continue a sequence.
\<close>

definition is_char_boundary :: "rstr \<Rightarrow> nat \<Rightarrow> bool" where
  "is_char_boundary s i \<longleftrightarrow> i = 0 \<or> i = length s
     \<or> i < length s \<and> \<not> (128 \<le> nat_of_byte (s ! i) \<and> nat_of_byte (s ! i) < 192)"

text \<open>\<open>String::insert\<close>, \<open>String::remove\<close> and \<open>String::pop\<close>; \<^term>\<open>None\<close> is the panic.\<close>

definition string_insert :: "rstr \<Rightarrow> nat \<Rightarrow> rchar \<Rightarrow> rstr option" where
  "string_insert s i c =
     (if is_char_boundary s i then Some (take i s @ encode_utf8 c @ drop i s) else None)"

definition string_remove :: "rstr \<Rightarrow> nat \<Rightarrow> rstr option" where
  "string_remove s i =
     (if i < length s \<and> is_char_boundary s i
      then Some (take i s @ drop (i + utf8_width (s ! i)) s) else None)"

definition is_continuation :: "char \<Rightarrow> bool" where
  "is_continuation b \<longleftrightarrow> 128 \<le> nat_of_byte b \<and> nat_of_byte b < 192"

definition string_pop :: "rstr \<Rightarrow> rstr" where
  "string_pop s = rev (drop 1 (dropWhile is_continuation (rev s)))"

text \<open>The starts of the characters of a string, as \<open>char_indices\<close> gives them.\<close>

definition char_indices :: "rstr \<Rightarrow> nat list" where
  "char_indices s = filter (\<lambda>i. \<not> is_continuation (s ! i)) [0..<length s]"

text \<open>
  \<open>String::from_utf8_lossy\<close>: \<open>utf8_first\<close> is the length of the sequence bytes start with and
  whether it is well formed; of a malformed one it takes the part that could still have
  become well formed, at least one byte, which becomes one replacement character.
\<close>

definition utf8_second_ok :: "nat \<Rightarrow> nat \<Rightarrow> bool" where
  "utf8_second_ok a b \<longleftrightarrow>
     (if a = 0xe0 then 0xa0 \<le> b \<and> b < 0xc0
      else if a = 0xed then 0x80 \<le> b \<and> b < 0xa0
      else if a = 0xf0 then 0x90 \<le> b \<and> b < 0xc0
      else if a = 0xf4 then 0x80 \<le> b \<and> b < 0x90
      else 0x80 \<le> b \<and> b < 0xc0)"

definition utf8_first :: "rstr \<Rightarrow> nat \<times> bool" where
  "utf8_first s =
     (let a = nat_of_byte (s ! 0);
          second = (1 < length s \<and> utf8_second_ok a (nat_of_byte (s ! 1)));
          third = (2 < length s \<and> is_continuation (s ! 2));
          fourth = (3 < length s \<and> is_continuation (s ! 3))
      in if a < 0x80 then (1, True)
         else if a < 0xc2 then (1, False)
         else if a < 0xe0 then (if second then (2, True) else (1, False))
         else if a < 0xf0 then (if \<not> second then (1, False) else if third then (3, True) else (2, False))
         else if a < 0xf5 then
           (if \<not> second then (1, False) else if \<not> third then (2, False)
            else if fourth then (4, True) else (3, False))
         else (1, False))"

lemma utf8_first_pos: "0 < fst (utf8_first s)"
  by (simp add: utf8_first_def Let_def)

function from_utf8_lossy :: "rstr \<Rightarrow> rstr" where
  "from_utf8_lossy s =
     (if s = [] then []
      else (if snd (utf8_first s) then take (fst (utf8_first s)) s else encode_utf8 0xfffd)
             @ from_utf8_lossy (drop (fst (utf8_first s)) s))"
  by pat_completeness auto
termination
  by (relation "measure length") (use utf8_first_pos in auto)

declare from_utf8_lossy.simps [simp del]

text \<open>\<open>core::str::from_utf8\<close>: the bytes, when every sequence is well formed.\<close>

function utf8_valid :: "rstr \<Rightarrow> bool" where
  "utf8_valid s = (if s = [] then True else if snd (utf8_first s) then utf8_valid (drop (fst (utf8_first s)) s) else False)"
  by pat_completeness auto
termination
  by (relation "measure length") (use utf8_first_pos in auto)

declare utf8_valid.simps [simp del]

definition from_utf8 :: "rstr \<Rightarrow> rstr option" where
  "from_utf8 s = (if utf8_valid s then Some s else None)"

lemma utf8_valid_ascii: "is_ascii s \<Longrightarrow> utf8_valid s"
proof (induction s)
  case (Cons b s)
  then have "utf8_first (b # s) = (1, True)" by (simp add: utf8_first_def Let_def)
  with Cons show ?case using utf8_valid.simps [of "b # s"] by simp
qed (simp add: utf8_valid.simps)

lemma string_pop_ascii_snoc [simp]: "nat_of_byte b < 128 \<Longrightarrow> string_pop (s @ [b]) = s"
  by (simp add: string_pop_def is_continuation_def)

lemma string_pop_Nil [simp]: "string_pop [] = []"
  by (simp add: string_pop_def)

text \<open>\<open>str::split\<close> on one character, \<open>split_once\<close>, \<open>rsplit_once\<close>, \<open>strip_prefix\<close>, \<open>join\<close>.\<close>

fun str_split :: "char \<Rightarrow> rstr \<Rightarrow> rstr list" where
  "str_split d [] = [[]]"
| "str_split d (c # cs) =
     (if c = d then [] # str_split d cs
      else (case str_split d cs of [] \<Rightarrow> [[c]] | w # ws \<Rightarrow> (c # w) # ws))"

fun split_once :: "char \<Rightarrow> rstr \<Rightarrow> (rstr \<times> rstr) option" where
  "split_once d [] = None"
| "split_once d (c # cs) =
     (if c = d then Some ([], cs)
      else (case split_once d cs of None \<Rightarrow> None | Some (a, b) \<Rightarrow> Some (c # a, b)))"

definition rsplit_once :: "char \<Rightarrow> rstr \<Rightarrow> (rstr \<times> rstr) option" where
  "rsplit_once d s =
     (case split_once d (rev s) of None \<Rightarrow> None | Some (a, b) \<Rightarrow> Some (rev b, rev a))"

definition strip_prefix :: "rstr \<Rightarrow> rstr \<Rightarrow> rstr option" where
  "strip_prefix p s = (if take (length p) s = p then Some (drop (length p) s) else None)"

fun str_join :: "rstr \<Rightarrow> rstr list \<Rightarrow> rstr" where
  "str_join d [] = []"
| "str_join d [w] = w"
| "str_join d (w # ws) = w @ d @ str_join d ws"

lemma str_split_nonempty [simp]: "str_split d s \<noteq> []"
  by (cases s) (auto split: list.splits)

lemma str_join_split: "str_join [d] (str_split d s) = s"
proof (induction s)
  case Nil
  then show ?case by simp
next
  case (Cons c cs)
  obtain w ws where "str_split d cs = w # ws"
    by (cases "str_split d cs") auto
  with Cons show ?case by (cases ws) auto
qed

lemma split_once_None_iff: "split_once d s = None \<longleftrightarrow> d \<notin> set s"
  by (induction s) (auto split: option.splits)

lemma split_once_append: "d \<notin> set a \<Longrightarrow> split_once d (a @ d # b) = Some (a, b)"
  by (induction a) auto

lemma split_once_SomeD: "split_once d s = Some (a, b) \<Longrightarrow> s = a @ d # b \<and> d \<notin> set a"
  by (induction s arbitrary: a) (auto split: if_splits option.splits)

lemma rsplit_once_None_iff: "rsplit_once d s = None \<longleftrightarrow> d \<notin> set s"
  using split_once_None_iff [of d "rev s"] by (auto simp: rsplit_once_def split: option.splits)

lemma rsplit_once_append: "d \<notin> set b \<Longrightarrow> rsplit_once d (a @ d # b) = Some (a, b)"
  using split_once_append [of d "rev b" "rev a"] by (simp add: rsplit_once_def)

section \<open>Decimal numbers\<close>

definition digit_char :: "nat \<Rightarrow> char" where
  "digit_char d = byte_of (48 + d)"

definition is_digit :: "char \<Rightarrow> bool" where
  "is_digit c \<longleftrightarrow> 48 \<le> nat_of_byte c \<and> nat_of_byte c \<le> 57"

definition digit_val :: "char \<Rightarrow> nat" where
  "digit_val c = nat_of_byte c - 48"

lemma nat_of_digit_char [simp]: "d < 10 \<Longrightarrow> nat_of_byte (digit_char d) = 48 + d"
  by (simp add: digit_char_def)

lemma is_digit_digit_char [simp]: "d < 10 \<Longrightarrow> is_digit (digit_char d)"
  by (simp add: is_digit_def)

lemma digit_val_digit_char [simp]: "d < 10 \<Longrightarrow> digit_val (digit_char d) = d"
  by (simp add: digit_val_def)

text \<open>\<open>format!("{}", n)\<close> for an unsigned integer.\<close>

fun show_nat :: "nat \<Rightarrow> rstr" where
  "show_nat n = (if n < 10 then [digit_char n] else show_nat (n div 10) @ [digit_char (n mod 10)])"

declare show_nat.simps [simp del]

fun digits_val :: "nat \<Rightarrow> rstr \<Rightarrow> nat option" where
  "digits_val acc [] = Some acc"
| "digits_val acc (c # cs) =
     (if is_digit c then digits_val (10 * acc + digit_val c) cs else None)"

text \<open>
  \<open>str::parse\<close> for an unsigned integer below \<open>bound\<close>: at least one digit, an optional
  leading plus sign, no other character, and no overflow.
\<close>

definition parse_uint :: "nat \<Rightarrow> rstr \<Rightarrow> nat option" where
  "parse_uint bound s =
     (let ds = (case s of c # cs \<Rightarrow> if c = CHR ''+'' then cs else s | [] \<Rightarrow> [])
      in if ds = [] then None
         else case digits_val 0 ds of None \<Rightarrow> None
              | Some n \<Rightarrow> if n < bound then Some n else None)"

lemma digits_val_append:
  "digits_val acc (s @ t) = (case digits_val acc s of None \<Rightarrow> None | Some a \<Rightarrow> digits_val a t)"
  by (induction s arbitrary: acc) auto

lemma digits_val_show_nat: "digits_val 0 (show_nat n) = Some n"
proof (induction n rule: show_nat.induct)
  case (1 n)
  show ?case
  proof (cases "n < 10")
    case True
    then show ?thesis by (simp add: show_nat.simps [of n])
  next
    case False
    with "1.IH" show ?thesis by (simp add: show_nat.simps [of n] digits_val_append)
  qed
qed

lemma show_nat_all_digits: "list_all is_digit (show_nat n)"
proof (induction n rule: show_nat.induct)
  case (1 n)
  then show ?case by (cases "n < 10") (simp_all add: show_nat.simps [of n])
qed

lemma show_nat_nonempty [simp]: "show_nat n \<noteq> []"
  by (subst show_nat.simps) simp

lemma show_nat_Cons: obtains c cs where "show_nat n = c # cs" and "is_digit c"
  using show_nat_all_digits [of n] show_nat_nonempty [of n]
  by (cases "show_nat n") auto

lemma parse_uint_show_nat [simp]: "n < bound \<Longrightarrow> parse_uint bound (show_nat n) = Some n"
proof -
  assume "n < bound"
  moreover obtain c cs where "show_nat n = c # cs" and "is_digit c"
    by (rule show_nat_Cons)
  moreover from \<open>is_digit c\<close> have "c \<noteq> CHR ''+''"
    by (auto simp: is_digit_def)
  ultimately show ?thesis
    using digits_val_show_nat [of n] by (simp add: parse_uint_def)
qed

lemma parse_uint_bound: "parse_uint bound s = Some n \<Longrightarrow> n < bound"
  by (auto simp: parse_uint_def Let_def split: if_splits option.splits)

lemma is_ascii_show_nat [simp]: "is_ascii (show_nat n)"
  using show_nat_all_digits [of n]
  by (auto simp: is_ascii_def is_digit_def list_all_iff)

lemma trim_both_id: "xs = [] \<or> \<not> P (hd xs) \<and> \<not> P (last xs) \<Longrightarrow> trim_both P xs = xs"
proof (cases xs)
  case (Cons y ys)
  assume "xs = [] \<or> \<not> P (hd xs) \<and> \<not> P (last xs)"
  with Cons have "dropWhile P xs = xs" and "dropWhile P (rev xs) = rev xs"
    by (simp, cases "rev xs") (auto simp: Cons last_rev [symmetric] hd_rev dest: arg_cong [of _ _ hd])
  then show ?thesis by (simp add: trim_both_def)
qed (simp add: trim_both_def)

lemma str_trim_ascii_id:
  assumes "is_ascii s" and "s = [] \<or> \<not> is_whitespace (nat_of_byte (hd s)) \<and> \<not> is_whitespace (nat_of_byte (last s))"
  shows "str_trim s = s"
proof -
  have "trim_both is_whitespace (map nat_of_byte s) = map nat_of_byte s"
    by (rule trim_both_id) (use assms(2) in \<open>auto simp: hd_map last_map\<close>)
  with assms(1) show ?thesis
    by (simp add: str_trim_def str_chars_ascii str_of_chars_ascii)
qed

lemma str_trim_show_nat [simp]: "str_trim (show_nat n) = show_nat n"
proof (rule str_trim_ascii_id)
  have "is_digit c \<Longrightarrow> \<not> is_whitespace (nat_of_byte c)" for c
    by (simp add: is_digit_def is_whitespace_def)
  then show "show_nat n = [] \<or> \<not> is_whitespace (nat_of_byte (hd (show_nat n)))
      \<and> \<not> is_whitespace (nat_of_byte (last (show_nat n)))"
    using show_nat_all_digits [of n] show_nat_nonempty [of n] by (auto simp: list_all_iff)
qed simp

end
