(* ===== verification/AudioRing.thy ===== *)
theory AudioRing
  imports RustStd
begin

text \<open>
  \<open>terminal-model/src/audio_ring.rs\<close>: the fixed-capacity ring of PCM samples, each tagged
  with the utterance (generation) that produced it, that the capture and the upload task
  share. The ring is a record of the two arrays and their cursors; \<open>ring_items\<close> reads it as
  the queue it implements, and the locale \<open>pcm_fifo\<close> is that queue as an interface: what a
  client may rely on, with the facts about draining it proved from the laws alone.
\<close>

section \<open>The ring\<close>

text \<open>\<open>WriteResult\<close>.\<close>

record write_result =
  dropped :: nat
  first_drop :: bool

text \<open>\<open>AudioRing<N>\<close>; \<open>N\<close> is the length of the two arrays.\<close>

record audio_ring =
  samples :: "i16 list"
  generations :: "u32 list"
  ring_head :: nat
  ring_len :: nat
  newest_generation :: u32
  last_drop_generation :: "u32 option"

abbreviation ring_cap :: "audio_ring \<Rightarrow> nat" where
  "ring_cap r \<equiv> length (samples r)"

definition ring_new :: "nat \<Rightarrow> audio_ring" where
  "ring_new n = \<lparr>samples = replicate n 0, generations = replicate n 0, ring_head = 0,
     ring_len = 0, newest_generation = 0, last_drop_generation = None\<rparr>"

definition ring_clear :: "audio_ring \<Rightarrow> audio_ring" where
  "ring_clear r = r\<lparr>ring_head := 0, ring_len := 0, last_drop_generation := None\<rparr>"

definition ring_capacity :: "audio_ring \<Rightarrow> nat" where
  "ring_capacity r = ring_cap r"

definition ring_is_empty :: "audio_ring \<Rightarrow> bool" where
  "ring_is_empty r \<longleftrightarrow> ring_len r = 0"

definition head_generation :: "audio_ring \<Rightarrow> u32 option" where
  "head_generation r = (if ring_len r = 0 then None else Some (generations r ! ring_head r))"

definition evict_oldest :: "audio_ring \<Rightarrow> audio_ring" where
  "evict_oldest r = r\<lparr>ring_head := (ring_head r + 1) mod ring_cap r, ring_len := ring_len r - 1\<rparr>"

function evict_until_room_for :: "audio_ring \<Rightarrow> nat \<Rightarrow> nat \<Rightarrow> audio_ring \<times> nat" where
  "evict_until_room_for r needed n =
     (if ring_len r > 0 \<and> ring_len r + needed > ring_cap r
      then evict_until_room_for (evict_oldest r) needed (n + 1)
      else (r, n))"
  by pat_completeness auto
termination
  by (relation "measure (\<lambda>(r, _, _). ring_len r)") (auto simp: evict_oldest_def)

declare evict_until_room_for.simps [simp del]

definition ring_push :: "audio_ring \<Rightarrow> i16 \<Rightarrow> u32 \<Rightarrow> audio_ring" where
  "ring_push r s g =
     (let tail = (ring_head r + ring_len r) mod ring_cap r
      in r\<lparr>samples := (samples r)[tail := s], generations := (generations r)[tail := g],
           ring_len := ring_len r + 1\<rparr>)"

definition finish_write :: "audio_ring \<Rightarrow> u32 \<Rightarrow> nat \<Rightarrow> audio_ring \<times> write_result" where
  "finish_write r g n =
     (let first = n > 0 \<and> last_drop_generation r \<noteq> Some g;
          r' = (if n > 0 then r\<lparr>last_drop_generation := Some g\<rparr> else r)
      in (r', \<lparr>dropped = n, first_drop = first\<rparr>))"

fun write_samples :: "audio_ring \<Rightarrow> u32 \<Rightarrow> i16 list \<Rightarrow> nat \<Rightarrow> audio_ring \<times> nat" where
  "write_samples r g [] n = (r, n)"
| "write_samples r g (s # ss) n =
     (let (r', n') = evict_until_room_for r 1 n in write_samples (ring_push r' s g) g ss n')"

definition ring_write_iter :: "audio_ring \<Rightarrow> u32 \<Rightarrow> i16 list \<Rightarrow> audio_ring \<times> write_result" where
  "ring_write_iter r g ss =
     (if g < newest_generation r then (r, \<lparr>dropped = 0, first_drop = False\<rparr>)
      else let (r', n) = write_samples (r\<lparr>newest_generation := g\<rparr>) g ss 0
           in finish_write r' g n)"

definition ring_write :: "audio_ring \<Rightarrow> u32 \<Rightarrow> i16 list \<Rightarrow> audio_ring \<times> write_result" where
  "ring_write r g ss = ring_write_iter r g ss"

text \<open>\<open>read\<close>: first the loop that discards older generations, then the copying loop.\<close>

function discard_older :: "audio_ring \<Rightarrow> u32 \<Rightarrow> audio_ring" where
  "discard_older r g =
     (if ring_len r > 0 \<and> generations r ! ring_head r < g
      then discard_older (evict_oldest r) g else r)"
  by pat_completeness auto
termination
  by (relation "measure (\<lambda>(r, _). ring_len r)") (auto simp: evict_oldest_def)

declare discard_older.simps [simp del]

function copy_run :: "audio_ring \<Rightarrow> u32 \<Rightarrow> nat \<Rightarrow> i16 list \<Rightarrow> nat \<times> i16 list" where
  "copy_run r g n out =
     (if n < length out \<and> n < ring_len r then
        let index = (ring_head r + n) mod ring_cap r
        in if generations r ! index \<noteq> g then (n, out)
           else copy_run r g (n + 1) (out[n := samples r ! index])
      else (n, out))"
  by pat_completeness auto
termination
  by (relation "measure (\<lambda>(_, _, n, out). length out - n)") auto

declare copy_run.simps [simp del]

definition ring_read :: "audio_ring \<Rightarrow> u32 \<Rightarrow> i16 list \<Rightarrow> audio_ring \<times> nat \<times> i16 list" where
  "ring_read r g out =
     (let r1 = discard_older r g;
          (n, out') = copy_run r1 g 0 out
      in (r1\<lparr>ring_head := (ring_head r1 + n) mod ring_cap r1, ring_len := ring_len r1 - n\<rparr>,
          n, out'))"

definition utterance_ended :: "u32 \<Rightarrow> u32 \<Rightarrow> u32 \<Rightarrow> bool" where
  "utterance_ended newest_armed newest_ended g \<longleftrightarrow> newest_armed > g \<or> newest_ended \<ge> g"

section \<open>The ring as a queue\<close>

type_synonym item = "u32 \<times> i16"

definition ring_items :: "audio_ring \<Rightarrow> item list" where
  "ring_items r = map (\<lambda>i. let k = (ring_head r + i) mod ring_cap r
     in (generations r ! k, samples r ! k)) [0..<ring_len r]"

text \<open>
  Well-formed rings: the arrays have one positive length, the cursors are in range, and the
  buffered generations are in order and none is newer than the newest accepted one.
\<close>

definition ring_shape :: "audio_ring \<Rightarrow> bool" where
  "ring_shape r \<longleftrightarrow> 0 < ring_cap r \<and> length (generations r) = ring_cap r
     \<and> ring_head r < ring_cap r \<and> ring_len r \<le> ring_cap r"

definition ring_inv :: "audio_ring \<Rightarrow> bool" where
  "ring_inv r \<longleftrightarrow> ring_shape r \<and> sorted (map fst (ring_items r))
     \<and> (\<forall>x \<in> set (ring_items r). fst x \<le> newest_generation r)"

lemma length_ring_items [simp]: "length (ring_items r) = ring_len r"
  by (simp add: ring_items_def)

lemma ring_items_nth:
  "i < ring_len r \<Longrightarrow> ring_items r ! i =
     (generations r ! ((ring_head r + i) mod ring_cap r), samples r ! ((ring_head r + i) mod ring_cap r))"
  by (simp add: ring_items_def Let_def)

lemma ring_items_hd:
  "ring_shape r \<Longrightarrow> 0 < ring_len r \<Longrightarrow>
     hd (ring_items r) = (generations r ! ring_head r, samples r ! ring_head r)"
  by (simp add: hd_conv_nth ring_items_nth ring_shape_def flip: length_greater_0_conv)

lemma ring_shape_evict [inv_intros]:
  "ring_shape r \<Longrightarrow> ring_shape (evict_oldest r)"
  by (auto simp: ring_shape_def evict_oldest_def)

lemma ring_items_evict:
  assumes "0 < ring_len r"
  shows "ring_items (evict_oldest r) = tl (ring_items r)"
proof (rule nth_equalityI)
  show "length (ring_items (evict_oldest r)) = length (tl (ring_items r))"
    by (simp add: evict_oldest_def)
  fix i assume "i < length (ring_items (evict_oldest r))"
  with assms show "ring_items (evict_oldest r) ! i = tl (ring_items r) ! i"
    using ring_index_step [of "ring_head r" "ring_cap r" i]
    by (simp add: evict_oldest_def ring_items_nth nth_tl)
qed

lemma ring_shape_push:
  "ring_shape r \<Longrightarrow> ring_len r < ring_cap r \<Longrightarrow> ring_shape (ring_push r s g)"
  by (simp add: ring_shape_def ring_push_def Let_def)

lemma ring_items_push:
  assumes "ring_shape r" and "ring_len r < ring_cap r"
  shows "ring_items (ring_push r s g) = ring_items r @ [(g, s)]"
proof (rule nth_equalityI)
  show "length (ring_items (ring_push r s g)) = length (ring_items r @ [(g, s)])"
    by (simp add: ring_push_def Let_def)
  fix i assume "i < length (ring_items (ring_push r s g))"
  then have i: "i \<le> ring_len r" by (simp add: ring_push_def Let_def)
  let ?n = "ring_cap r" and ?h = "ring_head r"
  have tail: "(?h + ring_len r) mod ?n < ?n" and len: "length (generations r) = ?n"
    using assms by (auto simp: ring_shape_def)
  show "ring_items (ring_push r s g) ! i = (ring_items r @ [(g, s)]) ! i"
  proof (cases "i = ring_len r")
    case True
    with tail len show ?thesis
      by (simp add: ring_items_nth nth_append ring_push_def Let_def)
  next
    case False
    with i have "i < ring_len r" by simp
    moreover from this assms have "(?h + i) mod ?n \<noteq> (?h + ring_len r) mod ?n"
      by (intro ring_index_inj) auto
    ultimately show ?thesis
      by (simp add: ring_items_nth nth_append ring_push_def Let_def)
  qed
qed

lemma frame_evict [frame_simps]:
  "ring_cap (evict_oldest r) = ring_cap r"
  "newest_generation (evict_oldest r) = newest_generation r"
  "last_drop_generation (evict_oldest r) = last_drop_generation r"
  "ring_len (evict_oldest r) = ring_len r - 1"
  by (simp_all add: evict_oldest_def)

lemma frame_push [frame_simps]:
  "ring_cap (ring_push r s g) = ring_cap r"
  "newest_generation (ring_push r s g) = newest_generation r"
  "last_drop_generation (ring_push r s g) = last_drop_generation r"
  "ring_len (ring_push r s g) = ring_len r + 1"
  by (simp_all add: ring_push_def Let_def)

text \<open>Making room for one sample evicts at most the oldest one.\<close>

lemma evict_for_one:
  assumes "ring_shape r"
  shows "evict_until_room_for r 1 n =
    (if ring_len r = ring_cap r then (evict_oldest r, n + 1) else (r, n))"
proof (cases "ring_len r = ring_cap r")
  case True
  moreover from this assms have "0 < ring_len r" by (simp add: ring_shape_def)
  ultimately show ?thesis
    by (subst evict_until_room_for.simps, subst evict_until_room_for.simps) (simp add: frame_simps)
next
  case False
  with assms show ?thesis
    by (subst evict_until_room_for.simps) (simp add: ring_shape_def)
qed

text \<open>The copying loop of \<open>write\<close> keeps the last \<open>N\<close> samples and counts the rest.\<close>

lemma write_samples_correct:
  assumes "ring_shape r"
  shows "case write_samples r g ss n of (r', n') \<Rightarrow>
     ring_shape r' \<and> ring_cap r' = ring_cap r \<and> newest_generation r' = newest_generation r
     \<and> last_drop_generation r' = last_drop_generation r
     \<and> ring_items r' = last_n (ring_cap r) (ring_items r @ map (Pair g) ss)
     \<and> n' = n + (ring_len r + length ss - ring_cap r)"
  using assms
proof (induction ss arbitrary: r n)
  case Nil
  then show ?case by (simp add: ring_shape_def)
next
  case (Cons s ss)
  define full where "full \<longleftrightarrow> ring_len r = ring_cap r"
  define r1 where "r1 = (if full then evict_oldest r else r)"
  define n1 where "n1 = (if full then n + 1 else n)"
  let ?r2 = "ring_push r1 s g"
  have bounds: "0 < ring_cap r" "ring_len r \<le> ring_cap r"
    using Cons.prems by (auto simp: ring_shape_def)
  have r1: "ring_shape r1" "ring_len r1 < ring_cap r1" "ring_cap r1 = ring_cap r"
    "newest_generation r1 = newest_generation r" "last_drop_generation r1 = last_drop_generation r"
    using Cons.prems bounds by (auto simp: r1_def full_def frame_simps intro: inv_intros)
  have items: "ring_items ?r2 = last_n (ring_cap r) (ring_items r @ [(g, s)])"
    using r1(1,2) bounds
    by (simp add: ring_items_push)
       (auto simp: r1_def full_def ring_items_evict last_n_snoc_full)
  have step: "write_samples r g (s # ss) n = write_samples ?r2 g ss n1"
    using evict_for_one [OF Cons.prems, of n] by (simp add: r1_def n1_def full_def)
  have cap2: "ring_cap ?r2 = ring_cap r" and "ring_len ?r2 = ring_len r1 + 1"
    using r1 by (simp_all add: frame_simps)
  have "last_n (ring_cap r) (ring_items ?r2 @ map (Pair g) ss) =
      last_n (ring_cap r) (ring_items r @ map (Pair g) (s # ss))"
    by (simp add: items last_n_append_last_n)
  moreover have "n1 + (ring_len ?r2 + length ss - ring_cap r)
      = n + (ring_len r + length (s # ss) - ring_cap r)"
    using bounds
    by (cases full; cases "ring_cap r") (simp_all add: n1_def r1_def full_def frame_simps)
  ultimately show ?case
    using Cons.IH [OF ring_shape_push [OF r1(1,2)], of s g n1] r1 cap2
    unfolding step by (auto simp: frame_simps split: prod.splits)
qed


lemma ring_items_upd [simp]:
  "ring_items (r\<lparr>newest_generation := g\<rparr>) = ring_items r"
  "ring_items (r\<lparr>last_drop_generation := d\<rparr>) = ring_items r"
  "ring_shape (r\<lparr>newest_generation := g\<rparr>) = ring_shape r"
  "ring_shape (r\<lparr>last_drop_generation := d\<rparr>) = ring_shape r"
  by (simp_all add: ring_items_def ring_shape_def)

text \<open>\<open>write\<close> on the queue: the whole effect of one accepted write.\<close>

lemma ring_write_correct:
  assumes "ring_shape r" and "\<not> g < newest_generation r"
  shows "case ring_write r g ss of (r', w) \<Rightarrow>
     ring_shape r' \<and> ring_cap r' = ring_cap r \<and> newest_generation r' = g
     \<and> ring_items r' = last_n (ring_cap r) (ring_items r @ map (Pair g) ss)
     \<and> dropped w = ring_len r + length ss - ring_cap r
     \<and> first_drop w = (0 < dropped w \<and> last_drop_generation r \<noteq> Some g)
     \<and> last_drop_generation r' = (if 0 < dropped w then Some g else last_drop_generation r)"
  using write_samples_correct [of "r\<lparr>newest_generation := g\<rparr>" g ss 0] assms
  by (auto simp: ring_write_def ring_write_iter_def finish_write_def Let_def split: prod.splits)

lemma ring_write_stale:
  "g < newest_generation r \<Longrightarrow> ring_write r g ss = (r, \<lparr>dropped = 0, first_drop = False\<rparr>)"
  by (simp add: ring_write_def ring_write_iter_def)

text \<open>\<open>read\<close> on the queue.\<close>

lemma discard_older_correct:
  assumes "ring_shape r"
  shows "ring_shape (discard_older r g) \<and> ring_cap (discard_older r g) = ring_cap r
     \<and> newest_generation (discard_older r g) = newest_generation r
     \<and> last_drop_generation (discard_older r g) = last_drop_generation r
     \<and> ring_items (discard_older r g) = dropWhile (\<lambda>x. fst x < g) (ring_items r)"
  using assms
proof (induction r g rule: discard_older.induct)
  case (1 r g)
  show ?case
  proof (cases "ring_len r > 0 \<and> generations r ! ring_head r < g")
    case True
    then have step: "discard_older r g = discard_older (evict_oldest r) g"
      by (subst discard_older.simps) simp
    obtain x xs where items: "ring_items r = x # xs"
      using True length_ring_items [of r] by (cases "ring_items r") auto
    with True "1.prems" have "fst x < g"
      using ring_items_hd [of r] by simp
    moreover have "ring_items (evict_oldest r) = xs"
      using True by (simp add: ring_items_evict items)
    ultimately show ?thesis
      using "1.IH" [OF True ring_shape_evict [OF "1.prems"]] items
      by (simp add: step frame_simps)
  next
    case False
    then have step: "discard_older r g = r"
      by (subst discard_older.simps) auto
    have "dropWhile (\<lambda>x. fst x < g) (ring_items r) = ring_items r"
      using False ring_items_hd [OF "1.prems"] length_ring_items [of r]
      by (cases "ring_items r") auto
    with "1.prems" show ?thesis by (simp add: step)
  qed
qed

text \<open>The copying loop stops at the first other generation or when the output is full.\<close>

definition run_length :: "audio_ring \<Rightarrow> u32 \<Rightarrow> nat" where
  "run_length r g = length (takeWhile (\<lambda>x. fst x = g) (ring_items r))"

lemma copy_run_correct:
  assumes "n \<le> min (length out) (run_length r g)" and "take n out = map snd (take n (ring_items r))"
  shows "case copy_run r g n out of (m, out') \<Rightarrow>
     m = min (length out) (run_length r g) \<and> length out' = length out
     \<and> take m out' = map snd (take m (ring_items r)) \<and> drop m out' = drop m out"
  using assms
proof (induction r g n out rule: copy_run.induct)
  case (1 r g n out)
  let ?k = "(ring_head r + n) mod ring_cap r"
  have run_le: "run_length r g \<le> ring_len r"
    using length_takeWhile_le [of _ "ring_items r"] by (simp add: run_length_def)
  show ?case
  proof (cases "n < length out \<and> n < ring_len r \<and> generations r ! ?k = g")
    case True
    then have step: "copy_run r g n out = copy_run r g (n + 1) (out[n := samples r ! ?k])"
      by (subst copy_run.simps) (simp add: Let_def)
    have nth: "ring_items r ! n = (g, samples r ! ?k)"
      using True by (simp add: ring_items_nth)
    have "n \<noteq> run_length r g"
    proof
      assume n: "n = run_length r g"
      have "fst (ring_items r ! n) \<noteq> g"
        using nth_length_takeWhile [of "\<lambda>x. fst x = g" "ring_items r"] True
        unfolding n run_length_def by simp
      with nth show False by simp
    qed
    with "1.prems"(1) True have bound: "n + 1 \<le> min (length (out[n := samples r ! ?k])) (run_length r g)"
      by simp
    have "take (n + 1) (out[n := samples r ! ?k]) = map snd (take (n + 1) (ring_items r))"
      using True nth "1.prems"(2) by (simp add: take_Suc_conv_app_nth)
    then have take': "take (n + 1) (out[n := samples r ! ?k]) = map snd (take (n + 1) (ring_items r))" .
    have guard: "n < length out \<and> n < ring_len r" "\<not> generations r ! ?k \<noteq> g"
      using True by auto
    obtain m out' where m: "copy_run r g (n + 1) (out[n := samples r ! ?k]) = (m, out')"
      by fastforce
    have IH: "m = min (length out) (run_length r g)" "length out' = length out"
      "take m out' = map snd (take m (ring_items r))" "drop m out' = drop m (out[n := samples r ! ?k])"
      using "1.IH" [OF guard(1) refl guard(2) bound take'] unfolding m by auto
    have "n < m" using bound IH(1) by simp
    then have "drop m (out[n := samples r ! ?k]) = drop m out" by simp
    with IH show ?thesis unfolding step m by simp
  next
    case False
    then have step: "copy_run r g n out = (n, out)"
      by (subst copy_run.simps) (auto simp: Let_def)
    have "n = min (length out) (run_length r g)"
    proof (rule ccontr)
      assume "n \<noteq> min (length out) (run_length r g)"
      with "1.prems"(1) have n: "n < length out" "n < run_length r g" by auto
      then have "ring_items r ! n \<in> set (takeWhile (\<lambda>x. fst x = g) (ring_items r))"
        unfolding run_length_def by (metis nth_mem takeWhile_nth)
      then have "fst (ring_items r ! n) = g" by (auto dest: set_takeWhileD)
      with n run_le False show False by (simp add: ring_items_nth)
    qed
    with "1.prems" show ?thesis unfolding step by simp
  qed
qed

lemma ring_items_advance:
  assumes "n \<le> ring_len r"
  shows "ring_items (r\<lparr>ring_head := (ring_head r + n) mod ring_cap r, ring_len := ring_len r - n\<rparr>)
    = drop n (ring_items r)"
  using assms by (intro nth_equalityI) (simp_all add: ring_items_nth ring_index_add)

lemma ring_read_correct:
  fixes r :: audio_ring and g :: u32 and out :: "i16 list"
  assumes "ring_shape r"
  defines "q \<equiv> dropWhile (\<lambda>x. fst x < g) (ring_items r)"
  shows "case ring_read r g out of (r', n, out') \<Rightarrow>
     ring_shape r' \<and> ring_cap r' = ring_cap r \<and> newest_generation r' = newest_generation r
     \<and> last_drop_generation r' = last_drop_generation r
     \<and> n = min (length out) (length (takeWhile (\<lambda>x. fst x = g) q))
     \<and> ring_items r' = drop n q
     \<and> out' = map snd (take n q) @ drop n out"
proof -
  let ?r1 = "discard_older r g"
  have r1: "ring_shape ?r1" "ring_cap ?r1 = ring_cap r" "ring_items ?r1 = q"
    "newest_generation ?r1 = newest_generation r" "last_drop_generation ?r1 = last_drop_generation r"
    using discard_older_correct [OF assms(1), of g] by (simp_all add: q_def)
  obtain n out' where c: "copy_run ?r1 g 0 out = (n, out')" by fastforce
  have copy: "n = min (length out) (length (takeWhile (\<lambda>x. fst x = g) q))"
    "take n out' = map snd (take n q)" "drop n out' = drop n out"
    using copy_run_correct [of 0 out ?r1 g] unfolding c run_length_def r1(3) by auto
  have "n \<le> length q"
    using copy(1) length_takeWhile_le [of "\<lambda>x. fst x = g" q] by (simp add: min_le_iff_disj)
  then have n: "n \<le> ring_len ?r1"
    using length_ring_items [of ?r1] r1(3) by simp
  have "out' = map snd (take n q) @ drop n out"
    using copy(2,3) append_take_drop_id [of n out'] by simp
  moreover have "ring_shape (?r1\<lparr>ring_head := (ring_head ?r1 + n) mod ring_cap ?r1,
      ring_len := ring_len ?r1 - n\<rparr>)"
    using r1(1) by (auto simp: ring_shape_def)
  ultimately show ?thesis
    using r1 copy(1) ring_items_advance [OF n] by (simp add: ring_read_def Let_def c)
qed

section \<open>The contract, as a queue\<close>

text \<open>
  What the ring promises: a bounded queue of tagged samples. A write appends and keeps the
  newest; a read drops what is older than the generation asked for and takes its leading run.
\<close>

record pcm_queue =
  q_items :: "item list"
  q_newest :: u32
  q_reported :: "u32 option"

definition queue_write :: "nat \<Rightarrow> pcm_queue \<Rightarrow> u32 \<Rightarrow> i16 list \<Rightarrow> pcm_queue \<times> write_result" where
  "queue_write N q g ss =
     (if g < q_newest q then (q, \<lparr>dropped = 0, first_drop = False\<rparr>)
      else let d = length (q_items q) + length ss - N
           in (\<lparr>q_items = last_n N (q_items q @ map (Pair g) ss), q_newest = g,
                 q_reported = (if 0 < d then Some g else q_reported q)\<rparr>,
               \<lparr>dropped = d, first_drop = (0 < d \<and> q_reported q \<noteq> Some g)\<rparr>))"

definition queue_read :: "pcm_queue \<Rightarrow> u32 \<Rightarrow> nat \<Rightarrow> pcm_queue \<times> i16 list" where
  "queue_read q g k =
     (let live = dropWhile (\<lambda>x. fst x < g) (q_items q);
          n = min k (length (takeWhile (\<lambda>x. fst x = g) live))
      in (q\<lparr>q_items := drop n live\<rparr>, map snd (take n live)))"

definition ring_queue :: "audio_ring \<Rightarrow> pcm_queue" where
  "ring_queue r = \<lparr>q_items = ring_items r, q_newest = newest_generation r,
     q_reported = last_drop_generation r\<rparr>"

lemma ring_inv_shape: "ring_inv r \<Longrightarrow> ring_shape r"
  by (simp add: ring_inv_def)

lemma ring_inv_sorted: "ring_inv r \<Longrightarrow> sorted (map fst (ring_items r))"
  by (simp add: ring_inv_def)

lemma ring_inv_newest: "ring_inv r \<Longrightarrow> x \<in> set (ring_items r) \<Longrightarrow> fst x \<le> newest_generation r"
  by (simp add: ring_inv_def)

lemma ring_inv_new: "0 < n \<Longrightarrow> ring_inv (ring_new n)"
  by (simp add: ring_inv_def ring_shape_def ring_new_def ring_items_def)

lemma ring_inv_clear [inv_intros]: "ring_inv r \<Longrightarrow> ring_inv (ring_clear r)"
  by (auto simp: ring_inv_def ring_shape_def ring_clear_def ring_items_def)

lemma sorted_fst_write:
  assumes "sorted (map fst xs)" and "\<forall>x \<in> set xs. fst x \<le> m" and "\<not> g < (m :: u32)"
  shows "sorted (map fst (last_n k (xs @ map (Pair g) ss)))"
    and "\<forall>x \<in> set (last_n k (xs @ map (Pair g) ss)). fst x \<le> g"
proof -
  have all: "\<forall>x \<in> set xs. fst x \<le> g" using assms(2,3) by auto
  have "sorted (map (\<lambda>x. g) ss)" by (induction ss) auto
  with all assms(1) have "sorted (map fst (xs @ map (Pair g) ss))"
    by (auto simp: sorted_append comp_def)
  then show "sorted (map fst (last_n k (xs @ map (Pair g) ss)))"
    by (simp only: last_n_def drop_map [symmetric] sorted_wrt_drop)
  show "\<forall>x \<in> set (last_n k (xs @ map (Pair g) ss)). fst x \<le> g"
    using all by (auto dest!: subsetD [OF set_last_n])
qed

lemma ring_inv_write [inv_intros]:
  assumes "ring_inv r"
  shows "ring_inv (fst (ring_write r g ss))"
proof (cases "g < newest_generation r")
  case True
  with assms show ?thesis by (simp add: ring_write_stale)
next
  case False
  with assms ring_write_correct [of r g ss] sorted_fst_write [of "ring_items r" "newest_generation r" g]
  show ?thesis by (auto simp: ring_inv_def split: prod.splits)
qed

lemma ring_inv_read [inv_intros]:
  assumes "ring_inv r"
  shows "ring_inv (fst (ring_read r g out))"
proof -
  obtain r' n out' where res: "ring_read r g out = (r', n, out')" by (metis prod_cases3)
  let ?q = "dropWhile (\<lambda>x. fst x < g) (ring_items r)"
  have "sorted (map fst (drop n ?q))"
    using assms by (simp only: drop_map [symmetric] dropWhile_eq_drop sorted_wrt_drop ring_inv_def)
  moreover have "set (drop n ?q) \<subseteq> set (ring_items r)"
    by (meson order_trans set_drop_subset set_dropWhileD subsetI)
  ultimately show ?thesis
    using assms ring_read_correct [OF ring_inv_shape [OF assms], where g = g and out = out]
    by (auto simp: ring_inv_def res)
qed

lemma ring_len_le_cap: "ring_inv r \<Longrightarrow> ring_len r \<le> ring_cap r"
  by (simp add: ring_inv_def ring_shape_def)

text \<open>C16: Writing to the ring is writing to the bounded queue: from a well-formed ring the
  result is well-formed, never grows past its capacity, holds exactly the newest samples in
  order, counts exactly the samples it lost, reports a generation's first loss, and ignores
  a chunk of a superseded generation.\<close>

theorem ring_write_refines_queue:
  assumes "ring_inv r"
  shows "ring_inv (fst (ring_write r g ss))
    \<and> ring_len (fst (ring_write r g ss)) \<le> ring_capacity r
    \<and> map_prod ring_queue id (ring_write r g ss) = queue_write (ring_capacity r) (ring_queue r) g ss"
proof -
  have "map_prod ring_queue id (ring_write r g ss) = queue_write (ring_capacity r) (ring_queue r) g ss
    \<and> ring_cap (fst (ring_write r g ss)) = ring_cap r"
  proof (cases "g < newest_generation r")
    case True
    then show ?thesis by (simp add: ring_write_stale queue_write_def ring_queue_def)
  next
    case False
    with ring_write_correct [OF ring_inv_shape [OF assms], of g ss] show ?thesis
      by (auto simp: queue_write_def ring_queue_def ring_capacity_def Let_def split: prod.splits)
  qed
  with ring_inv_write [OF assms, of g ss] ring_len_le_cap show ?thesis
    by (metis ring_capacity_def)
qed

theorem ring_write_refines_queue_witness:
  "q_items (ring_queue (fst (ring_write (ring_new 3) 1 [10, 11, 12, 13]))) = [(1, 11), (1, 12), (1, 13)]"
proof -
  have "ring_inv (ring_new 3)" by (simp add: ring_inv_new)
  from ring_write_refines_queue [OF this, of 1 "[10, 11, 12, 13]"]
  have "map_prod ring_queue id (ring_write (ring_new 3) 1 [10, 11, 12, 13])
      = queue_write 3 (ring_queue (ring_new 3)) 1 [10, 11, 12, 13]"
    by (simp add: ring_capacity_def ring_new_def)
  then have "ring_queue (fst (ring_write (ring_new 3) 1 [10, 11, 12, 13]))
      = fst (queue_write 3 (ring_queue (ring_new 3)) 1 [10, 11, 12, 13])"
    by (metis fst_map_prod)
  then show ?thesis
    by (simp add: queue_write_def ring_queue_def ring_new_def ring_items_def last_n_def)
qed

text \<open>C17: Reading from the ring is reading from the queue: samples of older generations are
  discarded, the leading run of the generation asked for is delivered in order, as much of it
  as fits, everything newer stays, and the rest of the output buffer is untouched.\<close>

theorem ring_read_refines_queue:
  assumes "ring_inv r"
  shows "case ring_read r g out of (r', n, out') \<Rightarrow>
    ring_inv r' \<and> (ring_queue r', take n out') = queue_read (ring_queue r) g (length out)
    \<and> drop n out' = drop n out \<and> length out' = length out"
proof -
  obtain r' n out' where res: "ring_read r g out = (r', n, out')" by (metis prod_cases3)
  let ?q = "dropWhile (\<lambda>x. fst x < g) (ring_items r)"
  have spec: "newest_generation r' = newest_generation r" "last_drop_generation r' = last_drop_generation r"
    "n = min (length out) (length (takeWhile (\<lambda>x. fst x = g) ?q))" "ring_items r' = drop n ?q"
    "out' = map snd (take n ?q) @ drop n out"
    using ring_read_correct [OF ring_inv_shape [OF assms], where g = g and out = out] by (simp_all add: res)
  have "length (take n ?q) = n" "n \<le> length out"
    using spec(3) length_takeWhile_le [of "\<lambda>x. fst x = g" ?q] by auto
  with spec ring_inv_read [OF assms, of g out] show ?thesis
    by (simp add: res ring_queue_def queue_read_def Let_def)
qed

theorem ring_read_refines_queue_witness:
  "fst (queue_read (ring_queue (fst (ring_write (ring_new 3) 1 [10, 11]))) 1 2)
     = ring_queue (fst (ring_read (fst (ring_write (ring_new 3) 1 [10, 11])) 1 [0, 0]))"
proof -
  have "ring_inv (fst (ring_write (ring_new 3) 1 [10, 11]))"
    by (intro inv_intros ring_inv_new) simp
  from ring_read_refines_queue [OF this, of 1 "[0, 0]"] show ?thesis
    by (auto split: prod.splits simp: prod_eq_iff numeral_2_eq_2)
qed

section \<open>The interface the push-to-talk tasks use\<close>

text \<open>
  A client sees the ring only through what it holds (\<open>items\<close>) and through its two
  operations. \<open>pending g\<close> is the audio of generation \<open>g\<close> still to be delivered; the laws give
  that a read moves a prefix of it to the caller and leaves every newer generation alone.
\<close>

definition pending_of :: "u32 \<Rightarrow> item list \<Rightarrow> i16 list" where
  "pending_of g xs = map snd (filter (\<lambda>x. fst x = g) xs)"

lemma pending_of_append [simp]: "pending_of g (xs @ ys) = pending_of g xs @ pending_of g ys"
  by (simp add: pending_of_def)

lemma pending_of_take_drop: "pending_of g (take n xs) @ pending_of g (drop n xs) = pending_of g xs"
  by (simp flip: pending_of_append)

lemma pending_of_tagged [simp]:
  "pending_of g (map (Pair h) ss) = (if g = h then ss else [])"
  by (induction ss) (auto simp: pending_of_def)

lemma pending_of_uniform: "\<forall>x \<in> set xs. fst x = g \<Longrightarrow> pending_of g xs = map snd xs"
  by (simp add: pending_of_def filter_True)

lemma pending_of_other: "\<forall>x \<in> set xs. fst x \<noteq> g \<Longrightarrow> pending_of g xs = []"
  by (simp add: pending_of_def filter_empty_conv)

locale pcm_fifo =
  fixes items :: "'r \<Rightarrow> item list"
    and newest :: "'r \<Rightarrow> u32"
    and cap :: "'r \<Rightarrow> nat"
    and inv :: "'r \<Rightarrow> bool"
    and enqueue :: "'r \<Rightarrow> u32 \<Rightarrow> i16 list \<Rightarrow> 'r \<times> write_result"
    and dequeue :: "'r \<Rightarrow> u32 \<Rightarrow> i16 list \<Rightarrow> 'r \<times> nat \<times> i16 list"
  assumes items_sorted: "inv r \<Longrightarrow> sorted (map fst (items r))"
    and items_newest: "inv r \<Longrightarrow> x \<in> set (items r) \<Longrightarrow> fst x \<le> newest r"
    and write_inv: "inv r \<Longrightarrow> inv (fst (enqueue r g ss))"
    and write_cap: "inv r \<Longrightarrow> cap (fst (enqueue r g ss)) = cap r"
    and write_stale: "inv r \<Longrightarrow> g < newest r \<Longrightarrow> fst (enqueue r g ss) = r"
    and write_items: "inv r \<Longrightarrow> \<not> g < newest r \<Longrightarrow>
      items (fst (enqueue r g ss)) = last_n (cap r) (items r @ map (Pair g) ss)"
    and write_newest: "inv r \<Longrightarrow> \<not> g < newest r \<Longrightarrow> newest (fst (enqueue r g ss)) = g"
    and read_inv: "inv r \<Longrightarrow> inv (fst (dequeue r g out))"
    and read_cap: "inv r \<Longrightarrow> cap (fst (dequeue r g out)) = cap r"
    and read_newest: "inv r \<Longrightarrow> newest (fst (dequeue r g out)) = newest r"
    and read_law: "inv r \<Longrightarrow> dequeue r g out = (r', n, out') \<Longrightarrow>
      q = dropWhile (\<lambda>x. fst x < g) (items r) \<Longrightarrow>
      n = min (length out) (length (takeWhile (\<lambda>x. fst x = g) q))
      \<and> items r' = drop n q \<and> take n out' = map snd (take n q)"
begin

definition pending :: "u32 \<Rightarrow> 'r \<Rightarrow> i16 list" where
  "pending g r = pending_of g (items r)"

lemma pending_dropWhile:
  "g \<le> h \<Longrightarrow> pending_of h (dropWhile (\<lambda>x. fst x < g) xs) = pending_of h xs"
proof -
  assume "g \<le> h"
  then have "pending_of h (takeWhile (\<lambda>x. fst x < g) xs) = []"
    by (intro pending_of_other) (auto dest: set_takeWhileD)
  then show ?thesis
    by (metis append_Nil pending_of_append takeWhile_dropWhile_id)
qed

lemma read_bound: "inv r \<Longrightarrow> dequeue r g out = (r', n, out') \<Longrightarrow> n \<le> length out"
  using read_law [OF _ _ refl] by fastforce

text \<open>A read delivers a prefix of the pending audio of its generation and leaves the rest.\<close>

lemma read_pending:
  assumes "inv r" and res: "dequeue r g out = (r', n, out')"
  shows "take n out' @ pending g r' = pending g r"
proof -
  let ?q = "dropWhile (\<lambda>x. fst x < g) (items r)"
  have law: "n \<le> length (takeWhile (\<lambda>x. fst x = g) ?q)" "items r' = drop n ?q"
      "take n out' = map snd (take n ?q)"
    using read_law [OF assms refl] by auto
  from law(1) have "\<forall>x \<in> set (take n ?q). fst x = g"
    by (blast intro: take_within_takeWhile [where P = "\<lambda>x. fst x = g"])
  then have "pending_of g (take n ?q) = take n out'"
    unfolding law(3) by (rule pending_of_uniform)
  then have "take n out' @ pending g r' = pending_of g ?q"
    using pending_of_take_drop [of g n ?q] by (simp only: pending_def law(2))
  then show ?thesis by (simp add: pending_dropWhile pending_def)
qed

text \<open>Newer generations are untouched by it.\<close>

lemma read_pending_newer:
  assumes "inv r" and res: "dequeue r g out = (r', n, out')" and "g < h"
  shows "pending h r' = pending h r"
proof -
  let ?q = "dropWhile (\<lambda>x. fst x < g) (items r)"
  have law: "n \<le> length (takeWhile (\<lambda>x. fst x = g) ?q)" "items r' = drop n ?q"
      "take n out' = map snd (take n ?q)"
    using read_law [OF assms(1,2) refl] by auto
  from law(1) have "\<forall>x \<in> set (take n ?q). fst x = g"
    by (blast intro: take_within_takeWhile [where P = "\<lambda>x. fst x = g"])
  with assms(3) have "\<forall>x \<in> set (take n ?q). fst x \<noteq> h"
    by (metis less_irrefl)
  then have "pending_of h (take n ?q) = []"
    by (rule pending_of_other)
  then have "pending h r' = pending_of h ?q"
    using pending_of_take_drop [of h n ?q] by (simp only: pending_def law(2) append_Nil)
  with assms(3) show ?thesis by (simp add: pending_dropWhile pending_def)
qed

text \<open>Whatever a read leaves of a generation is the end of what there was.\<close>

lemma read_pending_suffix:
  assumes "inv r" and res: "dequeue r g out = (r', n, out')"
  shows "\<exists>gone. pending h r = gone @ pending h r'"
proof -
  let ?q = "dropWhile (\<lambda>x. fst x < g) (items r)"
  have "items r' = drop n ?q" using read_law [OF assms refl] by auto
  then have "items r = takeWhile (\<lambda>x. fst x < g) (items r) @ take n ?q @ items r'" by simp
  then have "pending_of h (items r) = pending_of h (takeWhile (\<lambda>x. fst x < g) (items r) @ take n ?q) @ pending_of h (items r')"
    by (metis append_assoc pending_of_append)
  then show ?thesis by (auto simp: pending_def)
qed

text \<open>An empty read means that nothing of the generation is left.\<close>

lemma read_empty:
  assumes "inv r" and res: "dequeue r g out = (r', 0, out')" and "out \<noteq> []"
  shows "pending g r = []"
proof -
  let ?q = "dropWhile (\<lambda>x. fst x < g) (items r)"
  have "length (takeWhile (\<lambda>x. fst x = g) ?q) = 0"
    using read_law [OF assms(1,2) refl] assms(3) by (cases out) (simp_all only: min_def split: if_splits, auto)
  then have q: "?q = [] \<or> fst (hd ?q) \<noteq> g"
    by (cases ?q) (auto split: if_splits)
  have sorted: "sorted (map fst ?q)"
    using items_sorted [OF assms(1)] by (simp add: dropWhile_eq_drop sorted_wrt_drop flip: drop_map)
  have "\<forall>x \<in> set ?q. fst x \<noteq> g"
  proof (cases ?q)
    case (Cons y ys)
    have "\<not> fst y < g" using hd_dropWhile [of "\<lambda>x. fst x < g" "items r"] Cons by simp
    with q Cons have "g < fst y" by auto
    with sorted Cons show ?thesis by fastforce
  next
    case Nil
    show ?thesis unfolding Nil by simp
  qed
  then show ?thesis
    using pending_of_other [of ?q g] by (simp add: pending_dropWhile pending_def)
qed

text \<open>An accepted write that fits only appends; a stale one changes nothing.\<close>

lemma write_pending:
  assumes "inv r" and "\<not> g < newest r" and "length (items r) + length ss \<le> cap r"
  shows "pending h (fst (enqueue r g ss)) = pending h r @ (if h = g then ss else [])"
  using assms by (simp add: write_items pending_def)

lemma write_pending_end:
  assumes "inv r" and "\<not> g < newest r"
  shows "\<exists>lost. lost @ pending h (fst (enqueue r g ss)) = pending h r @ (if h = g then ss else [])"
proof -
  obtain zs where "items r @ map (Pair g) ss = zs @ items (fst (enqueue r g ss))"
    using last_n_suffix [of "items r @ map (Pair g) ss" "cap r"] assms by (auto simp: write_items)
  then have "pending_of h (items r @ map (Pair g) ss) = pending_of h zs @ pending h (fst (enqueue r g ss))"
    by (simp add: pending_def)
  then show ?thesis by (auto simp: pending_def)
qed

end

lemma ring_cap_write: "ring_inv r \<Longrightarrow> ring_cap (fst (ring_write r g ss)) = ring_cap r"
  using ring_write_correct [OF ring_inv_shape, of r g ss] ring_write_stale [of g r ss]
  by (cases "g < newest_generation r") (auto split: prod.splits)

lemma ring_items_write:
  "ring_inv r \<Longrightarrow> \<not> g < newest_generation r \<Longrightarrow>
     ring_items (fst (ring_write r g ss)) = last_n (ring_cap r) (ring_items r @ map (Pair g) ss)
     \<and> newest_generation (fst (ring_write r g ss)) = g"
  using ring_write_correct [OF ring_inv_shape, of r g ss] by (auto split: prod.splits)

lemma ring_read_frame:
  "ring_inv r \<Longrightarrow> ring_cap (fst (ring_read r g out)) = ring_cap r
     \<and> newest_generation (fst (ring_read r g out)) = newest_generation r
     \<and> last_drop_generation (fst (ring_read r g out)) = last_drop_generation r"
  using ring_read_correct [OF ring_inv_shape, where r = r and g = g and out = out]
  by (auto split: prod.splits)

lemma ring_read_law:
  assumes "ring_inv r" and "ring_read r g out = (r', n, out')"
    and "q = dropWhile (\<lambda>x. fst x < g) (ring_items r)"
  shows "n = min (length out) (length (takeWhile (\<lambda>x. fst x = g) q))
    \<and> ring_items r' = drop n q \<and> take n out' = map snd (take n q)"
proof -
  have spec: "n = min (length out) (length (takeWhile (\<lambda>x. fst x = g) q))"
    "ring_items r' = drop n q" "out' = map snd (take n q) @ drop n out"
    using ring_read_correct [OF ring_inv_shape [OF assms(1)], where g = g and out = out] assms(2,3)
    by simp_all
  have "length (take n q) = n"
    using spec(1) length_takeWhile_le [of "\<lambda>x. fst x = g" q] by simp
  with spec show ?thesis by simp
qed

interpretation audio: pcm_fifo ring_items newest_generation ring_capacity ring_inv ring_write ring_read
proof (unfold_locales, goal_cases)
  case (11 r g out r' n out' q)
  then show ?case by (intro ring_read_law)
qed (auto simp: ring_capacity_def ring_cap_write ring_items_write ring_read_frame ring_write_stale
      ring_inv_sorted ring_inv_newest intro: ring_inv_write ring_inv_read)

section \<open>Reporting lost audio\<close>

text \<open>A history of the ring: writes and reads in any order, by any of the two tasks.\<close>

datatype ring_op = Write u32 "i16 list" | Read u32 "i16 list"

fun ring_reports :: "audio_ring \<Rightarrow> ring_op list \<Rightarrow> u32 list" where
  "ring_reports r [] = []"
| "ring_reports r (Write g ss # ops) =
     (let (r', w) = ring_write r g ss
      in (if first_drop w then [g] else []) @ ring_reports r' ops)"
| "ring_reports r (Read g out # ops) = ring_reports (fst (ring_read r g out)) ops"

lemma reports_bound:
  assumes "ring_inv r"
  shows "count_list (ring_reports r ops) g
     \<le> (if g < newest_generation r \<or> g = newest_generation r \<and> last_drop_generation r = Some g
        then 0 else 1)"
  using assms
proof (induction r ops rule: ring_reports.induct)
  case (2 r h ss ops)
  obtain r' w where res: "ring_write r h ss = (r', w)" by fastforce
  have inv: "ring_inv r'" using ring_inv_write [OF "2.prems", of h ss] res by simp
  show ?case
  proof (cases "h < newest_generation r")
    case True
    with res have "r' = r" "\<not> first_drop w" by (auto simp: ring_write_stale)
    with "2.IH" [OF res [symmetric] refl inv] show ?thesis by (simp add: res)
  next
    case False
    then have "newest_generation r' = h"
      "first_drop w \<longleftrightarrow> 0 < dropped w \<and> last_drop_generation r \<noteq> Some h"
      "last_drop_generation r' = (if 0 < dropped w then Some h else last_drop_generation r)"
      using ring_write_correct [OF ring_inv_shape [OF "2.prems"] False, of ss] res by simp_all
    with "2.IH" [OF res [symmetric] refl inv] False show ?thesis
      by (auto simp: res not_less split: if_splits)
  qed
next
  case (3 r h out ops)
  then show ?case
    using ring_read_frame [OF "3.prems", of h out] ring_inv_read [OF "3.prems", of h out] by simp
qed simp

text \<open>Whatever the interleaving of writes and reads, and however the generations are
  ordered in it, each generation's overflow is reported at most once.\<close>

theorem first_drop_once:
  "ring_inv r \<Longrightarrow> count_list (ring_reports r ops) g \<le> 1"
  using reports_bound [of r ops g] by (simp split: if_splits)

theorem first_drop_once_witness:
  "count_list (ring_reports (ring_new 2)
     [Write 1 [1, 2, 3], Write 1 [4], Read 2 [0], Write 2 [5, 6, 7], Write 1 [8], Write 2 [9]]) 2 \<le> 1"
  by (rule first_drop_once) (simp add: ring_inv_new)

end
