(* ===== verification/ScreenModel.thy ===== *)
theory ScreenModel
  imports RustStd
begin

text \<open>
  \<open>terminal-model/src/screen_model.rs\<close>: the terminal's cell buffer, its scrollback and
  viewport, the overlay, and the \<open>vte::Perform\<close> callbacks that drive it. A callback is a
  function from screen to screen; \<^term>\<open>None\<close> is a panic (an index out of range). The fonts of
  \<open>profont\<close> and the memory layout the compiler chooses are parameters.
\<close>

section \<open>Colours and attributes\<close>

datatype color =
    Black | Red | Green | Yellow | Blue | Magenta | Cyan | White
  | BrightBlack | BrightRed | BrightGreen | BrightYellow
  | BrightBlue | BrightMagenta | BrightCyan | BrightWhite
  | DefaultFg | DefaultBg
  | Rgb u8 u8 u8
  | Indexed u8

text \<open>What the code uses of \<open>embedded_graphics::pixelcolor\<close>.\<close>

record 'c pixelcolor =
  px_black :: 'c
  px_red :: 'c
  px_green :: 'c
  px_yellow :: 'c
  px_blue :: 'c
  px_magenta :: 'c
  px_cyan :: 'c
  px_white :: 'c
  px_light_gray :: 'c
  px_new :: "u8 \<Rightarrow> u8 \<Rightarrow> u8 \<Rightarrow> 'c"
  px_of_rgb888 :: "u8 \<Rightarrow> u8 \<Rightarrow> u8 \<Rightarrow> 'c"

fun named_rgb565 :: "'c pixelcolor \<Rightarrow> color \<Rightarrow> 'c" where
  "named_rgb565 px Black = px_black px"
| "named_rgb565 px Red = px_red px"
| "named_rgb565 px Green = px_green px"
| "named_rgb565 px Yellow = px_yellow px"
| "named_rgb565 px Blue = px_blue px"
| "named_rgb565 px Magenta = px_magenta px"
| "named_rgb565 px Cyan = px_cyan px"
| "named_rgb565 px White = px_white px"
| "named_rgb565 px BrightBlack = px_new px 10 20 10"
| "named_rgb565 px BrightRed = px_new px 31 20 20"
| "named_rgb565 px BrightGreen = px_new px 20 63 20"
| "named_rgb565 px BrightYellow = px_new px 31 63 20"
| "named_rgb565 px BrightBlue = px_new px 20 20 31"
| "named_rgb565 px BrightMagenta = px_new px 31 20 31"
| "named_rgb565 px BrightCyan = px_new px 20 63 31"
| "named_rgb565 px BrightWhite = px_white px"
| "named_rgb565 px DefaultFg = px_light_gray px"
| "named_rgb565 px DefaultBg = px_black px"
| "named_rgb565 px (Rgb r g b) = px_of_rgb888 px r g b"
| "named_rgb565 px (Indexed n) = px_white px"

text \<open>
  \<open>Color::to_rgb565\<close>: the indexed colours delegate to the named ones, except 7 (the light
  grey of the default foreground) and the ones above 15.
\<close>

definition to_rgb565 :: "'c pixelcolor \<Rightarrow> color \<Rightarrow> bool \<Rightarrow> 'c" where
  "to_rgb565 px c is_bg =
     (case c of
        Indexed n \<Rightarrow>
          (if n = 7 then px_light_gray px
           else if n < 16 then
             named_rgb565 px
               ([Black, Red, Green, Yellow, Blue, Magenta, Cyan, White, BrightBlack, BrightRed,
                 BrightGreen, BrightYellow, BrightBlue, BrightMagenta, BrightCyan, BrightWhite]
                ! unat n)
           else if is_bg then px_black px else px_white px)
      | _ \<Rightarrow> named_rgb565 px c)"

record attrs =
  fg :: color
  bg :: color
  bold :: bool
  underline :: bool
  reverse :: bool

definition default_attrs :: attrs where
  "default_attrs = \<lparr>fg = DefaultFg, bg = DefaultBg, bold = False, underline = False, reverse = False\<rparr>"

section \<open>Lines\<close>

record screen_line =
  chars :: "rchar list"
  line_attrs :: "attrs list"
  dirty :: bool

definition sl_new :: "nat \<Rightarrow> screen_line" where
  "sl_new width = \<lparr>chars = replicate width 32, line_attrs = replicate width default_attrs, dirty = True\<rparr>"

definition sl_clear :: "screen_line \<Rightarrow> screen_line" where
  "sl_clear l = l\<lparr>chars := map (\<lambda>_. 32) (chars l), line_attrs := map (\<lambda>_. default_attrs) (line_attrs l),
     dirty := True\<rparr>"

text \<open>The loop of \<open>ScreenLine::erase\<close>; each of the two indexings may panic.\<close>

function erase_cells :: "nat \<Rightarrow> nat \<Rightarrow> attrs \<Rightarrow> screen_line \<Rightarrow> screen_line option" where
  "erase_cells i e a l =
     (if i < e then
        if i < length (chars l) \<and> i < length (line_attrs l)
        then erase_cells (i + 1) e a
               (l\<lparr>chars := (chars l)[i := 32], line_attrs := (line_attrs l)[i := a]\<rparr>)
        else None
      else Some l)"
  by pat_completeness auto
termination
  by (relation "measure (\<lambda>(i, e, _, _). e - i)") auto

declare erase_cells.simps [simp del]

definition sl_erase :: "nat \<Rightarrow> nat \<Rightarrow> attrs \<Rightarrow> screen_line \<Rightarrow> screen_line option" where
  "sl_erase start e a l = map_option (\<lambda>l'. l'\<lparr>dirty := True\<rparr>) (erase_cells start e a l)"

definition line_ok :: "nat \<Rightarrow> screen_line \<Rightarrow> bool" where
  "line_ok w l \<longleftrightarrow> length (chars l) = w \<and> length (line_attrs l) = w"

lemma line_ok_new [simp]: "line_ok w (sl_new w)"
  by (simp add: line_ok_def sl_new_def)

lemma line_ok_clear [simp]: "line_ok w (sl_clear l) = line_ok w l"
  by (simp add: line_ok_def sl_clear_def)

lemma line_ok_upd [simp]: "line_ok w (l\<lparr>dirty := d\<rparr>) = line_ok w l"
  "line_ok w (l\<lparr>chars := (chars l)[i := c], line_attrs := (line_attrs l)[j := a]\<rparr>) = line_ok w l"
  "line_ok w (l\<lparr>chars := (chars l)[i := c], line_attrs := (line_attrs l)[j := a], dirty := d\<rparr>) = line_ok w l"
  by (simp_all add: line_ok_def)

lemma sl_clear_ok: "line_ok w l \<Longrightarrow> sl_clear l = sl_new w"
  by (cases l) (simp add: line_ok_def sl_clear_def sl_new_def map_replicate_const)

text \<open>Erasing a range inside the line blanks exactly that range.\<close>

definition blank_range :: "'a \<Rightarrow> nat \<Rightarrow> nat \<Rightarrow> 'a list \<Rightarrow> 'a list" where
  "blank_range x s e xs = map (\<lambda>i. if s \<le> i \<and> i < e then x else xs ! i) [0..<length xs]"

lemma length_blank_range [simp]: "length (blank_range x s e xs) = length xs"
  by (simp add: blank_range_def)

lemma nth_blank_range [simp]:
  "i < length xs \<Longrightarrow> blank_range x s e xs ! i = (if s \<le> i \<and> i < e then x else xs ! i)"
  by (simp add: blank_range_def)

lemma blank_range_empty [simp]: "e \<le> s \<Longrightarrow> blank_range x s e xs = xs"
  by (rule nth_equalityI) auto

lemma blank_range_step:
  "s < e \<Longrightarrow> blank_range x (Suc s) e (xs[s := x]) = blank_range x s e xs"
  by (rule nth_equalityI) (auto simp: nth_list_update)

lemma erase_cells_ok:
  "line_ok w l \<Longrightarrow> e \<le> w \<Longrightarrow> erase_cells i e a l =
     Some (l\<lparr>chars := blank_range 32 i e (chars l), line_attrs := blank_range a i e (line_attrs l)\<rparr>)"
proof (induction i e a l rule: erase_cells.induct)
  case (1 i e a l)
  then show ?case
    by (subst erase_cells.simps) (auto simp: line_ok_def blank_range_step)
qed

lemma erase_cells_panic:
  "line_ok w l \<Longrightarrow> i < e \<Longrightarrow> w < e \<Longrightarrow> erase_cells i e a l = None"
proof (induction i e a l rule: erase_cells.induct)
  case (1 i e a l)
  show ?case
  proof (cases "i < w \<and> i + 1 < e")
    case True
    with 1 show ?thesis by (subst erase_cells.simps) (simp add: line_ok_def)
  next
    case False
    with "1.prems" show ?thesis by (subst erase_cells.simps) (auto simp: line_ok_def)
  qed
qed

lemma sl_erase_ok:
  "line_ok w l \<Longrightarrow> e \<le> w \<Longrightarrow> sl_erase s e a l =
     Some (l\<lparr>chars := blank_range 32 s e (chars l), line_attrs := blank_range a s e (line_attrs l),
             dirty := True\<rparr>)"
  by (simp add: sl_erase_def erase_cells_ok)

lemma sl_erase_panic: "line_ok w l \<Longrightarrow> s < e \<Longrightarrow> w < e \<Longrightarrow> sl_erase s e a l = None"
  by (simp add: sl_erase_def erase_cells_panic)

lemma line_ok_erase: "line_ok w l \<Longrightarrow> e \<le> w \<Longrightarrow> sl_erase s e a l = Some l' \<Longrightarrow> line_ok w l'"
  by (auto simp: sl_erase_ok) (simp add: line_ok_def)

section \<open>The screen\<close>

text \<open>The font metrics the code reads of a \<open>MonoFont\<close>.\<close>

record mono_font =
  character_width :: nat
  character_height :: nat
  character_spacing :: nat

text \<open>The two sizes \<open>core::mem::size_of\<close> gives that the language does not fix.\<close>

record layout =
  size_of_attrs :: nat
  size_of_screen_line :: nat

definition SCREEN_HEIGHT :: nat where "SCREEN_HEIGHT = 320"
definition SCREEN_WIDTH :: nat where "SCREEN_WIDTH = 320"
definition FIRMWARE_HEAP_SIZE_BYTES :: nat where "FIRMWARE_HEAP_SIZE_BYTES = 64 * 1024"
definition NON_SCREEN_HEAP_RESERVE_BYTES :: nat where "NON_SCREEN_HEAP_RESERVE_BYTES = 32 * 1024"
definition SCREEN_HEAP_BUDGET_BYTES :: nat where
  "SCREEN_HEAP_BUDGET_BYTES = FIRMWARE_HEAP_SIZE_BYTES - NON_SCREEN_HEAP_RESERVE_BYTES"
definition PER_LINE_ALLOC_OVERHEAD_BYTES :: nat where "PER_LINE_ALLOC_OVERHEAD_BYTES = 32"

record screen =
  lines :: "screen_line list"
  scrollback :: "screen_line list"
  viewport_offset :: nat
  max_scrollback :: nat
  cursor_x :: nat
  cursor_y :: nat
  current_attrs :: attrs
  font :: mono_font
  rows :: nat
  cols :: nat
  scroll_top :: nat
  scroll_bottom :: nat
  full_repaint :: bool
  overlay :: "rstr option"
  overlay_restore :: "rstr option"
  overlay_deadline_ms :: "u64 option"

text \<open>\<open>size_of::<char>()\<close> is 4.\<close>

definition bytes_per_line :: "layout \<Rightarrow> nat \<Rightarrow> nat" where
  "bytes_per_line ly w =
     (4 + size_of_attrs ly) * w + PER_LINE_ALLOC_OVERHEAD_BYTES + size_of_screen_line ly"

definition safe_max_scrollback_for :: "layout \<Rightarrow> nat \<Rightarrow> nat \<Rightarrow> nat" where
  "safe_max_scrollback_for ly w h =
     (let per_line = bytes_per_line ly w;
          visible_budget = per_line * h;
          scrollback_budget = sat_sub SCREEN_HEAP_BUDGET_BYTES visible_budget
      in max (scrollback_budget div per_line) 1)"

text \<open>\<open>Default::default\<close>, for the font \<open>FONTS[2]\<close>.\<close>

definition screen_default :: "layout \<Rightarrow> mono_font \<Rightarrow> screen" where
  "screen_default ly f =
     (let w = SCREEN_WIDTH div (character_width f + character_spacing f);
          h = SCREEN_HEIGHT div character_height f
      in \<lparr>lines = replicate h (sl_new w), scrollback = [], viewport_offset = 0,
          max_scrollback = safe_max_scrollback_for ly w h, cursor_x = 0, cursor_y = 0,
          current_attrs = default_attrs, font = f, rows = h, cols = w,
          scroll_top = 0, scroll_bottom = h - 1, full_repaint = True,
          overlay = None, overlay_restore = None, overlay_deadline_ms = None\<rparr>)"

definition screen_width :: "screen \<Rightarrow> u16" where "screen_width s = of_nat (cols s)"
definition screen_height :: "screen \<Rightarrow> u16" where "screen_height s = of_nat (rows s)"

definition screen_clear :: "screen \<Rightarrow> screen" where
  "screen_clear s = s\<lparr>lines := map sl_clear (lines s), cursor_x := 0, cursor_y := 0,
     viewport_offset := 0, full_repaint := True\<rparr>"

definition increase_font :: "screen \<Rightarrow> screen" where "increase_font s = s"
definition decrease_font :: "screen \<Rightarrow> screen" where "decrease_font s = s"

text \<open>A line leaves the screen into the scrollback, which drops its oldest line when full.\<close>

definition push_scrollback :: "screen_line \<Rightarrow> screen \<Rightarrow> screen" where
  "push_scrollback l s =
     (let sb = scrollback s @ [l]
      in s\<lparr>scrollback := (if length sb > max_scrollback s then tl sb else sb)\<rparr>)"

definition scroll_up :: "screen \<Rightarrow> screen" where
  "scroll_up s =
     (case lines s of
        [] \<Rightarrow> s
      | l # ls \<Rightarrow>
          (push_scrollback l s)\<lparr>lines := ls @ [sl_new (cols s)], full_repaint := True\<rparr>)"

fun scroll_region_loop :: "nat \<Rightarrow> nat \<Rightarrow> nat \<Rightarrow> screen \<Rightarrow> screen option" where
  "scroll_region_loop 0 upper lower s = Some s"
| "scroll_region_loop (Suc n) upper lower s = do {
     (l, ls) \<leftarrow> vec_remove (lines s) upper;
     let s1 = (if upper = 0 then push_scrollback l s else s);
     ls' \<leftarrow> vec_insert ls lower (sl_new (cols s));
     scroll_region_loop n upper lower (s1\<lparr>lines := ls'\<rparr>)
   }"

definition scroll_region_up :: "screen \<Rightarrow> nat \<Rightarrow> screen option" where
  "scroll_region_up s n =
     (let upper = min (scroll_top s) (sat_sub (rows s) 1);
          lower = min (scroll_bottom s) (sat_sub (rows s) 1)
      in if upper \<ge> lower then Some s
         else let region_height = lower - upper + 1
              in map_option (\<lambda>s'. s'\<lparr>full_repaint := True\<rparr>)
                   (scroll_region_loop (min n region_height) upper lower s))"

definition scroll_if_cursor_past_bottom :: "screen \<Rightarrow> screen" where
  "scroll_if_cursor_past_bottom s =
     (if cursor_y s \<ge> rows s then (scroll_up s)\<lparr>cursor_y := rows s - 1\<rparr> else s)"

definition scroll_view_up :: "screen \<Rightarrow> nat \<Rightarrow> screen" where
  "scroll_view_up s n = s\<lparr>viewport_offset := min (viewport_offset s + n) (length (scrollback s)),
     full_repaint := True\<rparr>"

definition scroll_view_down :: "screen \<Rightarrow> nat \<Rightarrow> screen" where
  "scroll_view_down s n = s\<lparr>viewport_offset := sat_sub (viewport_offset s) n, full_repaint := True\<rparr>"

definition reset_view :: "screen \<Rightarrow> screen" where
  "reset_view s =
     (if viewport_offset s \<noteq> 0 then s\<lparr>viewport_offset := 0, full_repaint := True\<rparr> else s)"

section \<open>The overlay\<close>

definition replace_overlay :: "screen \<Rightarrow> rstr \<Rightarrow> screen" where
  "replace_overlay s t =
     (let s1 = (if overlay s \<noteq> None \<and> overlay s \<noteq> Some t then s\<lparr>full_repaint := True\<rparr> else s)
      in s1\<lparr>overlay := Some t\<rparr>)"

definition show_overlay :: "screen \<Rightarrow> rstr \<Rightarrow> screen" where
  "show_overlay s t =
     (replace_overlay (s\<lparr>overlay_restore := Some t\<rparr>) t)\<lparr>overlay_deadline_ms := None\<rparr>"

definition show_timed_overlay :: "screen \<Rightarrow> rstr \<Rightarrow> u64 \<Rightarrow> u64 \<Rightarrow> screen" where
  "show_timed_overlay s t now duration =
     (replace_overlay s t)\<lparr>overlay_deadline_ms := Some (saturating_add now duration)\<rparr>"

definition clear_overlay :: "screen \<Rightarrow> screen" where
  "clear_overlay s =
     (let s1 = s\<lparr>overlay_restore := None, overlay_deadline_ms := None, overlay := None\<rparr>
      in if overlay s \<noteq> None then s1\<lparr>full_repaint := True\<rparr> else s1)"

definition tick_overlay :: "screen \<Rightarrow> u64 \<Rightarrow> screen" where
  "tick_overlay s now =
     (case overlay_deadline_ms s of
        None \<Rightarrow> s
      | Some deadline \<Rightarrow>
          if now < deadline then s
          else let s1 = s\<lparr>overlay_deadline_ms := None\<rparr>
               in case overlay_restore s1 of
                    Some t \<Rightarrow> s1\<lparr>overlay := Some t, full_repaint := True\<rparr>
                  | None \<Rightarrow> clear_overlay s1)"

section \<open>The scrollback cap\<close>

definition max_safe_scrollback :: "layout \<Rightarrow> screen \<Rightarrow> nat" where
  "max_safe_scrollback ly s = safe_max_scrollback_for ly (cols s) (rows s)"

definition set_max_scrollback :: "layout \<Rightarrow> screen \<Rightarrow> nat \<Rightarrow> screen" where
  "set_max_scrollback ly s m0 =
     (let m = min m0 (max_safe_scrollback ly s);
          s1 = s\<lparr>max_scrollback := m\<rparr>
      in if length (scrollback s1) > m then
           let remove_count = length (scrollback s1) - m;
               s2 = s1\<lparr>scrollback := drop remove_count (scrollback s1)\<rparr>
           in if viewport_offset s2 > length (scrollback s2)
              then s2\<lparr>viewport_offset := length (scrollback s2)\<rparr> else s2
         else s1)"

section \<open>The terminal callbacks\<close>

text \<open>
  One parameter of a control sequence as the parser delivers it: its value and its
  colon-separated subparameters, which the code never reads.
\<close>

type_synonym csi_param = "u16 \<times> u16 list"

definition first_param :: "csi_param list \<Rightarrow> u16 \<Rightarrow> u16" where
  "first_param ps d = (case ps of [] \<Rightarrow> d | p # _ \<Rightarrow> fst p)"

definition cursor_move_count :: "csi_param list \<Rightarrow> nat" where
  "cursor_move_count ps = unat (max (first_param ps 0) 1)"

definition cursor_pos_index :: "csi_param list \<Rightarrow> nat" where
  "cursor_pos_index ps = unat (max (first_param ps 1) 1) - 1"

definition erase_mode :: "csi_param list \<Rightarrow> u16" where
  "erase_mode ps = first_param ps 0"

text \<open>\<open>Perform::print\<close>.\<close>

definition print_char :: "screen \<Rightarrow> rchar \<Rightarrow> screen option" where
  "print_char s0 c =
     (let s1 = scroll_if_cursor_past_bottom (reset_view s0);
          s = (if cursor_x s1 \<ge> cols s1
               then scroll_if_cursor_past_bottom (s1\<lparr>cursor_x := 0, cursor_y := cursor_y s1 + 1\<rparr>)
               else s1)
      in do {
        l \<leftarrow> vec_get (lines s) (cursor_y s);
        if cursor_x s < length (chars l) then
          if cursor_x s < length (line_attrs l) then
            Some (s\<lparr>lines := (lines s)[cursor_y s :=
                      l\<lparr>chars := (chars l)[cursor_x s := c],
                        line_attrs := (line_attrs l)[cursor_x s := current_attrs s],
                        dirty := True\<rparr>],
                    cursor_x := cursor_x s + 1\<rparr>)
          else None
        else Some s
      })"

text \<open>\<open>Perform::execute\<close>: line feed, carriage return and backspace.\<close>

definition execute :: "screen \<Rightarrow> u8 \<Rightarrow> screen" where
  "execute s0 b =
     (let s = reset_view s0
      in if b = 10 then scroll_if_cursor_past_bottom (s\<lparr>cursor_y := cursor_y s + 1\<rparr>)
         else if b = 13 then s\<lparr>cursor_x := 0\<rparr>
         else if b = 8 \<and> cursor_x s > 0 then s\<lparr>cursor_x := cursor_x s - 1\<rparr>
         else s)"

text \<open>Erasing part of the cursor's line.\<close>

definition erase_current :: "screen \<Rightarrow> nat \<Rightarrow> nat \<Rightarrow> screen option" where
  "erase_current s start e = do {
     l \<leftarrow> vec_get (lines s) (cursor_y s);
     l' \<leftarrow> sl_erase start e (current_attrs s) l;
     Some (s\<lparr>lines := (lines s)[cursor_y s := l']\<rparr>)
   }"

text \<open>The loops over whole lines of \<open>J\<close>.\<close>

fun clear_lines :: "nat list \<Rightarrow> screen \<Rightarrow> screen option" where
  "clear_lines [] s = Some s"
| "clear_lines (i # is) s = do {
     l \<leftarrow> vec_get (lines s) i;
     clear_lines is (s\<lparr>lines := (lines s)[i := sl_clear l]\<rparr>)
   }"

definition erase_in_display :: "screen \<Rightarrow> csi_param list \<Rightarrow> screen option" where
  "erase_in_display s ps =
     (let n = erase_mode ps
      in if n = 0 then do {
           s1 \<leftarrow> erase_current s (cursor_x s) (cols s);
           clear_lines [cursor_y s + 1..<rows s] s1
         }
         else if n = 1 then do {
           s1 \<leftarrow> clear_lines [0..<cursor_y s] s;
           erase_current s1 0 (cursor_x s + 1)
         }
         else if n = 2 then Some (screen_clear s)
         else Some s)"

definition mark_current_dirty :: "screen \<Rightarrow> screen" where
  "mark_current_dirty s =
     s\<lparr>lines := (lines s)[cursor_y s := (lines s ! cursor_y s)\<lparr>dirty := True\<rparr>]\<rparr>"

definition erase_in_line :: "screen \<Rightarrow> csi_param list \<Rightarrow> screen option" where
  "erase_in_line s ps =
     (let n = erase_mode ps
      in if cursor_y s < length (lines s) then
           map_option mark_current_dirty
             (if n = 0 then erase_current s (cursor_x s) (cols s)
              else if n = 1 then erase_current s 0 (cursor_x s + 1)
              else if n = 2 then erase_current s 0 (cols s)
              else Some s)
         else None)"

definition erase_characters :: "screen \<Rightarrow> csi_param list \<Rightarrow> screen option" where
  "erase_characters s ps = do {
     l \<leftarrow> vec_get (lines s) (cursor_y s);
     erase_current s (cursor_x s) (min (cursor_x s + cursor_move_count ps) (length (chars l)))
   }"

definition set_margins :: "screen \<Rightarrow> csi_param list \<Rightarrow> screen" where
  "set_margins s ps =
     (let top0 = unat (max (first_param ps 0) 1) - 1;
          bottom_raw = first_param (drop 1 ps) 0;
          lower = (if bottom_raw = 0 then rows s - 1 else min (unat bottom_raw - 1) (rows s - 1));
          upper = min top0 (rows s - 1)
      in if upper < lower then s\<lparr>scroll_top := upper, scroll_bottom := lower\<rparr> else s)"

definition sgr_param :: "attrs \<Rightarrow> u16 \<Rightarrow> attrs" where
  "sgr_param a p =
     (if p = 0 then default_attrs
      else if p = 1 then a\<lparr>bold := True\<rparr>
      else if p = 4 then a\<lparr>underline := True\<rparr>
      else if p = 7 then a\<lparr>reverse := True\<rparr>
      else if p = 22 then a\<lparr>bold := False\<rparr>
      else if p = 24 then a\<lparr>underline := False\<rparr>
      else if p = 27 then a\<lparr>reverse := False\<rparr>
      else if 30 \<le> p \<and> p \<le> 37 then a\<lparr>fg := Indexed (ucast (p - 30))\<rparr>
      else if p = 39 then a\<lparr>fg := DefaultFg\<rparr>
      else if 40 \<le> p \<and> p \<le> 47 then a\<lparr>bg := Indexed (ucast (p - 40))\<rparr>
      else if p = 49 then a\<lparr>bg := DefaultBg\<rparr>
      else if 90 \<le> p \<and> p \<le> 97 then a\<lparr>fg := Indexed (ucast (p - 90 + 8))\<rparr>
      else if 100 \<le> p \<and> p \<le> 107 then a\<lparr>bg := Indexed (ucast (p - 100 + 8))\<rparr>
      else a)"

definition set_graphics :: "screen \<Rightarrow> csi_param list \<Rightarrow> screen" where
  "set_graphics s ps = s\<lparr>current_attrs := foldl (\<lambda>a p. sgr_param a (fst p)) (current_attrs s) ps\<rparr>"

text \<open>\<open>Perform::csi_dispatch\<close>; the final character of a sequence is an ASCII character.\<close>

definition csi_dispatch ::
    "screen \<Rightarrow> csi_param list \<Rightarrow> u8 list \<Rightarrow> bool \<Rightarrow> char \<Rightarrow> screen option" where
  "csi_dispatch s ps intermediates ignore action =
     (if ignore \<or> intermediates \<noteq> [] then Some s
      else if action = CHR ''A'' then
        Some (s\<lparr>cursor_y := sat_sub (cursor_y s) (cursor_move_count ps)\<rparr>)
      else if action = CHR ''B'' then
        Some (s\<lparr>cursor_y := min (cursor_y s + cursor_move_count ps) (rows s - 1)\<rparr>)
      else if action = CHR ''C'' then
        Some (s\<lparr>cursor_x := min (cursor_x s + cursor_move_count ps) (cols s - 1)\<rparr>)
      else if action = CHR ''D'' then
        Some (s\<lparr>cursor_x := sat_sub (cursor_x s) (cursor_move_count ps)\<rparr>)
      else if action = CHR ''H'' \<or> action = CHR ''f'' then
        Some (s\<lparr>cursor_y := min (cursor_pos_index ps) (rows s - 1),
                cursor_x := min (cursor_pos_index (drop 1 ps)) (cols s - 1)\<rparr>)
      else if action = CHR ''d'' then
        Some (s\<lparr>cursor_y := min (cursor_pos_index ps) (rows s - 1)\<rparr>)
      else if action = CHR ''J'' then erase_in_display s ps
      else if action = CHR ''K'' then erase_in_line s ps
      else if action = CHR ''X'' then erase_characters s ps
      else if action = CHR ''r'' then Some (set_margins s ps)
      else if action = CHR ''S'' then scroll_region_up s (cursor_move_count ps)
      else if action = CHR ''m'' then Some (set_graphics s ps)
      else Some s)"

text \<open>
  What the parser calls, one callback at a time; \<open>hook\<close>, \<open>put\<close>, \<open>unhook\<close>, \<open>osc_dispatch\<close>
  and \<open>esc_dispatch\<close> have empty bodies.
\<close>

datatype vt_event =
    Print rchar
  | Execute u8
  | CsiDispatch "csi_param list" "u8 list" bool char
  | Hook | Put u8 | Unhook | OscDispatch | EscDispatch "u8 list" bool u8

fun perform :: "screen \<Rightarrow> vt_event \<Rightarrow> screen option" where
  "perform s (Print c) = print_char s c"
| "perform s (Execute b) = Some (execute s b)"
| "perform s (CsiDispatch ps is ig a) = csi_dispatch s ps is ig a"
| "perform s Hook = Some s"
| "perform s (Put _) = Some s"
| "perform s Unhook = Some s"
| "perform s OscDispatch = Some s"
| "perform s (EscDispatch _ _ _) = Some s"

fun feed :: "screen \<Rightarrow> vt_event list \<Rightarrow> screen option" where
  "feed s [] = Some s"
| "feed s (e # es) = do { s' \<leftarrow> perform s e; feed s' es }"

section \<open>The invariant of the screen\<close>

text \<open>
  Every line of the screen and of the scrollback is as wide as the screen, the cursor is on
  a row and at most one past the last column (the pending wrap), the scrollback respects its
  cap and the cap the heap budget, and the viewport and the margins are in range.
\<close>

definition screen_inv :: "layout \<Rightarrow> screen \<Rightarrow> bool" where
  "screen_inv ly s \<longleftrightarrow> 0 < rows s \<and> 0 < cols s \<and> length (lines s) = rows s
     \<and> list_all (line_ok (cols s)) (lines s) \<and> list_all (line_ok (cols s)) (scrollback s)
     \<and> cursor_y s < rows s \<and> cursor_x s \<le> cols s
     \<and> length (scrollback s) \<le> max_scrollback s
     \<and> max_scrollback s \<le> safe_max_scrollback_for ly (cols s) (rows s)
     \<and> viewport_offset s \<le> length (scrollback s)
     \<and> scroll_top s \<le> scroll_bottom s \<and> scroll_bottom s < rows s"

lemma screen_inv_lines:
  "screen_inv ly s \<Longrightarrow> length (lines s) = rows s"
  "screen_inv ly s \<Longrightarrow> i < rows s \<Longrightarrow> line_ok (cols s) (lines s ! i)"
  "screen_inv ly s \<Longrightarrow> cursor_y s < rows s"
  "screen_inv ly s \<Longrightarrow> cursor_x s \<le> cols s"
  by (auto simp: screen_inv_def list_all_length)

text \<open>The font the repository ships is narrower and lower than the screen.\<close>

definition font_fits :: "mono_font \<Rightarrow> bool" where
  "font_fits f \<longleftrightarrow> 0 < character_width f + character_spacing f
     \<and> character_width f + character_spacing f \<le> SCREEN_WIDTH
     \<and> 0 < character_height f \<and> character_height f \<le> SCREEN_HEIGHT"

lemma screen_inv_default: "font_fits f \<Longrightarrow> screen_inv ly (screen_default ly f)"
  by (auto simp: screen_inv_def screen_default_def Let_def font_fits_def div_greater_zero_iff
      list_all_length)

lemma push_scrollback_eq:
  "length (scrollback s) \<le> max_scrollback s \<Longrightarrow>
     push_scrollback l s = s\<lparr>scrollback := last_n (max_scrollback s) (scrollback s @ [l])\<rparr>"
  by (cases "length (scrollback s) = max_scrollback s"; cases "scrollback s")
     (auto simp: push_scrollback_def last_n_def Let_def)

lemma scroll_up_eq:
  "screen_inv ly s \<Longrightarrow>
     scroll_up s = s\<lparr>scrollback := last_n (max_scrollback s) (scrollback s @ [hd (lines s)]),
       lines := tl (lines s) @ [sl_new (cols s)], full_repaint := True\<rparr>"
proof -
  assume "screen_inv ly s"
  then have "length (scrollback s) \<le> max_scrollback s" and "lines s \<noteq> []"
    by (auto simp: screen_inv_def)
  then show ?thesis
    by (cases "lines s") (simp_all add: scroll_up_def push_scrollback_eq)
qed

text \<open>Scrolling keeps the invariant whatever the cursor's row was, once it is put back.\<close>

lemma screen_inv_scroll [inv_intros]:
  assumes "screen_inv ly s" and "cy < rows s" and "cx \<le> cols s"
  shows "screen_inv ly (s\<lparr>scrollback := last_n (max_scrollback s) (scrollback s @ [hd (lines s)]),
     lines := tl (lines s) @ [sl_new (cols s)], full_repaint := fr, cursor_x := cx, cursor_y := cy\<rparr>)"
proof -
  have "list_all (line_ok (cols s)) (last_n (max_scrollback s) (scrollback s @ [hd (lines s)]))"
    using assms by (intro list_all_last_n) (cases "lines s", auto simp: screen_inv_def)
  with assms show ?thesis
    by (cases "lines s") (auto simp: screen_inv_def)
qed

lemma screen_inv_reset_view [inv_intros]: "screen_inv ly s \<Longrightarrow> screen_inv ly (reset_view s)"
  by (simp add: screen_inv_def reset_view_def)

lemma reset_view_frame [frame_simps]:
  "lines (reset_view s) = lines s" "scrollback (reset_view s) = scrollback s"
  "cursor_x (reset_view s) = cursor_x s" "cursor_y (reset_view s) = cursor_y s"
  "rows (reset_view s) = rows s" "cols (reset_view s) = cols s"
  "current_attrs (reset_view s) = current_attrs s" "max_scrollback (reset_view s) = max_scrollback s"
  "overlay (reset_view s) = overlay s" "viewport_offset (reset_view s) = 0"
  by (simp_all add: reset_view_def)

lemma screen_inv_views [inv_intros]:
  "screen_inv ly s \<Longrightarrow> screen_inv ly (scroll_view_up s n)"
  "screen_inv ly s \<Longrightarrow> screen_inv ly (scroll_view_down s n)"
  by (auto simp: screen_inv_def scroll_view_up_def scroll_view_down_def)

lemma screen_inv_overlays [inv_intros]:
  "screen_inv ly s \<Longrightarrow> screen_inv ly (show_overlay s t)"
  "screen_inv ly s \<Longrightarrow> screen_inv ly (show_timed_overlay s t now d)"
  "screen_inv ly s \<Longrightarrow> screen_inv ly (tick_overlay s now)"
  "screen_inv ly s \<Longrightarrow> screen_inv ly (clear_overlay s)"
  by (simp_all add: screen_inv_def show_overlay_def show_timed_overlay_def replace_overlay_def
      tick_overlay_def clear_overlay_def Let_def split: option.splits)

lemma screen_inv_set_max [inv_intros]:
  "screen_inv ly s \<Longrightarrow> screen_inv ly (set_max_scrollback ly s m)"
  by (auto simp: screen_inv_def set_max_scrollback_def max_safe_scrollback_def Let_def
      list_all_iff dest: in_set_dropD)

lemma screen_inv_clear [inv_intros]: "screen_inv ly s \<Longrightarrow> screen_inv ly (screen_clear s)"
  by (simp add: screen_inv_def screen_clear_def list_all_length)

lemma screen_inv_set_line:
  "screen_inv ly s \<Longrightarrow> line_ok (cols s) l \<Longrightarrow> screen_inv ly (s\<lparr>lines := (lines s)[i := l]\<rparr>)"
  by (auto simp: screen_inv_def list_all_iff dest!: subsetD [OF set_update_subset_insert])

text \<open>Printing never panics: it writes the cell under the cursor and advances, after the
  wrap (and the scroll) that is pending.\<close>

definition print_cell :: "screen \<Rightarrow> rchar \<Rightarrow> screen" where
  "print_cell s c = s\<lparr>lines := (lines s)[cursor_y s :=
      (lines s ! cursor_y s)\<lparr>chars := (chars (lines s ! cursor_y s))[cursor_x s := c],
        line_attrs := (line_attrs (lines s ! cursor_y s))[cursor_x s := current_attrs s],
        dirty := True\<rparr>],
     cursor_x := cursor_x s + 1\<rparr>"

definition wrapped :: "screen \<Rightarrow> screen" where
  "wrapped s =
     (if cursor_x s < cols s then s
      else if cursor_y s + 1 < rows s then s\<lparr>cursor_x := 0, cursor_y := cursor_y s + 1\<rparr>
      else s\<lparr>scrollback := last_n (max_scrollback s) (scrollback s @ [hd (lines s)]),
             lines := tl (lines s) @ [sl_new (cols s)], full_repaint := True,
             cursor_x := 0, cursor_y := rows s - 1\<rparr>)"

lemma scroll_up_cursor [simp]:
  "scroll_up (s\<lparr>cursor_x := x, cursor_y := y\<rparr>) = (scroll_up s)\<lparr>cursor_x := x, cursor_y := y\<rparr>"
  "scroll_up (s\<lparr>cursor_y := y\<rparr>) = (scroll_up s)\<lparr>cursor_y := y\<rparr>"
  "scroll_up (s\<lparr>cursor_x := x\<rparr>) = (scroll_up s)\<lparr>cursor_x := x\<rparr>"
  by (simp_all add: scroll_up_def push_scrollback_def Let_def split: list.splits)

lemma screen_inv_wrapped:
  assumes "screen_inv ly s"
  shows "screen_inv ly (wrapped s) \<and> cursor_x (wrapped s) < cols (wrapped s)"
  using assms screen_inv_scroll [OF assms, of "rows s - 1" 0 True]
  by (auto simp: wrapped_def screen_inv_def [of ly s]) (simp_all add: screen_inv_def)

lemma print_char_eq:
  assumes "screen_inv ly s"
  shows "print_char s c = Some (print_cell (wrapped (reset_view s)) c)"
proof -
  let ?s = "reset_view s"
  have inv: "screen_inv ly ?s" using assms by (rule inv_intros)
  then have cy: "cursor_y ?s < rows ?s" and w: "screen_inv ly (wrapped ?s)"
    "cursor_x (wrapped ?s) < cols (wrapped ?s)"
    using screen_inv_wrapped by (auto simp: screen_inv_lines)
  have here: "scroll_if_cursor_past_bottom ?s = ?s"
    using cy by (simp add: scroll_if_cursor_past_bottom_def)
  have wrap: "(if cursor_x ?s \<ge> cols ?s
      then scroll_if_cursor_past_bottom (?s\<lparr>cursor_x := 0, cursor_y := cursor_y ?s + 1\<rparr>)
      else ?s) = wrapped ?s"
    using cy scroll_up_eq [OF inv] by (auto simp: wrapped_def scroll_if_cursor_past_bottom_def)
  have "line_ok (cols (wrapped ?s)) (lines (wrapped ?s) ! cursor_y (wrapped ?s))"
    and "cursor_y (wrapped ?s) < length (lines (wrapped ?s))"
    using w(1) by (simp_all add: screen_inv_lines)
  with w(2) show ?thesis
    unfolding print_char_def here Let_def wrap
    by (simp add: line_ok_def print_cell_def)
qed

lemma screen_inv_print_cell:
  assumes "screen_inv ly s" and "cursor_x s < cols s"
  shows "screen_inv ly (print_cell s c)"
  using assms
  by (auto simp: print_cell_def screen_inv_def list_all_length nth_list_update)

lemma screen_inv_print:
  "screen_inv ly s \<Longrightarrow> print_char s c = Some s' \<Longrightarrow> screen_inv ly s'"
  using screen_inv_wrapped [OF screen_inv_reset_view] by (auto simp: print_char_eq screen_inv_print_cell)

lemma screen_inv_execute [inv_intros]:
  assumes "screen_inv ly s"
  shows "screen_inv ly (execute s b)"
proof -
  have inv: "screen_inv ly (reset_view s)" using assms by (rule inv_intros)
  then have "rows (reset_view s) - 1 < rows (reset_view s)" "cursor_x (reset_view s) \<le> cols (reset_view s)"
    by (auto simp: screen_inv_def)
  from screen_inv_scroll [OF inv this, of True] inv show ?thesis
    by (auto simp: execute_def scroll_if_cursor_past_bottom_def scroll_up_eq Let_def screen_inv_def
        simp del: One_nat_def)
qed

section \<open>Erasing\<close>

lemma erase_current_ok:
  assumes "screen_inv ly s" and "e \<le> cols s"
  defines "l \<equiv> lines s ! cursor_y s"
  shows "erase_current s st e = Some (s\<lparr>lines := (lines s)[cursor_y s :=
     l\<lparr>chars := blank_range 32 st e (chars l),
       line_attrs := blank_range (current_attrs s) st e (line_attrs l), dirty := True\<rparr>]\<rparr>)"
  using assms sl_erase_ok [OF screen_inv_lines(2) [OF assms(1)] assms(2)]
  by (simp add: erase_current_def screen_inv_lines)

lemma erase_current_panic:
  "screen_inv ly s \<Longrightarrow> st < e \<Longrightarrow> cols s < e \<Longrightarrow> erase_current s st e = None"
  using sl_erase_panic [OF screen_inv_lines(2)] by (simp add: erase_current_def screen_inv_lines)

lemma line_ok_blank:
  "line_ok w l \<Longrightarrow> line_ok w (l\<lparr>chars := blank_range c s e (chars l),
     line_attrs := blank_range a s e (line_attrs l), dirty := d\<rparr>)"
  by (simp add: line_ok_def)

lemma screen_inv_erase_current:
  "screen_inv ly s \<Longrightarrow> e \<le> cols s \<Longrightarrow> erase_current s st e = Some s' \<Longrightarrow> screen_inv ly s'"
  by (auto simp: erase_current_ok screen_inv_lines intro!: screen_inv_set_line line_ok_blank)

text \<open>The whole-line loops clear exactly the lines they range over.\<close>

definition clear_at :: "nat set \<Rightarrow> screen_line list \<Rightarrow> screen_line list" where
  "clear_at I ls = map (\<lambda>i. if i \<in> I then sl_clear (ls ! i) else ls ! i) [0..<length ls]"

lemma length_clear_at [simp]: "length (clear_at I ls) = length ls"
  by (simp add: clear_at_def)

lemma nth_clear_at [simp]:
  "i < length ls \<Longrightarrow> clear_at I ls ! i = (if i \<in> I then sl_clear (ls ! i) else ls ! i)"
  by (simp add: clear_at_def)

lemma sl_clear_idem [simp]: "sl_clear (sl_clear l) = sl_clear l"
  by (simp add: sl_clear_def)

lemma clear_at_empty [simp]: "clear_at {} ls = ls"
  by (rule nth_equalityI) auto

lemma clear_at_update: "clear_at I (ls[i := sl_clear (ls ! i)]) = clear_at (insert i I) ls"
proof (rule nth_equalityI)
  fix j assume "j < length (clear_at I (ls[i := sl_clear (ls ! i)]))"
  then show "clear_at I (ls[i := sl_clear (ls ! i)]) ! j = clear_at (insert i I) ls ! j"
    by (cases "j = i") auto
qed simp

lemma clear_lines_ok:
  "\<forall>i \<in> set is. i < length (lines s) \<Longrightarrow>
     clear_lines is s = Some (s\<lparr>lines := clear_at (set is) (lines s)\<rparr>)"
  by (induction "is" arbitrary: s) (auto simp: clear_at_update)

lemma screen_inv_clear_at:
  "screen_inv ly s \<Longrightarrow> screen_inv ly (s\<lparr>lines := clear_at I (lines s)\<rparr>)"
  by (auto simp: screen_inv_def list_all_length)

section \<open>The scrolling region\<close>

text \<open>
  Scrolling the region up by \<open>n\<close>: its first \<open>n\<close> lines go (into the scrollback when the region
  starts at the top of the screen), \<open>n\<close> blank ones come in below, the rest is untouched.
\<close>

lemma scroll_region_loop_eq:
  assumes "lines s = A @ R @ B" and "n \<le> length R" and "length A = upper"
    and "lower = upper + length R - 1" and "R \<noteq> []"
    and "length (scrollback s) \<le> max_scrollback s"
  shows "scroll_region_loop n upper lower s = Some (s\<lparr>
     lines := A @ drop n R @ replicate n (sl_new (cols s)) @ B,
     scrollback := (if upper = 0 then last_n (max_scrollback s) (scrollback s @ take n R)
                    else scrollback s)\<rparr>)"
  using assms
proof (induction n arbitrary: s R)
  case 0
  then show ?case by simp
next
  case (Suc n)
  then obtain r R' where R: "R = r # R'" by (cases R) auto
  let ?blank = "sl_new (cols s)"
  let ?s1 = "if upper = 0 then push_scrollback r s else s"
  let ?s2 = "?s1\<lparr>lines := A @ (R' @ [?blank]) @ B\<rparr>"
  have rem: "vec_remove (lines s) upper = Some (r, A @ R' @ B)"
    using Suc.prems by (simp add: vec_remove_def R nth_append)
  have ins: "vec_insert (A @ R' @ B) lower ?blank = Some (A @ (R' @ [?blank]) @ B)"
    using Suc.prems by (simp add: vec_insert_def R)
  have step: "scroll_region_loop (Suc n) upper lower s = scroll_region_loop n upper lower ?s2"
    using rem ins by simp
  have s2: "scrollback ?s2 = (if upper = 0 then last_n (max_scrollback s) (scrollback s @ [r]) else scrollback s)"
    "max_scrollback ?s2 = max_scrollback s" "cols ?s2 = cols s" "length (scrollback ?s2) \<le> max_scrollback s"
    using Suc.prems(6) by (auto simp: push_scrollback_eq)
  have "scroll_region_loop n upper lower ?s2 = Some (?s2\<lparr>
     lines := A @ drop n (R' @ [?blank]) @ replicate n ?blank @ B,
     scrollback := (if upper = 0
       then last_n (max_scrollback s) (scrollback ?s2 @ take n (R' @ [?blank])) else scrollback ?s2)\<rparr>)"
    using Suc.prems s2
    by (subst Suc.IH [of ?s2 "R' @ [?blank]"]) (auto simp: R)
  moreover have "drop n (R' @ [?blank]) @ replicate n ?blank = drop (Suc n) R @ replicate (Suc n) ?blank"
    using Suc.prems(2) by (simp add: R replicate_append_same)
  moreover have "take n (R' @ [?blank]) = take n R'"
    using Suc.prems(2) by (simp add: R)
  ultimately show ?case
    using Suc.prems(6) last_n_append_last_n [of "max_scrollback s" "scrollback s @ [r]" "take n R'"]
    unfolding step by (auto simp: push_scrollback_eq R)
qed

text \<open>The scrolled region, in terms of the screen's lines.\<close>

definition region_scrolled :: "screen \<Rightarrow> nat \<Rightarrow> screen" where
  "region_scrolled s n =
     (let u = scroll_top s; b = scroll_bottom s; k = min n (b - u + 1)
      in s\<lparr>lines := take u (lines s) @ drop (u + k) (take (b + 1) (lines s))
              @ replicate k (sl_new (cols s)) @ drop (b + 1) (lines s),
           scrollback := (if u = 0
             then last_n (max_scrollback s) (scrollback s @ take k (lines s)) else scrollback s),
           full_repaint := True\<rparr>)"

lemma scroll_region_up_eq:
  assumes "screen_inv ly s"
  shows "scroll_region_up s n =
    Some (if scroll_top s < scroll_bottom s then region_scrolled s n else s)"
proof (cases "scroll_top s < scroll_bottom s")
  case False
  with assms show ?thesis by (auto simp: scroll_region_up_def screen_inv_def Let_def)
next
  case True
  let ?u = "scroll_top s" and ?b = "scroll_bottom s"
  define A where "A = take ?u (lines s)"
  define R where "R = drop ?u (take (?b + 1) (lines s))"
  define B where "B = drop (?b + 1) (lines s)"
  have b: "?b < length (lines s)" "length (lines s) = rows s"
    "length (scrollback s) \<le> max_scrollback s"
    using assms by (auto simp: screen_inv_def)
  have "take ?u (take (?b + 1) (lines s)) = A"
    using True by (simp add: A_def)
  then have lines: "lines s = A @ R @ B"
    unfolding R_def B_def by (metis append_assoc append_take_drop_id)
  have len: "length A = ?u" "length R = ?b - ?u + 1" "R \<noteq> []"
    using True b by (auto simp: A_def R_def simp flip: length_greater_0_conv)
  have "scroll_region_loop (min n (?b - ?u + 1)) ?u ?b s = Some (s\<lparr>
     lines := A @ drop (min n (?b - ?u + 1)) R @ replicate (min n (?b - ?u + 1)) (sl_new (cols s)) @ B,
     scrollback := (if ?u = 0
       then last_n (max_scrollback s) (scrollback s @ take (min n (?b - ?u + 1)) R) else scrollback s)\<rparr>)"
    by (rule scroll_region_loop_eq [OF lines _ len(1)]) (use len True b in auto)
  moreover have "take (min n (?b - ?u + 1)) R = take (min n (?b - ?u + 1)) (lines s)" if "?u = 0"
    using that by (simp add: R_def min_def)
  moreover have "min ?u (rows s - 1) = ?u" "min ?b (rows s - 1) = ?b" "\<not> ?b \<le> ?u"
    using b True by auto
  ultimately show ?thesis
    using True
    by (auto simp: scroll_region_up_def region_scrolled_def Let_def A_def R_def B_def add.commute)
qed

lemma screen_inv_region_scrolled:
  assumes "screen_inv ly s" and "scroll_top s < scroll_bottom s"
  shows "screen_inv ly (region_scrolled s n)"
proof -
  have "list_all (line_ok (cols s)) (lines s)" "list_all (line_ok (cols s)) (scrollback s)"
    using assms(1) by (simp_all add: screen_inv_def)
  then show ?thesis
    using assms by (auto simp: region_scrolled_def screen_inv_def Let_def intro!: list_all_take
        list_all_drop list_all_last_n) (simp_all add: list_all_length)
qed

section \<open>Control sequences\<close>

text \<open>The one way the callbacks can panic: erasing up to and including a cursor that waits
  past the last column.\<close>

definition erases_past_end :: "screen \<Rightarrow> vt_event \<Rightarrow> bool" where
  "erases_past_end s e =
     (case e of
        CsiDispatch ps is ig a \<Rightarrow> \<not> ig \<and> is = [] \<and> (a = CHR ''J'' \<or> a = CHR ''K'')
          \<and> erase_mode ps = 1 \<and> cursor_x s = cols s
      | _ \<Rightarrow> False)"

lemma erase_in_display_total:
  assumes "screen_inv ly s"
  shows "if erase_mode ps = 1 \<and> cursor_x s = cols s then erase_in_display s ps = None
    else \<exists>s'. erase_in_display s ps = Some s' \<and> screen_inv ly s'"
proof -
  have above: "clear_lines [0..<cursor_y s] s
      = Some (s\<lparr>lines := clear_at (set [0..<cursor_y s]) (lines s)\<rparr>)" (is "_ = Some ?a")
    using assms by (intro clear_lines_ok) (auto simp: screen_inv_def)
  have inv: "screen_inv ly ?a" using assms by (rule screen_inv_clear_at)
  obtain s1 where s1: "erase_current s (cursor_x s) (cols s) = Some s1" "screen_inv ly s1"
    "rows s1 = rows s" "length (lines s1) = rows s"
    using erase_current_ok [OF assms order_refl] screen_inv_erase_current [OF assms order_refl] assms
    by (auto simp: screen_inv_lines)
  have "clear_lines [cursor_y s + 1..<rows s] s1
      = Some (s1\<lparr>lines := clear_at (set [cursor_y s + 1..<rows s]) (lines s1)\<rparr>)"
    using s1(4) by (intro clear_lines_ok) auto
  with s1 have mode0: "\<exists>s'. erase_in_display s ps = Some s' \<and> screen_inv ly s'" if "erase_mode ps = 0"
    using that by (auto simp: erase_in_display_def Let_def intro: screen_inv_clear_at)
  have mode1: "erase_in_display s ps = erase_current ?a 0 (cursor_x s + 1)" if "erase_mode ps = 1"
    using that above by (simp add: erase_in_display_def Let_def)
  consider "erase_mode ps = 0" | "erase_mode ps = 1" "cursor_x s = cols s"
    | "erase_mode ps = 1" "cursor_x s < cols s" | "erase_mode ps \<noteq> 0" "erase_mode ps \<noteq> 1"
    using assms by (force simp: screen_inv_def)
  then show ?thesis
  proof cases
    case 2
    with mode1 inv show ?thesis by (simp add: erase_current_panic)
  next
    case 3
    then have "cursor_x s + 1 \<le> cols ?a" by simp
    then show ?thesis
      using 3 mode1 erase_current_ok [OF inv, of "cursor_x s + 1"] screen_inv_erase_current [OF inv, of "cursor_x s + 1"]
      by (metis less_numeral_extra(4) nat_neq_iff)
  next
    case 4
    with assms show ?thesis
      by (auto simp: erase_in_display_def Let_def intro: screen_inv_clear)
  qed (use mode0 in auto)
qed

lemma screen_inv_mark_dirty:
  "screen_inv ly s \<Longrightarrow> screen_inv ly (mark_current_dirty s)"
  by (simp add: mark_current_dirty_def screen_inv_set_line screen_inv_lines)

lemma erase_in_line_total:
  assumes "screen_inv ly s"
  shows "if erase_mode ps = 1 \<and> cursor_x s = cols s then erase_in_line s ps = None
    else \<exists>s'. erase_in_line s ps = Some s' \<and> screen_inv ly s'"
proof -
  have ok: "\<exists>s'. map_option mark_current_dirty (erase_current s st e) = Some s' \<and> screen_inv ly s'"
    if "e \<le> cols s" for st e
    using erase_current_ok [OF assms that] screen_inv_erase_current [OF assms that]
    by (auto intro: screen_inv_mark_dirty)
  have cy: "cursor_y s < length (lines s)" using assms by (simp add: screen_inv_lines)
  consider "erase_mode ps = 1" "cursor_x s = cols s" | "erase_mode ps = 1" "cursor_x s + 1 \<le> cols s"
    | "erase_mode ps \<noteq> 1"
    using assms by (force simp: screen_inv_def)
  then show ?thesis
  proof cases
    case 1
    with assms cy show ?thesis by (simp add: erase_in_line_def erase_current_panic Let_def)
  next
    case 2
    with ok [OF 2(2)] cy show ?thesis by (simp add: erase_in_line_def Let_def)
  next
    case 3
    with ok [OF order_refl] cy screen_inv_mark_dirty [OF assms] show ?thesis
      by (auto simp: erase_in_line_def Let_def)
  qed
qed

lemma erase_characters_total:
  assumes "screen_inv ly s"
  shows "\<exists>s'. erase_characters s ps = Some s' \<and> screen_inv ly s'"
proof -
  let ?e = "min (cursor_x s + cursor_move_count ps) (length (chars (lines s ! cursor_y s)))"
  have "length (chars (lines s ! cursor_y s)) = cols s"
    using screen_inv_lines(2,3) [OF assms] by (simp add: line_ok_def)
  then have "?e \<le> cols s" by simp
  with erase_current_ok [OF assms this] screen_inv_erase_current [OF assms this] assms
  show ?thesis by (auto simp: erase_characters_def screen_inv_lines)
qed

lemma screen_inv_moves:
  assumes "screen_inv ly s"
  shows "screen_inv ly (s\<lparr>cursor_y := cursor_y s - n\<rparr>)"
    and "screen_inv ly (s\<lparr>cursor_y := min k (rows s - 1)\<rparr>)"
    and "screen_inv ly (s\<lparr>cursor_x := cursor_x s - n\<rparr>)"
    and "screen_inv ly (s\<lparr>cursor_x := min k (cols s - 1)\<rparr>)"
    and "screen_inv ly (s\<lparr>cursor_y := min k (rows s - 1), cursor_x := min j (cols s - 1)\<rparr>)"
  using assms by (auto simp: screen_inv_def)

lemma screen_inv_margins: "screen_inv ly s \<Longrightarrow> screen_inv ly (set_margins s ps)"
  by (auto simp: screen_inv_def set_margins_def Let_def min_less_iff_disj)

lemma screen_inv_graphics: "screen_inv ly s \<Longrightarrow> screen_inv ly (set_graphics s ps)"
  by (simp add: screen_inv_def set_graphics_def)

lemma csi_dispatch_total:
  assumes "screen_inv ly s"
  shows "if erases_past_end s (CsiDispatch ps is ig a) then csi_dispatch s ps is ig a = None
    else \<exists>s'. csi_dispatch s ps is ig a = Some s' \<and> screen_inv ly s'"
proof -
  have region: "\<exists>s'. scroll_region_up s n = Some s' \<and> screen_inv ly s'" for n
    using screen_inv_region_scrolled [OF assms] assms by (simp add: scroll_region_up_eq)
  show ?thesis
    using erase_in_display_total [OF assms, of ps] erase_in_line_total [OF assms, of ps]
      erase_characters_total [OF assms, of ps] region [of "cursor_move_count ps"]
      screen_inv_moves [OF assms] screen_inv_margins [OF assms, of ps]
      screen_inv_graphics [OF assms, of ps] assms
    by (auto simp: csi_dispatch_def erases_past_end_def)
qed

lemma perform_total:
  assumes "screen_inv ly s"
  shows "if erases_past_end s e then perform s e = None
    else \<exists>s'. perform s e = Some s' \<and> screen_inv ly s'"
proof (cases e)
  case (Print c)
  with assms screen_inv_print [OF assms] show ?thesis
    by (auto simp: erases_past_end_def print_char_eq)
next
  case (Execute b)
  with assms show ?thesis by (auto simp: erases_past_end_def intro: inv_intros)
next
  case (CsiDispatch ps "is" ig a)
  with csi_dispatch_total [OF assms, of ps "is" ig a] show ?thesis by simp
qed (use assms in \<open>simp_all add: erases_past_end_def\<close>)

lemma frame_sizes [frame_simps]:
  "rows (scroll_up s) = rows s" "cols (scroll_up s) = cols s"
  by (simp_all add: scroll_up_def push_scrollback_def Let_def split: list.splits)

section \<open>What the terminal guarantees\<close>

text \<open>C9: From a well-formed screen, every callback of the parser either leaves a well-formed
  screen, or panics; and it panics exactly when the sequence asks to erase up to and
  including the cursor (J or K with mode 1) while the cursor waits past the last column.\<close>

theorem perform_safe:
  assumes "screen_inv ly s"
  shows "(perform s e = None \<longleftrightarrow> erases_past_end s e) \<and>
    (case perform s e of None \<Rightarrow> True | Some s' \<Rightarrow> screen_inv ly s')"
  using perform_total [OF assms, of e] by (auto split: if_splits)

theorem perform_safe_witness:
  "\<not> erases_past_end (screen_default \<lparr>size_of_attrs = 11, size_of_screen_line = 28\<rparr> \<lparr>character_width = 8, character_height = 18, character_spacing = 0\<rparr>) (Print 65)
   \<and> perform (screen_default \<lparr>size_of_attrs = 11, size_of_screen_line = 28\<rparr> \<lparr>character_width = 8, character_height = 18, character_spacing = 0\<rparr>) (Print 65) \<noteq> None"
proof -
  have "screen_inv \<lparr>size_of_attrs = 11, size_of_screen_line = 28\<rparr> (screen_default \<lparr>size_of_attrs = 11, size_of_screen_line = 28\<rparr> \<lparr>character_width = 8, character_height = 18, character_spacing = 0\<rparr>)"
    by (rule screen_inv_default) (simp add: font_fits_def SCREEN_WIDTH_def SCREEN_HEIGHT_def)
  from perform_safe [OF this, of "Print 65"] show ?thesis
    by (simp add: erases_past_end_def)
qed

text \<open>Printing a run of characters on one row only moves the cursor along.\<close>

lemma feed_append: "feed s (xs @ ys) = (case feed s xs of None \<Rightarrow> None | Some s' \<Rightarrow> feed s' ys)"
  by (induction xs arbitrary: s) (auto split: bind_splits option.splits)

lemma feed_print_row:
  "screen_inv ly s \<Longrightarrow> cursor_x s + length cs \<le> cols s \<Longrightarrow>
     \<exists>s'. feed s (map Print cs) = Some s' \<and> screen_inv ly s' \<and> cols s' = cols s
       \<and> cursor_x s' = cursor_x s + length cs"
proof (induction cs arbitrary: s)
  case (Cons c cs)
  let ?s = "print_cell (wrapped (reset_view s)) c"
  have "screen_inv ly ?s"
    using Cons.prems(1) screen_inv_wrapped [OF screen_inv_reset_view] by (auto intro: screen_inv_print_cell)
  moreover have "wrapped (reset_view s) = reset_view s"
    using Cons.prems(2) by (simp add: wrapped_def frame_simps)
  then have "cols ?s = cols s" "cursor_x ?s = cursor_x s + 1"
    by (simp_all add: print_cell_def frame_simps)
  ultimately show ?case
    using Cons.IH [of ?s] Cons.prems by (simp add: print_char_eq)
qed simp

text \<open>C40: The panic is reachable on every geometry: text that fills the first row of a fresh
  screen followed by \<open>CSI 1 K\<close> (or \<open>CSI 1 J\<close>) indexes one cell past the end of the line, so
  output of the remote side stops the firmware.\<close>

theorem erase_to_cursor_panics_at_last_column:
  assumes "font_fits f" and "a = CHR ''J'' \<or> a = CHR ''K''"
  shows "feed (screen_default ly f)
    (map Print (replicate (cols (screen_default ly f)) c) @ [CsiDispatch [(1, [])] [] False a]) = None"
proof -
  let ?s = "screen_default ly f"
  have inv: "screen_inv ly ?s" using assms(1) by (rule screen_inv_default)
  have "cursor_x ?s = 0" by (simp add: screen_default_def Let_def)
  then obtain s' where s': "feed ?s (map Print (replicate (cols ?s) c)) = Some s'" "screen_inv ly s'"
    "cursor_x s' = cols s'"
    using feed_print_row [OF inv, of "replicate (cols ?s) c"] by auto
  with assms(2) have "erases_past_end s' (CsiDispatch [(1, [])] [] False a)"
    by (simp add: erases_past_end_def erase_mode_def first_param_def)
  with s' perform_total [of ly s' "CsiDispatch [(1, [])] [] False a"] show ?thesis
    by (simp add: feed_append)
qed

theorem erase_to_cursor_panics_at_last_column_witness:
  "feed (screen_default \<lparr>size_of_attrs = 11, size_of_screen_line = 28\<rparr> \<lparr>character_width = 80, character_height = 160, character_spacing = 0\<rparr>)
     [Print 97, Print 97, Print 97, Print 97, CsiDispatch [(1, [])] [] False CHR ''K''] = None"
proof -
  have "font_fits \<lparr>character_width = 80, character_height = 160, character_spacing = 0\<rparr>"
    by (simp add: font_fits_def SCREEN_WIDTH_def SCREEN_HEIGHT_def)
  moreover have "cols (screen_default \<lparr>size_of_attrs = 11, size_of_screen_line = 28\<rparr> \<lparr>character_width = 80, character_height = 160, character_spacing = 0\<rparr>) = 4"
    by (simp add: screen_default_def SCREEN_WIDTH_def Let_def)
  ultimately show ?thesis
    using erase_to_cursor_panics_at_last_column
      [of "\<lparr>character_width = 80, character_height = 160, character_spacing = 0\<rparr>" "CHR ''K''"
          "\<lparr>size_of_attrs = 11, size_of_screen_line = 28\<rparr>" 97]
    by (simp add: eval_nat_numeral)
qed

subsection \<open>Memory\<close>

text \<open>Everything that can happen to a screen.\<close>

datatype screen_op =
    Vt vt_event
  | ScrollViewUp nat | ScrollViewDown nat | ClearScreen
  | SetMaxScrollback nat
  | ShowOverlay rstr | ShowTimedOverlay rstr u64 u64 | TickOverlay u64 | ClearOverlay

fun screen_step :: "layout \<Rightarrow> screen \<Rightarrow> screen_op \<Rightarrow> screen option" where
  "screen_step ly s (Vt e) = perform s e"
| "screen_step ly s (ScrollViewUp n) = Some (scroll_view_up s n)"
| "screen_step ly s (ScrollViewDown n) = Some (scroll_view_down s n)"
| "screen_step ly s ClearScreen = Some (screen_clear s)"
| "screen_step ly s (SetMaxScrollback n) = Some (set_max_scrollback ly s n)"
| "screen_step ly s (ShowOverlay t) = Some (show_overlay s t)"
| "screen_step ly s (ShowTimedOverlay t n d) = Some (show_timed_overlay s t n d)"
| "screen_step ly s (TickOverlay n) = Some (tick_overlay s n)"
| "screen_step ly s ClearOverlay = Some (clear_overlay s)"

inductive screen_reaches :: "layout \<Rightarrow> screen \<Rightarrow> screen \<Rightarrow> bool" for ly where
  reach_start: "screen_reaches ly s s"
| reach_step: "screen_reaches ly s s' \<Longrightarrow> screen_step ly s' e = Some s'' \<Longrightarrow> screen_reaches ly s s''"

lemma screen_inv_step:
  "screen_inv ly s \<Longrightarrow> screen_step ly s e = Some s' \<Longrightarrow> screen_inv ly s'"
proof (cases e)
  case (Vt v)
  moreover assume "screen_inv ly s" and "screen_step ly s e = Some s'"
  ultimately show ?thesis
    using perform_total [of ly s v] by (auto split: if_splits)
qed (auto intro: inv_intros)

lemma print_char_size: "print_char s c = Some s' \<Longrightarrow> rows s' = rows s \<and> cols s' = cols s"
  by (auto simp: print_char_def scroll_if_cursor_past_bottom_def frame_simps Let_def
      split: bind_splits if_splits)

lemma clear_lines_size: "clear_lines is s = Some s' \<Longrightarrow> rows s' = rows s \<and> cols s' = cols s"
  by (induction "is" arbitrary: s) (auto split: bind_splits dest!: meta_spec)

lemma erase_current_size:
  "erase_current s st e = Some s' \<Longrightarrow> rows s' = rows s \<and> cols s' = cols s"
  by (auto simp: erase_current_def split: bind_splits)

lemma scroll_region_loop_size:
  "scroll_region_loop n u b s = Some s' \<Longrightarrow> rows s' = rows s \<and> cols s' = cols s"
  by (induction n u b s rule: scroll_region_loop.induct)
     (auto simp: push_scrollback_def Let_def split: bind_splits if_splits)

lemma erase_in_display_size:
  "erase_in_display s ps = Some s' \<Longrightarrow> rows s' = rows s \<and> cols s' = cols s"
  by (auto simp: erase_in_display_def screen_clear_def Let_def
      dest!: clear_lines_size erase_current_size split: if_splits bind_splits)

lemma erase_in_line_size:
  "erase_in_line s ps = Some s' \<Longrightarrow> rows s' = rows s \<and> cols s' = cols s"
  by (auto simp: erase_in_line_def mark_current_dirty_def Let_def
      dest!: erase_current_size split: if_splits)

lemma erase_characters_size:
  "erase_characters s ps = Some s' \<Longrightarrow> rows s' = rows s \<and> cols s' = cols s"
  by (auto simp: erase_characters_def dest!: erase_current_size split: bind_splits)

lemma scroll_region_up_size:
  "scroll_region_up s n = Some s' \<Longrightarrow> rows s' = rows s \<and> cols s' = cols s"
  by (auto simp: scroll_region_up_def Let_def dest!: scroll_region_loop_size split: if_splits)

lemma set_margins_size: "rows (set_margins s ps) = rows s \<and> cols (set_margins s ps) = cols s"
  by (simp add: set_margins_def Let_def)

lemmas size_facts = erase_in_display_size erase_in_line_size erase_characters_size scroll_region_up_size

lemma csi_dispatch_size:
  assumes "csi_dispatch s ps is ig a = Some s'"
  shows "rows s' = rows s \<and> cols s' = cols s"
proof -
  have *: "rows t = rows s \<and> cols t = cols s \<Longrightarrow> Some t = Some s' \<Longrightarrow> rows s' = rows s \<and> cols s' = cols s"
    for t by simp
  show ?thesis
    using assms unfolding csi_dispatch_def set_graphics_def
    by (elim if_eqE) (erule size_facts | erule (1) * [rotated] | (erule * [rotated], simp add: set_margins_size))+
qed

lemma screen_step_size:
  assumes "screen_step ly s e = Some s'"
  shows "rows s' = rows s \<and> cols s' = cols s"
proof (cases e)
  case (Vt v)
  with assms show ?thesis
    by (cases v) (auto simp: execute_def scroll_if_cursor_past_bottom_def frame_simps Let_def
        dest: print_char_size csi_dispatch_size split: if_splits)
qed (use assms in \<open>auto simp: scroll_view_up_def scroll_view_down_def screen_clear_def
      set_max_scrollback_def show_overlay_def show_timed_overlay_def replace_overlay_def
      tick_overlay_def clear_overlay_def Let_def split: option.splits\<close>)

lemma screen_reaches_inv:
  "screen_reaches ly s s' \<Longrightarrow> screen_inv ly s \<Longrightarrow>
     screen_inv ly s' \<and> rows s' = rows s \<and> cols s' = cols s"
  by (induction rule: screen_reaches.induct) (auto dest: screen_inv_step screen_step_size)

text \<open>The bytes the code accounts for a screen: its lines and its scrollback.\<close>

definition footprint :: "layout \<Rightarrow> screen \<Rightarrow> nat" where
  "footprint ly s = bytes_per_line ly (cols s) * (length (lines s) + length (scrollback s))"

lemma safe_max_scrollback_budget:
  assumes "bytes_per_line ly w * (h + 1) \<le> SCREEN_HEAP_BUDGET_BYTES"
  shows "bytes_per_line ly w * (h + safe_max_scrollback_for ly w h) \<le> SCREEN_HEAP_BUDGET_BYTES"
proof -
  let ?p = "bytes_per_line ly w"
  have p: "0 < ?p" by (simp add: bytes_per_line_def PER_LINE_ALLOC_OVERHEAD_BYTES_def)
  have "?p * h + ?p \<le> SCREEN_HEAP_BUDGET_BYTES"
    using assms by simp
  then have "?p \<le> SCREEN_HEAP_BUDGET_BYTES - ?p * h" by simp
  with p have "1 \<le> (SCREEN_HEAP_BUDGET_BYTES - ?p * h) div ?p"
    by (metis One_nat_def Suc_leI div_greater_zero_iff)
  then have "safe_max_scrollback_for ly w h = (SCREEN_HEAP_BUDGET_BYTES - ?p * h) div ?p"
    by (simp add: safe_max_scrollback_for_def Let_def)
  moreover have "?p * ((SCREEN_HEAP_BUDGET_BYTES - ?p * h) div ?p) \<le> SCREEN_HEAP_BUDGET_BYTES - ?p * h"
    by simp
  moreover have "?p * h \<le> SCREEN_HEAP_BUDGET_BYTES"
    using assms by simp
  ultimately show ?thesis
    by (simp only: distrib_left)
qed

text \<open>C39: As long as the visible lines and one more fit the screen's share of the heap, no
  sequence of terminal output, scrolling, overlays and scrollback settings - whatever value
  the settings ask for - makes the screen's lines and scrollback exceed that share.\<close>

theorem screen_within_heap_budget:
  assumes "screen_reaches ly (screen_default ly f) s" and "font_fits f"
    and "bytes_per_line ly (cols (screen_default ly f)) * (rows (screen_default ly f) + 1)
      \<le> SCREEN_HEAP_BUDGET_BYTES"
  shows "footprint ly s \<le> SCREEN_HEAP_BUDGET_BYTES"
proof -
  note inv = screen_reaches_inv [OF assms(1) screen_inv_default [OF assms(2)]]
  then have "length (lines s) + length (scrollback s) \<le> rows s + safe_max_scrollback_for ly (cols s) (rows s)"
    by (auto simp: screen_inv_def)
  then have "footprint ly s \<le> bytes_per_line ly (cols s) * (rows s + safe_max_scrollback_for ly (cols s) (rows s))"
    unfolding footprint_def by (rule mult_le_mono2)
  also have "\<dots> \<le> SCREEN_HEAP_BUDGET_BYTES"
    using safe_max_scrollback_budget assms(3) inv by simp
  finally show ?thesis .
qed

theorem screen_within_heap_budget_witness:
  "footprint \<lparr>size_of_attrs = 11, size_of_screen_line = 28\<rparr>
     (set_max_scrollback \<lparr>size_of_attrs = 11, size_of_screen_line = 28\<rparr>
       (screen_default \<lparr>size_of_attrs = 11, size_of_screen_line = 28\<rparr>
          \<lparr>character_width = 7, character_height = 15, character_spacing = 0\<rparr>) 100000)
     \<le> SCREEN_HEAP_BUDGET_BYTES"
  by (rule screen_within_heap_budget
      [where f = "\<lparr>character_width = 7, character_height = 15, character_spacing = 0\<rparr>",
       OF screen_reaches.reach_step [OF screen_reaches.reach_start, of _ _ "SetMaxScrollback 100000"]])
     (simp_all add: font_fits_def SCREEN_WIDTH_def SCREEN_HEIGHT_def screen_default_def Let_def
       bytes_per_line_def PER_LINE_ALLOC_OVERHEAD_BYTES_def SCREEN_HEAP_BUDGET_BYTES_def
       FIRMWARE_HEAP_SIZE_BYTES_def NON_SCREEN_HEAP_RESERVE_BYTES_def)

subsection \<open>Scrolling\<close>

text \<open>Scroll Up moves the lines of the region up by the count (at most its height), fills
  it with blank lines from below, sends the lines that leave a region starting at the first
  row to the scrollback (which keeps the newest), discards those of any other region, and
  touches no row outside the region.\<close>

theorem scroll_region_up_spec:
  fixes n :: nat
  assumes "screen_inv ly s" and "scroll_top s < scroll_bottom s"
  defines "k \<equiv> min n (scroll_bottom s - scroll_top s + 1)"
  shows "\<exists>s'. scroll_region_up s n = Some s' \<and> length (lines s') = rows s
    \<and> take (scroll_top s) (lines s') = take (scroll_top s) (lines s)
    \<and> drop (scroll_bottom s + 1) (lines s') = drop (scroll_bottom s + 1) (lines s)
    \<and> (\<forall>i. scroll_top s \<le> i \<and> i + k \<le> scroll_bottom s \<longrightarrow> lines s' ! i = lines s ! (i + k))
    \<and> (\<forall>i. scroll_bottom s < i + k \<and> scroll_top s \<le> i \<and> i \<le> scroll_bottom s \<longrightarrow>
          lines s' ! i = sl_new (cols s))
    \<and> scrollback s' = (if scroll_top s = 0
        then last_n (max_scrollback s) (scrollback s @ take k (lines s)) else scrollback s)
    \<and> cursor_x s' = cursor_x s \<and> cursor_y s' = cursor_y s"
proof -
  have b: "scroll_bottom s < length (lines s)" "length (lines s) = rows s"
    using assms(1) by (auto simp: screen_inv_def)
  have k: "scroll_top s + k \<le> scroll_bottom s + 1"
    using assms(2) by (simp add: k_def)
  let ?s = "region_scrolled s n"
  have eq: "lines ?s = take (scroll_top s) (lines s)
      @ drop (scroll_top s + k) (take (scroll_bottom s + 1) (lines s))
      @ replicate k (sl_new (cols s)) @ drop (scroll_bottom s + 1) (lines s)"
    by (simp add: region_scrolled_def Let_def k_def)
  have len: "length (take (scroll_top s) (lines s)) = scroll_top s"
    "length (drop (scroll_top s + k) (take (scroll_bottom s + 1) (lines s)))
       = scroll_bottom s + 1 - (scroll_top s + k)"
    using b assms(2) by auto
  have "length (lines ?s) = rows s"
    using b k assms(2) unfolding eq by simp
  moreover have "drop (scroll_bottom s + 1) (lines ?s) = drop (scroll_bottom s + 1) (lines s)"
    using k len assms(2) unfolding eq by simp
  moreover have "take (scroll_top s) (lines ?s) = take (scroll_top s) (lines s)"
    using len unfolding eq by simp
  moreover have "lines ?s ! i = lines s ! (i + k)" if "scroll_top s \<le> i" "i + k \<le> scroll_bottom s" for i
    using that len b unfolding eq by (simp add: nth_append ac_simps)
  moreover have "lines ?s ! i = sl_new (cols s)"
    if "scroll_bottom s < i + k" "scroll_top s \<le> i" "i \<le> scroll_bottom s" for i
    using that len b k unfolding eq by (simp add: nth_append ac_simps)
  moreover have "scrollback ?s = (if scroll_top s = 0
        then last_n (max_scrollback s) (scrollback s @ take k (lines s)) else scrollback s)"
    "cursor_x ?s = cursor_x s" "cursor_y ?s = cursor_y s"
    by (simp_all add: region_scrolled_def Let_def k_def)
  moreover have "scroll_region_up s n = Some ?s"
    using scroll_region_up_eq [OF assms(1), of n] assms(2) by simp
  ultimately show ?thesis by blast
qed

theorem scroll_region_up_spec_witness:
  "\<exists>s'. scroll_region_up (set_margins (screen_default \<lparr>size_of_attrs = 11, size_of_screen_line = 28\<rparr>
      \<lparr>character_width = 80, character_height = 80, character_spacing = 0\<rparr>) [(2, []), (3, [])]) 1 = Some s'
     \<and> length (lines s') = 4"
proof -
  let ?ly = "\<lparr>size_of_attrs = 11, size_of_screen_line = 28\<rparr>"
  let ?f = "\<lparr>character_width = 80, character_height = 80, character_spacing = 0\<rparr>"
  let ?s = "set_margins (screen_default ?ly ?f) [(2, []), (3, [])]"
  have "screen_inv ?ly ?s"
    by (intro screen_inv_margins screen_inv_default)
       (simp add: font_fits_def SCREEN_WIDTH_def SCREEN_HEIGHT_def)
  moreover have "scroll_top ?s < scroll_bottom ?s \<and> rows ?s = 4"
    by (simp add: set_margins_def screen_default_def first_param_def SCREEN_WIDTH_def SCREEN_HEIGHT_def
        Let_def max_def min_def)
  ultimately show ?thesis
    using scroll_region_up_spec [of ?ly ?s 1] by auto
qed

subsection \<open>Text\<close>

lemma print_cell_in_row:
  "cursor_x s < cols s \<Longrightarrow> wrapped (reset_view s) = reset_view s"
  by (simp add: wrapped_def frame_simps)

lemma list_update_append_drop:
  "x + Suc (length cs) \<le> length xs \<Longrightarrow>
     take (Suc x) (xs[x := c]) @ cs @ drop (Suc (x + length cs)) (xs[x := c])
       = take x xs @ (c # cs) @ drop (x + length (c # cs)) xs"
  by (simp add: take_Suc_conv_app_nth)

lemma feed_print_text:
  assumes "screen_inv ly s" and "cursor_x s + length cs \<le> cols s"
  shows "case feed s (map Print cs) of None \<Rightarrow> False | Some s' \<Rightarrow> screen_inv ly s'
    \<and> cursor_x s' = cursor_x s + length cs \<and> cursor_y s' = cursor_y s
    \<and> chars (lines s' ! cursor_y s)
        = take (cursor_x s) (chars (lines s ! cursor_y s)) @ cs
          @ drop (cursor_x s + length cs) (chars (lines s ! cursor_y s))
    \<and> line_attrs (lines s' ! cursor_y s)
        = take (cursor_x s) (line_attrs (lines s ! cursor_y s))
          @ replicate (length cs) (current_attrs s)
          @ drop (cursor_x s + length cs) (line_attrs (lines s ! cursor_y s))
    \<and> (\<forall>i. i \<noteq> cursor_y s \<longrightarrow> lines s' ! i = lines s ! i)
    \<and> scrollback s' = scrollback s"
  using assms
proof (induction cs arbitrary: s)
  case Nil
  then show ?case by simp
next
  case (Cons c cs)
  let ?s = "print_cell (reset_view s) c"
  let ?l = "lines s ! cursor_y s"
  have wrap: "wrapped (reset_view s) = reset_view s"
    using Cons.prems(2) by (simp add: print_cell_in_row)
  then have inv: "screen_inv ly ?s"
    using Cons.prems screen_inv_print_cell [OF screen_inv_reset_view] by (simp add: frame_simps)
  have cy: "cursor_y s < length (lines s)"
    and ok: "length (chars ?l) = cols s" "length (line_attrs ?l) = cols s"
    using Cons.prems(1) screen_inv_lines(2) [OF Cons.prems(1) screen_inv_lines(3) [OF Cons.prems(1)]]
    by (simp_all add: screen_inv_lines line_ok_def)
  have fields: "cursor_x ?s = cursor_x s + 1" "cursor_y ?s = cursor_y s" "cols ?s = cols s"
    "current_attrs ?s = current_attrs s" "scrollback ?s = scrollback s"
    by (simp_all add: print_cell_def frame_simps)
  have row: "lines ?s ! cursor_y s = ?l\<lparr>chars := (chars ?l)[cursor_x s := c],
      line_attrs := (line_attrs ?l)[cursor_x s := current_attrs s], dirty := True\<rparr>"
    and other: "\<forall>i. i \<noteq> cursor_y s \<longrightarrow> lines ?s ! i = lines s ! i"
    using cy by (simp_all add: print_cell_def frame_simps)
  have "feed s (map Print (c # cs)) = feed ?s (map Print cs)"
    using Cons.prems(1) by (simp add: print_char_eq wrap)
  moreover obtain s' where s': "feed ?s (map Print cs) = Some s'" and IH: "screen_inv ly s'"
    "cursor_x s' = cursor_x s + 1 + length cs" "cursor_y s' = cursor_y s"
    "chars (lines s' ! cursor_y s) = take (cursor_x s + 1) ((chars ?l)[cursor_x s := c]) @ cs
       @ drop (cursor_x s + 1 + length cs) ((chars ?l)[cursor_x s := c])"
    "line_attrs (lines s' ! cursor_y s) = take (cursor_x s + 1) ((line_attrs ?l)[cursor_x s := current_attrs s])
       @ replicate (length cs) (current_attrs s)
       @ drop (cursor_x s + 1 + length cs) ((line_attrs ?l)[cursor_x s := current_attrs s])"
    "\<forall>i. i \<noteq> cursor_y s \<longrightarrow> lines s' ! i = lines ?s ! i" "scrollback s' = scrollback s"
  proof (cases "feed ?s (map Print cs)")
    case None
    with Cons.IH [OF inv] Cons.prems(2) fields show ?thesis by simp
  next
    case (Some s')
    then show ?thesis
      using that [of s'] Cons.IH [OF inv] Cons.prems(2) by (simp add: fields row)
  qed
  moreover have "chars (lines s' ! cursor_y s) = take (cursor_x s) (chars ?l) @ (c # cs)
      @ drop (cursor_x s + length (c # cs)) (chars ?l)"
    using list_update_append_drop [of "cursor_x s" cs "chars ?l" c] Cons.prems(2) ok IH(4) by simp
  moreover have "line_attrs (lines s' ! cursor_y s) = take (cursor_x s) (line_attrs ?l)
      @ replicate (length (c # cs)) (current_attrs s)
      @ drop (cursor_x s + length (c # cs)) (line_attrs ?l)"
    using list_update_append_drop [of "cursor_x s" "replicate (length cs) (current_attrs s)"
        "line_attrs ?l" "current_attrs s"] Cons.prems(2) ok IH(5) by simp
  ultimately show ?case
    using other IH(1,2,3,6,7) by simp
qed

text \<open>Text that fits the rest of the cursor's row appears there, cell by cell, with the
  current attributes; the cells before and after it, every other row and the scrollback
  keep their contents, and the cursor ends right behind the text.\<close>

theorem print_text_spec:
  assumes "screen_inv ly s" and "cursor_x s + length cs \<le> cols s"
  shows "\<exists>s'. feed s (map Print cs) = Some s' \<and> screen_inv ly s'
    \<and> cursor_x s' = cursor_x s + length cs \<and> cursor_y s' = cursor_y s
    \<and> chars (lines s' ! cursor_y s)
        = take (cursor_x s) (chars (lines s ! cursor_y s)) @ cs
          @ drop (cursor_x s + length cs) (chars (lines s ! cursor_y s))
    \<and> line_attrs (lines s' ! cursor_y s)
        = take (cursor_x s) (line_attrs (lines s ! cursor_y s))
          @ replicate (length cs) (current_attrs s)
          @ drop (cursor_x s + length cs) (line_attrs (lines s ! cursor_y s))
    \<and> (\<forall>i. i \<noteq> cursor_y s \<longrightarrow> lines s' ! i = lines s ! i)
    \<and> scrollback s' = scrollback s"
  using feed_print_text [OF assms] by (auto split: option.splits)

theorem print_text_spec_witness:
  "\<exists>s'. feed (screen_default \<lparr>size_of_attrs = 11, size_of_screen_line = 28\<rparr>
      \<lparr>character_width = 80, character_height = 160, character_spacing = 0\<rparr>) [Print 104, Print 105] = Some s'
    \<and> chars (lines s' ! 0) = [104, 105] @ replicate 2 32"
proof -
  let ?ly = "\<lparr>size_of_attrs = 11, size_of_screen_line = 28\<rparr>"
  let ?f = "\<lparr>character_width = 80, character_height = 160, character_spacing = 0\<rparr>"
  let ?s = "screen_default ?ly ?f"
  have s: "cursor_x ?s = 0" "cursor_y ?s = 0" "cols ?s = 4"
    by (simp_all add: screen_default_def SCREEN_WIDTH_def Let_def)
  have row: "chars (lines ?s ! 0) = replicate 4 32"
    by (simp add: screen_default_def SCREEN_WIDTH_def SCREEN_HEIGHT_def Let_def sl_new_def)
  have inv: "screen_inv ?ly ?s"
    by (rule screen_inv_default) (simp add: font_fits_def SCREEN_WIDTH_def SCREEN_HEIGHT_def)
  have fits: "cursor_x ?s + length [104 :: rchar, 105] \<le> cols ?s"
    by (simp add: s)
  from print_text_spec [OF inv fits] obtain s' where "feed ?s (map Print [104, 105]) = Some s'"
    "chars (lines s' ! cursor_y ?s) = take (cursor_x ?s) (chars (lines ?s ! cursor_y ?s)) @ [104, 105]
       @ drop (cursor_x ?s + length [104 :: rchar, 105]) (chars (lines ?s ! cursor_y ?s))"
    by (elim exE conjE) (rule that)
  then show ?thesis unfolding s row by (simp add: numeral_2_eq_2)
qed

subsection \<open>Overlays\<close>

text \<open>The lines, the scrollback, the cursor and the geometry: what the painter draws under an
  overlay.\<close>

definition cells_of :: "screen \<Rightarrow> screen_line list \<times> screen_line list \<times> nat \<times> nat \<times> nat" where
  "cells_of s = (lines s, scrollback s, viewport_offset s, cursor_x s, cursor_y s)"

fun overlay_op :: "screen_op \<Rightarrow> bool" where
  "overlay_op (ShowOverlay _) = True"
| "overlay_op (ShowTimedOverlay _ _ _) = True"
| "overlay_op (TickOverlay _) = True"
| "overlay_op ClearOverlay = True"
| "overlay_op _ = False"

text \<open>Overlays never touch the terminal: showing, replacing, expiring and clearing them
  leaves the lines, the scrollback, the viewport and the cursor as they were, and an overlay
  that was on the screen and is no longer (it was cleared, expired or replaced by another
  text) leaves a full repaint pending, so nothing of it survives.\<close>

theorem overlay_is_transparent:
  assumes "overlay_op e" and "screen_step ly s e = Some s'"
  shows "cells_of s' = cells_of s
    \<and> (overlay s \<noteq> None \<and> overlay s' \<noteq> overlay s \<longrightarrow> full_repaint s')"
proof (cases e)
  case (ShowOverlay t)
  with assms(2) have "s' = show_overlay s t" by simp
  then show ?thesis
    by (cases "overlay s") (simp_all add: cells_of_def show_overlay_def replace_overlay_def Let_def)
next
  case (ShowTimedOverlay t now d)
  with assms(2) have "s' = show_timed_overlay s t now d" by simp
  then show ?thesis
    by (cases "overlay s") (simp_all add: cells_of_def show_timed_overlay_def replace_overlay_def Let_def)
next
  case (TickOverlay now)
  with assms(2) have "s' = tick_overlay s now" by simp
  then show ?thesis
    by (cases "overlay_deadline_ms s"; cases "overlay_restore s"; cases "overlay s")
       (simp_all add: cells_of_def tick_overlay_def clear_overlay_def Let_def)
next
  case ClearOverlay
  with assms(2) have "s' = clear_overlay s" by simp
  then show ?thesis
    by (cases "overlay s") (simp_all add: cells_of_def clear_overlay_def Let_def)
qed (use assms(1) in simp_all)

theorem overlay_is_transparent_witness:
  "\<forall>ly f. cells_of (show_overlay (screen_default ly f) ''hi'') = cells_of (screen_default ly f)"
  using overlay_is_transparent [of "ShowOverlay ''hi''" _ "screen_default _ _"] by simp

lemma ticks_before_deadline:
  "overlay_deadline_ms s = Some d \<Longrightarrow> \<forall>t \<in> set ts. t < d \<Longrightarrow> foldl tick_overlay s ts = s"
  by (induction ts) (auto simp: tick_overlay_def)

text \<open>A timed overlay shown over a standing one is visible until its deadline (saturated at
  the end of the clock), whatever the ticks before it; the first tick at or after the
  deadline brings the standing overlay back with a full repaint, and later ticks change
  nothing any more.\<close>

theorem timed_overlay_restores:
  fixes s :: screen and standing timed :: rstr
  assumes "\<forall>t \<in> set before. t < saturating_add now duration"
    and "saturating_add now duration \<le> t1"
  defines "s1 \<equiv> show_timed_overlay (show_overlay s standing) timed now duration"
  shows "overlay (foldl tick_overlay s1 before) = Some timed
    \<and> overlay (foldl tick_overlay s1 (before @ t1 # later)) = Some standing
    \<and> full_repaint (foldl tick_overlay s1 (before @ t1 # later))
    \<and> overlay_deadline_ms (foldl tick_overlay s1 (before @ t1 # later)) = None"
proof -
  have s1: "overlay s1 = Some timed" "overlay_restore s1 = Some standing"
    "overlay_deadline_ms s1 = Some (saturating_add now duration)"
    by (simp_all add: s1_def show_timed_overlay_def show_overlay_def replace_overlay_def Let_def)
  have before: "foldl tick_overlay s1 before = s1"
    using s1(3) assms(1) by (rule ticks_before_deadline)
  let ?s2 = "s1\<lparr>overlay_deadline_ms := None, overlay := Some standing, full_repaint := True\<rparr>"
  have "tick_overlay s1 t1 = ?s2"
    using s1 assms(2) by (simp add: tick_overlay_def Let_def)
  moreover have "foldl tick_overlay ?s2 later = ?s2"
    by (induction later) (simp_all add: tick_overlay_def)
  ultimately show ?thesis using before s1 by simp
qed

theorem timed_overlay_restores_witness:
  "\<forall>s. overlay (foldl tick_overlay (show_timed_overlay (show_overlay s ''Recording'') ''Bat 50%'' 100 2000)
     [500, 2100, 9000]) = Some ''Recording''"
proof
  fix s :: screen
  have "saturating_add 100 2000 = (2100 :: u64)" by (simp add: saturating_add_def)
  then show "overlay (foldl tick_overlay (show_timed_overlay (show_overlay s ''Recording'') ''Bat 50%'' 100 2000)
     [500, 2100, 9000]) = Some ''Recording''"
    using timed_overlay_restores [of "[500]" 100 2000 2100 s "''Recording''" "''Bat 50%''" "[9000]"]
    by simp
qed

end
