(* ===== verification/TextWrap.thy ===== *)
theory TextWrap
  imports ScreenModel
begin

text \<open>
  Wrapping of overlay text (\<open>wrap_text_to_width\<close> and \<open>split_at_chars\<close> of
  \<open>terminal-model/src/screen_model.rs\<close>) and the overlay box the painter sizes from the wrapped
  lines (\<open>draw_overlay\<close> of \<open>src/screen.rs\<close>). A text is the list of its characters here: the
  code counts characters throughout, never bytes.
\<close>

section \<open>Splitting\<close>

text \<open>\<open>str::split('\n')\<close> and \<open>str::split_whitespace\<close> on the characters of a text.\<close>

fun split_on :: "rchar \<Rightarrow> rchar list \<Rightarrow> rchar list list" where
  "split_on d [] = [[]]"
| "split_on d (c # cs) =
     (if c = d then [] # split_on d cs
      else (case split_on d cs of [] \<Rightarrow> [[c]] | w # ws \<Rightarrow> (c # w) # ws))"

fun words_from :: "rchar list \<Rightarrow> rchar list \<Rightarrow> rchar list list" where
  "words_from w [] = (if w = [] then [] else [w])"
| "words_from w (c # cs) =
     (if is_whitespace c then (if w = [] then words_from [] cs else w # words_from [] cs)
      else words_from (w @ [c]) cs)"

definition split_whitespace :: "rchar list \<Rightarrow> rchar list list" where
  "split_whitespace = words_from []"

definition split_at_chars :: "rchar list \<Rightarrow> nat \<Rightarrow> rchar list \<times> rchar list" where
  "split_at_chars s n = (if n < length s then (take n s, drop n s) else (s, []))"

section \<open>Wrapping\<close>

text \<open>The loop that hard-breaks a word wider than a line: the full lines and what remains.\<close>

function hard_break :: "nat \<Rightarrow> rchar list \<Rightarrow> rchar list list \<times> rchar list" where
  "hard_break m remaining =
     (if 0 < m \<and> length remaining > m then
        let (chunk, rest) = split_at_chars remaining m;
            (ls, final) = hard_break m rest
        in (chunk # ls, final)
      else ([], remaining))"
  by pat_completeness auto
termination
  by (relation "measure (\<lambda>(_, r). length r)") (auto simp: split_at_chars_def split: if_splits)

declare hard_break.simps [simp del]

text \<open>The loop over the words of a paragraph, with the lines so far and the open line.\<close>

fun wrap_words :: "nat \<Rightarrow> rchar list list \<Rightarrow> rchar list \<Rightarrow> rchar list list \<Rightarrow> rchar list list \<times> rchar list" where
  "wrap_words m ls cur [] = (ls, cur)"
| "wrap_words m ls cur (w # ws) =
     (if length w > m then
        let ls1 = (if cur \<noteq> [] then ls @ [cur] else ls);
            cur1 = [];
            (chunks, remaining) = hard_break m w
        in wrap_words m (ls1 @ chunks) (cur1 @ remaining) ws
      else
        let extra = (if cur = [] then 0 else 1)
        in if length cur + extra + length w > m then wrap_words m (ls @ [cur]) w ws
           else if cur \<noteq> [] then wrap_words m ls (cur @ [32] @ w) ws
           else wrap_words m ls (cur @ w) ws)"

fun wrap_paragraphs :: "nat \<Rightarrow> rchar list list \<Rightarrow> rchar list list \<Rightarrow> rchar list list" where
  "wrap_paragraphs m ls [] = ls"
| "wrap_paragraphs m ls (p # ps) =
     (let (ls', cur) = wrap_words m ls [] (split_whitespace p)
      in wrap_paragraphs m (ls' @ [cur]) ps)"

definition overlay_max_chars :: "mono_font \<Rightarrow> nat \<Rightarrow> nat" where
  "overlay_max_chars f max_width_px =
     (let char_width = max (character_width f + character_spacing f) 1
      in max (max_width_px div char_width) 1)"

definition wrap_text_to_width :: "rchar list \<Rightarrow> mono_font \<Rightarrow> nat \<Rightarrow> rchar list list" where
  "wrap_text_to_width text f max_width_px =
     wrap_paragraphs (overlay_max_chars f max_width_px) [] (split_on 10 text)"

definition wrap_overlay_text :: "screen \<Rightarrow> rchar list \<Rightarrow> nat \<Rightarrow> rchar list list" where
  "wrap_overlay_text s text max_width_px = wrap_text_to_width text (font s) max_width_px"

section \<open>Every wrapped line fits\<close>

lemma hard_break_fits:
  "0 < m \<Longrightarrow> hard_break m w = (chunks, rest) \<Longrightarrow>
     (\<forall>l \<in> set chunks. length l \<le> m) \<and> length rest \<le> m \<and> concat chunks @ rest = w"
proof (induction m w arbitrary: chunks rest rule: hard_break.induct)
  case (1 m w)
  show ?case
  proof (cases "length w > m")
    case True
    obtain ls final where rec: "hard_break m (drop m w) = (ls, final)" by fastforce
    with True "1.prems" have "chunks = take m w # ls" "rest = final"
      by (simp_all add: hard_break.simps [of m w] split_at_chars_def)
    moreover have "(\<forall>l \<in> set ls. length l \<le> m) \<and> length final \<le> m \<and> concat ls @ final = drop m w"
      using "1.IH" [of "(take m w, drop m w)" "take m w" "drop m w" ls final] True "1.prems"(1) rec
      by (simp add: split_at_chars_def)
    ultimately show ?thesis
      by (auto simp: append.assoc)
  next
    case False
    with "1.prems" show ?thesis by (simp add: hard_break.simps [of m w])
  qed
qed

lemma wrap_words_fits:
  "0 < m \<Longrightarrow> \<forall>l \<in> set ls. length l \<le> m \<Longrightarrow> length cur \<le> m \<Longrightarrow>
     (case wrap_words m ls cur ws of (ls', cur') \<Rightarrow> (\<forall>l \<in> set ls'. length l \<le> m) \<and> length cur' \<le> m)"
proof (induction m ls cur ws rule: wrap_words.induct)
  case (2 m ls cur w ws)
  obtain chunks rest where hb: "hard_break m w = (chunks, rest)" by fastforce
  note fits = hard_break_fits [OF "2.prems"(1) hb]
  show ?case
  proof (cases "length w > m")
    case True
    let ?ls1 = "if cur \<noteq> [] then ls @ [cur] else ls"
    have "wrap_words m ls cur (w # ws) = wrap_words m (?ls1 @ chunks) rest ws"
      using True hb by (simp add: Let_def)
    moreover have "\<forall>l \<in> set (?ls1 @ chunks). length l \<le> m"
      using fits "2.prems" by auto
    ultimately show ?thesis
      using "2.IH"(1) [OF True refl refl refl hb [symmetric] "2.prems"(1)] fits by simp
  next
    case False
    with "2.prems" "2.IH"(2-4) [OF False refl] show ?thesis by (auto simp: Let_def)
  qed
qed simp

lemma wrap_paragraphs_fits:
  "0 < m \<Longrightarrow> \<forall>l \<in> set ls. length l \<le> m \<Longrightarrow> \<forall>l \<in> set (wrap_paragraphs m ls ps). length l \<le> m"
proof (induction ps arbitrary: ls)
  case (Cons p ps)
  obtain ls' cur where w: "wrap_words m ls [] (split_whitespace p) = (ls', cur)" by fastforce
  with Cons.prems wrap_words_fits [of m ls "[]" "split_whitespace p"]
  have "\<forall>l \<in> set (ls' @ [cur]). length l \<le> m" by auto
  from Cons.IH [OF Cons.prems(1) this] w show ?case by simp
qed simp

lemma overlay_max_chars_pos [simp]: "0 < overlay_max_chars f w"
  by (simp add: overlay_max_chars_def Let_def)

section \<open>No character is lost\<close>

text \<open>The characters of a text that wrapping has to keep.\<close>

abbreviation ink :: "rchar list \<Rightarrow> rchar list" where
  "ink \<equiv> filter (\<lambda>c. \<not> is_whitespace c)"

lemma ink_words: "concat (words_from w cs) = w @ ink cs"
  by (induction w cs rule: words_from.induct) auto

lemma words_from_ink:
  "ink w = w \<Longrightarrow> \<forall>v \<in> set (words_from w cs). ink v = v"
  by (induction w cs rule: words_from.induct) auto

lemma ink_split_on: "is_whitespace d \<Longrightarrow> concat (map ink (split_on d cs)) = ink cs"
  by (induction d cs rule: split_on.induct) (auto split: list.splits)

lemma is_whitespace_32 [simp]: "is_whitespace 32" "is_whitespace 10"
  by (simp_all add: is_whitespace_def)

lemma wrap_words_ink:
  assumes "0 < m" and "\<forall>v \<in> set ws. ink v = v" and "wrap_words m ls cur ws = (ls', cur')"
  shows "concat (map ink ls') @ ink cur' = concat (map ink ls) @ ink cur @ concat ws"
  using assms
proof (induction m ls cur ws rule: wrap_words.induct)
  case (2 m ls cur w ws)
  obtain chunks rest where hb: "hard_break m w = (chunks, rest)" by fastforce
  with "2.prems" have w: "w = concat chunks @ rest" and "ink w = w"
    using hard_break_fits by auto
  then have chunks: "concat (map ink chunks) @ ink rest = w"
    by (metis filter_append filter_concat)
  show ?case
  proof (cases "length w > m")
    case True
    with 2 hb chunks show ?thesis by (auto simp: Let_def)
  next
    case False
    with 2 \<open>ink w = w\<close> show ?thesis by (auto simp: Let_def split: if_splits)
  qed
qed simp

lemma wrap_paragraphs_ink:
  "0 < m \<Longrightarrow> concat (map ink (wrap_paragraphs m ls ps)) = concat (map ink ls) @ concat (map ink ps)"
proof (induction ps arbitrary: ls)
  case (Cons p ps)
  obtain ls' cur where w: "wrap_words m ls [] (split_whitespace p) = (ls', cur)" by fastforce
  have "\<forall>v \<in> set (split_whitespace p). ink v = v"
    unfolding split_whitespace_def by (intro words_from_ink) simp
  from wrap_words_ink [OF Cons.prems this w] have "concat (map ink ls') @ ink cur = concat (map ink ls) @ ink p"
    by (simp add: split_whitespace_def ink_words)
  with Cons w show ?case by simp
qed simp

text \<open>C37: Wrapping an overlay text produces only lines that fit the width it was given (as
  long as one character does), and keeps every character that is not white space, in order:
  nothing is clipped, however long the words are.\<close>

theorem wrap_text_fits_and_keeps:
  assumes "character_width f + character_spacing f \<le> w"
  shows "(\<forall>l \<in> set (wrap_text_to_width text f w). length l * (character_width f + character_spacing f) \<le> w)
    \<and> ink (concat (wrap_text_to_width text f w)) = ink text"
proof
  show "\<forall>l \<in> set (wrap_text_to_width text f w). length l * (character_width f + character_spacing f) \<le> w"
  proof
    fix l assume "l \<in> set (wrap_text_to_width text f w)"
    then have l: "length l \<le> overlay_max_chars f w"
      using wrap_paragraphs_fits [of "overlay_max_chars f w" "[]" "split_on 10 text"]
      by (simp add: wrap_text_to_width_def)
    show "length l * (character_width f + character_spacing f) \<le> w"
    proof (cases "character_width f + character_spacing f = 0")
      case False
      with assms have "1 \<le> w div (character_width f + character_spacing f)"
        by (metis One_nat_def Suc_leI div_greater_zero_iff neq0_conv)
      moreover from False have "max (character_width f + character_spacing f) 1
          = character_width f + character_spacing f" by linarith
      ultimately have "length l \<le> w div (character_width f + character_spacing f)"
        using l by (simp only: overlay_max_chars_def Let_def max_def split: if_split_asm)
      then have "length l * (character_width f + character_spacing f)
          \<le> w div (character_width f + character_spacing f) * (character_width f + character_spacing f)"
        by (rule mult_le_mono1)
      also have "\<dots> \<le> w" by (rule div_times_less_eq_dividend)
      finally show ?thesis .
    qed simp
  qed
  show "ink (concat (wrap_text_to_width text f w)) = ink text"
    using wrap_paragraphs_ink [of "overlay_max_chars f w" "[]" "split_on 10 text"]
    by (simp add: wrap_text_to_width_def filter_concat ink_split_on)
qed

theorem wrap_text_fits_and_keeps_witness:
  "ink (concat (wrap_text_to_width [97, 98, 32, 99, 10, 100]
     \<lparr>character_width = 6, character_height = 12, character_spacing = 1\<rparr> 15)) = [97, 98, 99, 100]"
  using wrap_text_fits_and_keeps [of "\<lparr>character_width = 6, character_height = 12, character_spacing = 1\<rparr>" 15
      "[97, 98, 32, 99, 10, 100]"]
  by (simp add: is_whitespace_def)

section \<open>The overlay box\<close>

definition PADDING_X :: int where "PADDING_X = 10"
definition PADDING_Y :: int where "PADDING_Y = 8"
definition LEVEL_METER_HEIGHT :: nat where "LEVEL_METER_HEIGHT = 8"
definition LEVEL_METER_FULL_SCALE :: nat where "LEVEL_METER_FULL_SCALE = 150"

record overlay_box =
  box_lines :: "rchar list list"
  box_w :: nat
  box_h :: nat
  box_x :: int
  box_y :: int

text \<open>\<open>draw_overlay\<close> up to the drawing calls: the wrapped lines and the box around them.\<close>

definition overlay_layout :: "screen \<Rightarrow> rchar list \<Rightarrow> bool \<Rightarrow> overlay_box" where
  "overlay_layout s text recording =
     (let meter_space = (if recording then LEVEL_METER_HEIGHT + 6 else 0);
          max_text_width_px = sat_sub SCREEN_WIDTH (nat PADDING_X * 2);
          ls = wrap_overlay_text s text (max max_text_width_px 1);
          char_width = character_width (font s) + character_spacing (font s);
          text_height = character_height (font s);
          widest = foldr max (map length ls) 0;
          w = widest * char_width + nat PADDING_X * 2;
          h = text_height * length ls + nat PADDING_Y * 2 + meter_space
      in \<lparr>box_lines = ls, box_w = w, box_h = h,
          box_x = trunc_div (int SCREEN_WIDTH - int w) 2,
          box_y = max (trunc_div (int SCREEN_HEIGHT - int h) 2) 0\<rparr>)"

text \<open>The filled part of the level meter's track.\<close>

definition level_meter_filled :: "nat \<Rightarrow> nat \<Rightarrow> nat" where
  "level_meter_filled width level =
     (width * min level LEVEL_METER_FULL_SCALE) div LEVEL_METER_FULL_SCALE"

lemma foldr_max_mult_le:
  "\<forall>x \<in> set xs. x * c \<le> (b::nat) \<Longrightarrow> foldr max xs 0 * c \<le> b"
  by (induction xs) (auto simp: max_def)

lemma trunc_div_2_nonneg: "0 \<le> a \<Longrightarrow> trunc_div a 2 = a div 2"
  by (cases "a = 0") (simp_all add: trunc_div_def sgn_if)

text \<open>Whatever the overlay's text, with a font whose characters fit the padded width the
  overlay box lies within the screen horizontally, every line lies within the box's padding,
  and the meter's fill never leaves its track.\<close>

theorem overlay_box_on_screen:
  fixes s :: screen and msg :: "rchar list" and recording :: bool
  assumes "character_width (font s) + character_spacing (font s) \<le> SCREEN_WIDTH - 20"
  defines "b \<equiv> overlay_layout s msg recording"
  shows "0 \<le> box_x b \<and> box_x b + int (box_w b) \<le> int SCREEN_WIDTH \<and> 0 \<le> box_y b
    \<and> (\<forall>l \<in> set (box_lines b).
         length l * (character_width (font s) + character_spacing (font s)) + 20 \<le> box_w b)
    \<and> level_meter_filled (box_w b - 20) level \<le> box_w b - 20"
proof -
  let ?c = "character_width (font s) + character_spacing (font s)"
  let ?ls = "wrap_text_to_width msg (font s) 300"
  have ls: "box_lines b = ?ls" "box_w b = foldr max (map length ?ls) 0 * ?c + 20"
    "box_x b = trunc_div (int 320 - int (box_w b)) 2" "0 \<le> box_y b"
    by (simp_all add: b_def overlay_layout_def wrap_overlay_text_def Let_def SCREEN_WIDTH_def PADDING_X_def)
  have "\<forall>l \<in> set ?ls. length l * ?c \<le> 300"
    using wrap_text_fits_and_keeps [of "font s" 300 msg] assms(1) by (simp add: SCREEN_WIDTH_def)
  then have w: "box_w b \<le> 320"
    using foldr_max_mult_le [of "map length ?ls" ?c 300] unfolding ls(2) by simp
  then have x: "box_x b = (320 - int (box_w b)) div 2"
    using ls(3) by (simp add: trunc_div_2_nonneg)
  have "length l \<le> foldr max (map length ls) 0" if "l \<in> set ls" for l :: "rchar list" and ls
    using that by (induction ls) (auto simp: le_max_iff_disj)
  then have "\<forall>l \<in> set (box_lines b). length l * ?c + 20 \<le> box_w b"
    unfolding ls(1,2) by (simp add: mult_le_mono1)
  moreover have "level_meter_filled (box_w b - 20) level \<le> box_w b - 20"
  proof -
    have "(box_w b - 20) * min level LEVEL_METER_FULL_SCALE \<le> (box_w b - 20) * LEVEL_METER_FULL_SCALE"
      by simp
    then have "(box_w b - 20) * min level LEVEL_METER_FULL_SCALE div LEVEL_METER_FULL_SCALE
        \<le> (box_w b - 20) * LEVEL_METER_FULL_SCALE div LEVEL_METER_FULL_SCALE"
      by (rule div_le_mono)
    then show ?thesis by (simp add: level_meter_filled_def LEVEL_METER_FULL_SCALE_def)
  qed
  ultimately show ?thesis
    using x w ls(4) by (simp add: SCREEN_WIDTH_def)
qed

theorem overlay_box_on_screen_witness:
  "\<forall>ly msg. 0 \<le> box_x (overlay_layout (screen_default ly
      \<lparr>character_width = 7, character_height = 15, character_spacing = 0\<rparr>) msg True)"
proof (intro allI)
  fix ly msg
  let ?s = "screen_default ly \<lparr>character_width = 7, character_height = 15, character_spacing = 0\<rparr>"
  have "character_width (font ?s) + character_spacing (font ?s) \<le> SCREEN_WIDTH - 20"
    by (simp add: screen_default_def Let_def SCREEN_WIDTH_def)
  from overlay_box_on_screen [OF this] show "0 \<le> box_x (overlay_layout ?s msg True)" by blast
qed

end
