(* ===== verification/DmaRing.thy ===== *)
theory DmaRing
  imports RustStd
begin

text \<open>
  \<open>terminal-model/src/dma_ring.rs\<close>: the wrap arithmetic of the free-running DMA capture ring.
  Subtractions below zero (a panic or a wrap in Rust) are kept visible as \<^term>\<open>None\<close>.
\<close>

section \<open>The arithmetic\<close>

definition available_words :: "nat \<Rightarrow> nat \<Rightarrow> nat \<Rightarrow> nat option" where
  "available_words write_index read_index capacity =
     (if write_index + capacity < read_index \<or> capacity = 0 then None
      else Some ((write_index + capacity - read_index) mod capacity))"

definition segments :: "nat \<Rightarrow> nat \<Rightarrow> nat \<Rightarrow> ((nat \<times> nat) \<times> (nat \<times> nat)) option" where
  "segments read_index count capacity =
     (if count = 0 then Some ((read_index, 0), (0, 0))
      else if capacity < read_index then None
      else let first = min count (capacity - read_index)
           in Some ((read_index, first), (0, count - first)))"

text \<open>The words a pair of segments visits, in order.\<close>

definition visited :: "(nat \<times> nat) \<times> (nat \<times> nat) \<Rightarrow> nat list" where
  "visited s = (case s of ((a, n), (b, m)) \<Rightarrow> [a..<a + n] @ [b..<b + m])"

text \<open>The positions a run of the ring occupies.\<close>

definition ring_run :: "nat \<Rightarrow> nat \<Rightarrow> nat \<Rightarrow> nat list" where
  "ring_run start count capacity = map (\<lambda>i. (start + i) mod capacity) [0..<count]"

section \<open>The reader sees exactly what the DMA wrote\<close>

lemma ring_run_split:
  assumes "r < c" and "n \<le> c"
  shows "ring_run r n c = [r..<r + min n (c - r)] @ [0..<n - min n (c - r)]"
proof (rule nth_equalityI)
  show "length (ring_run r n c) = length ([r..<r + min n (c - r)] @ [0..<n - min n (c - r)])"
    by (simp add: ring_run_def)
  fix i assume "i < length (ring_run r n c)"
  then have i: "i < n" by (simp add: ring_run_def)
  have wrap: "(r + i) mod c = r + i - c" if "c \<le> r + i"
    using that i assms by (simp add: le_mod_geq)
  show "ring_run r n c ! i = ([r..<r + min n (c - r)] @ [0..<n - min n (c - r)]) ! i"
  proof (cases "r + i < c")
    case True
    then have "i < c - r" by linarith
    with True i show ?thesis by (simp add: ring_run_def nth_append)
  next
    case False
    moreover from this i have "min n (c - r) = c - r" "\<not> i < c - r" "r + i - c = i - (c - r)"
      using assms by linarith+
    ultimately show ?thesis
      using i assms wrap by (simp add: ring_run_def nth_append)
  qed
qed

text \<open>For positions inside the ring, the number of available words is the distance the
  DMA is ahead, the segments of that run stay inside the buffer, hold exactly that many
  words, and visit the words the DMA wrote since the reader's position, in the order it
  wrote them.\<close>

theorem segments_visit_unread_words:
  assumes "read_index < capacity" and "written < capacity"
  defines "write_index \<equiv> (read_index + written) mod capacity"
  shows "available_words write_index read_index capacity = Some written
    \<and> (\<exists>a n b m. segments read_index written capacity = Some ((a, n), (b, m))
        \<and> n + m = written \<and> a + n \<le> capacity \<and> b + m \<le> capacity
        \<and> visited ((a, n), (b, m)) = ring_run read_index written capacity)"
proof -
  have "available_words write_index read_index capacity = Some written"
  proof (cases "read_index + written < capacity")
    case True
    with assms(1,2) show ?thesis by (simp add: available_words_def write_index_def)
  next
    case False
    with assms(1,2) show ?thesis
      by (simp add: available_words_def write_index_def le_mod_geq)
  qed
  moreover have "\<exists>a n b m. segments read_index written capacity = Some ((a, n), (b, m))
        \<and> n + m = written \<and> a + n \<le> capacity \<and> b + m \<le> capacity
        \<and> visited ((a, n), (b, m)) = ring_run read_index written capacity"
    using assms(1,2) ring_run_split [of read_index capacity written]
    by (auto simp: segments_def visited_def Let_def ring_run_def min_def)
  ultimately show ?thesis by blast
qed

theorem segments_visit_unread_words_witness:
  "available_words 3 14 16 = Some 5 \<and> segments 14 5 16 = Some ((14, 2), (0, 3))"
  using segments_visit_unread_words [of 14 16 5] by (simp add: segments_def)

end
