(* ===== verification/PcmExtract.thy ===== *)
theory PcmExtract
  imports RustStd "HOL-Library.Multiset"
begin

text \<open>
  \<open>terminal-model/src/pcm_extract.rs\<close>: the bit clock, the validity of a slot width and a
  sample rate, the recovery of mono samples from the raw slot words, and the level meter's
  statistic.
\<close>

section \<open>The bit clock\<close>

definition bit_clock_hz :: "u32 \<Rightarrow> u32 \<Rightarrow> u32 \<Rightarrow> u32" where
  "bit_clock_hz sample_rate_hz bits channels =
     saturating_mul (saturating_mul sample_rate_hz bits) channels"

definition MIN_MIC_BCLK_HZ :: u32 where "MIN_MIC_BCLK_HZ = 1024000"
definition MAX_MIC_BCLK_HZ :: u32 where "MAX_MIC_BCLK_HZ = 4096000"
definition MIN_SLOT_BITS :: u32 where "MIN_SLOT_BITS = 8"
definition MAX_SLOT_BITS :: u32 where "MAX_SLOT_BITS = 32"

definition mic_settings_valid :: "u32 \<Rightarrow> u32 \<Rightarrow> bool" where
  "mic_settings_valid bits sample_rate_hz =
     (if sample_rate_hz = 0 \<or> \<not> (MIN_SLOT_BITS \<le> bits \<and> bits \<le> MAX_SLOT_BITS) then False
      else case Option.bind (checked_mul sample_rate_hz bits) (\<lambda>bclk. checked_mul bclk 2) of
             Some bclk \<Rightarrow> MIN_MIC_BCLK_HZ \<le> bclk \<and> bclk \<le> MAX_MIC_BCLK_HZ
           | None \<Rightarrow> False)"

text \<open>The validity check over the integers, without machine arithmetic.\<close>

definition clock_in_window :: "nat \<Rightarrow> nat \<Rightarrow> bool" where
  "clock_in_window bits rate \<longleftrightarrow> 8 \<le> bits \<and> bits \<le> 32
     \<and> 1024000 \<le> rate * bits * 2 \<and> rate * bits * 2 \<le> 4096000"

lemma mic_settings_valid_iff:
  "mic_settings_valid bits rate \<longleftrightarrow> clock_in_window (unat bits) (unat rate)"
proof -
  have bits: "MIN_SLOT_BITS \<le> bits \<and> bits \<le> MAX_SLOT_BITS \<longleftrightarrow> 8 \<le> unat bits \<and> unat bits \<le> 32"
    by (simp add: MIN_SLOT_BITS_def MAX_SLOT_BITS_def word_le_nat_alt)
  have rate0: "rate = 0 \<longleftrightarrow> unat rate = 0" by (simp add: unsigned_eq_0_iff)
  show ?thesis
  proof (cases "unat rate * unat bits * 2 < 4294967296")
    case True
    then have small: "unat rate * unat bits < 4294967296" by linarith
    then have m1: "unat (rate * bits) = unat rate * unat bits"
      by (intro unat_mult_no_overflow) simp
    with True have m2: "unat (rate * bits * 2) = unat rate * unat bits * 2"
      by (subst unat_mult_no_overflow) simp_all
    have "unat (rate * bits) * unat (2 :: u32) < 2 ^ LENGTH(32)"
      unfolding m1 using True by simp
    moreover from small have "unat rate * unat bits < 2 ^ LENGTH(32)" by simp
    ultimately have "Option.bind (checked_mul rate bits) (\<lambda>b. checked_mul b 2) = Some (rate * bits * 2)"
      by (simp only: checked_mul_def if_True bind.bind_lunit)
    then show ?thesis
      using bits rate0 m2
      by (auto simp: mic_settings_valid_def clock_in_window_def MIN_MIC_BCLK_HZ_def
          MAX_MIC_BCLK_HZ_def word_le_nat_alt)
  next
    case False
    then have "Option.bind (checked_mul rate bits) (\<lambda>b. checked_mul b 2) = None"
      by (auto simp: checked_mul_def unat_mult_no_overflow mult.commute [of "unat rate"])
    with False show ?thesis by (simp add: mic_settings_valid_def clock_in_window_def)
  qed
qed

lemma unat_bit_clock_hz:
  "unat (bit_clock_hz r b c) = min (2 ^ 32 - 1) (min (2 ^ 32 - 1) (unat r * unat b) * unat c)"
proof -
  have sat: "unat (saturating_mul x y) = min (2 ^ 32 - 1) (unat x * unat y)" for x y :: u32
    by (auto simp: saturating_mul_def checked_mul_def unat_mult_no_overflow unat_minus_one_word_all)
  show ?thesis by (simp add: bit_clock_hz_def sat)
qed

text \<open>The microphone is accepted for a slot width and a sample rate exactly when the bit
  clock they need, computed without any overflow, lies in the documented window and the width
  is between 8 and 32; the clock the firmware displays for an accepted pair is that number.\<close>

theorem mic_settings_valid_exact:
  "(mic_settings_valid bits rate \<longleftrightarrow>
      8 \<le> unat bits \<and> unat bits \<le> 32
      \<and> 1024000 \<le> unat rate * unat bits * 2 \<and> unat rate * unat bits * 2 \<le> 4096000)
   \<and> (mic_settings_valid bits rate \<longrightarrow> unat (bit_clock_hz rate bits 2) = unat rate * unat bits * 2)"
proof -
  have "unat (bit_clock_hz rate bits 2) = unat rate * unat bits * 2"
    if "unat rate * unat bits * 2 \<le> 4096000"
  proof -
    have "min 4294967295 (min 4294967295 p * 2) = p * 2" if "p * 2 \<le> 4096000" for p :: nat
      using that by simp
    from this [OF that] show ?thesis by (simp add: unat_bit_clock_hz)
  qed
  then show ?thesis
    by (simp only: mic_settings_valid_iff clock_in_window_def) blast
qed

theorem mic_settings_valid_exact_witness:
  "mic_settings_valid 32 16000 \<and> unat (bit_clock_hz 16000 32 2) = 1024000"
proof -
  have "mic_settings_valid 32 16000"
    using mic_settings_valid_exact [of 32 16000] by simp
  then show ?thesis using mic_settings_valid_exact [of 32 16000] by simp
qed

section \<open>Samples\<close>

definition slot_sample :: "u32 \<Rightarrow> u32 \<Rightarrow> i16" where
  "slot_sample word bits_per_channel_slot =
     (let bits = min (max (unat bits_per_channel_slot) 1) 32
      in if bits \<ge> 16 then ucast (drop_bit (bits - 16) word)
         else ucast (push_bit (16 - bits) word))"

text \<open>\<open>raw.iter().step_by(2)\<close> and the loop that fills \<open>pcm\<close>.\<close>

fun step_by_2 :: "'a list \<Rightarrow> 'a list" where
  "step_by_2 [] = []"
| "step_by_2 [x] = [x]"
| "step_by_2 (x # _ # xs) = x # step_by_2 xs"

fun fill_from :: "(u32 \<Rightarrow> i16) \<Rightarrow> i16 list \<Rightarrow> u32 list \<Rightarrow> i16 list" where
  "fill_from f [] ws = []"
| "fill_from f (d # ds) [] = d # ds"
| "fill_from f (d # ds) (w # ws) = f w # fill_from f ds ws"

definition extract_left_channel_pcm :: "u32 list \<Rightarrow> i16 list \<Rightarrow> u32 \<Rightarrow> i16 list" where
  "extract_left_channel_pcm raw pcm bits = fill_from (\<lambda>w. slot_sample w bits) pcm (step_by_2 raw)"

lemma length_step_by_2: "length (step_by_2 xs) = (length xs + 1) div 2"
  by (induction xs rule: step_by_2.induct) auto

lemma step_by_2_nth: "2 * i < length xs \<Longrightarrow> step_by_2 xs ! i = xs ! (2 * i)"
  by (induction xs arbitrary: i rule: step_by_2.induct) (auto simp: nth_Cons split: nat.splits)

lemma fill_from_eq:
  "fill_from f ds ws = map f (take (length ds) ws) @ drop (length ws) ds"
  by (induction f ds ws rule: fill_from.induct) auto

text \<open>The bits of a sample are the top bits of the slot, most significant first.\<close>

lemma bit_slot_sample:
  assumes "1 \<le> unat bits" and "unat bits \<le> 32" and "n < 16"
  shows "bit (slot_sample w bits) n \<longleftrightarrow> 16 \<le> unat bits + n \<and> bit w (unat bits + n - 16)"
proof (cases "16 \<le> unat bits")
  case True
  with assms show ?thesis
    by (auto simp: slot_sample_def Let_def bit_ucast_iff bit_drop_bit_eq add.commute
        dest: bit_imp_le_length)
next
  case False
  have "n - (16 - unat bits) = unat bits + n - 16" using False by linarith
  with False assms show ?thesis
    by (auto simp: slot_sample_def Let_def bit_ucast_iff bit_push_bit_iff)
qed



section \<open>The level meter\<close>

function isqrt_loop :: "nat \<Rightarrow> nat \<Rightarrow> nat \<Rightarrow> nat" where
  "isqrt_loop v x y = (if y < x then isqrt_loop v y ((y + v div y) div 2) else x)"
  by pat_completeness auto
termination
  by (relation "measure (\<lambda>(_, x, _). x)") auto

declare isqrt_loop.simps [simp del]

definition integer_sqrt :: "nat \<Rightarrow> nat" where
  "integer_sqrt v = (if v = 0 then 0 else isqrt_loop v v (div_ceil v 2))"

definition LEVEL_WINDOWS :: nat where "LEVEL_WINDOWS = 8"

definition median :: "nat list \<Rightarrow> nat" where
  "median vs = (if vs = [] then 0 else sort vs ! (length vs div 2))"

text \<open>One window's level: the root of the mean square around the window's own mean, with the
  language's truncating division.\<close>

definition window_level :: "int list \<Rightarrow> nat" where
  "window_level xs =
     (let n = int (length xs);
          mean = trunc_div (sum_list xs) n;
          sum_sq = sum_list (map (\<lambda>x. (x - mean) * (x - mean)) xs)
      in integer_sqrt (nat (trunc_div sum_sq n)))"

definition windowed_ac_level :: "nat \<Rightarrow> (nat \<Rightarrow> int) \<Rightarrow> nat" where
  "windowed_ac_level len sample =
     (if len = 0 then 0
      else median (concat (map (\<lambda>window.
             let start = window * len div LEVEL_WINDOWS;
                 stop = (window + 1) * len div LEVEL_WINDOWS
             in if stop \<le> start then [] else [window_level (map sample [start..<stop])])
           [0..<LEVEL_WINDOWS])))"

definition ac_rms_level :: "i16 list \<Rightarrow> nat" where
  "ac_rms_level ss = windowed_ac_level (length ss) (\<lambda>i. sint (ss ! i))"

text \<open>Newton's iteration computes the floor of the square root.\<close>

lemma newton_above: "0 < x \<Longrightarrow> v < ((x + v div x) div 2 + 1) * ((x + v div x) div 2 + 1)" for v x :: nat
proof -
  assume x: "0 < x"
  define q where "q = v div x"
  define h where "h = (x + q) div 2 + 1"
  have "v < x * (q + 1)"
    using x by (simp add: q_def dividend_less_times_div mult.commute)
  moreover have "x + q + 1 \<le> 2 * h" by (simp add: h_def)
  then have "4 * (x * (q + 1)) \<le> 4 * (h * h)"
  proof -
    have "4 * (int x * (int q + 1)) \<le> (int x + int q + 1) * (int x + int q + 1)"
      using zero_le_square [of "int x - int q - 1"] by (simp add: algebra_simps)
    also have "\<dots> \<le> (2 * int h) * (2 * int h)"
      using \<open>x + q + 1 \<le> 2 * h\<close> by (intro mult_mono) auto
    finally have "int (4 * (x * (q + 1))) \<le> int (4 * (h * h))" by (simp add: algebra_simps)
    then show ?thesis by (simp only: of_nat_le_iff)
  qed
  ultimately show ?thesis by (simp add: h_def q_def)
qed

lemma isqrt_loop_correct:
  assumes "0 < v" and "0 < x" and "v < (y + 1) * (y + 1)" and "x * x \<le> v \<or> y < x" and "0 < y"
    and "y \<ge> x \<Longrightarrow> x * x \<le> v" and "v < (x + 1) * (x + 1)"
  shows "isqrt_loop v x y * isqrt_loop v x y \<le> v
    \<and> v < (isqrt_loop v x y + 1) * (isqrt_loop v x y + 1)"
  using assms
proof (induction v x y rule: isqrt_loop.induct)
  case (1 v x y)
  show ?case
  proof (cases "y < x")
    case True
    let ?z = "(y + v div y) div 2"
    have z: "v < (?z + 1) * (?z + 1)" using "1.prems"(5) by (rule newton_above)
    have square: "y * y \<le> v" if "y \<le> ?z"
    proof -
      have "y \<le> v div y" using that by linarith
      then show ?thesis
        by (meson div_le_dividend div_times_less_eq_dividend le_trans mult_le_mono1)
    qed
    have "0 < ?z"
    proof (rule ccontr)
      assume "\<not> 0 < ?z"
      then have "?z = 0" by simp
      with z have "v < 1" by simp
      with "1.prems"(1) show False by simp
    qed
    moreover have "isqrt_loop v x y = isqrt_loop v y ?z"
      using True by (simp add: isqrt_loop.simps [of v x y])
    moreover have "y * y \<le> v \<or> ?z < y" using square by linarith
    ultimately show ?thesis
      using "1.IH" [OF True "1.prems"(1) "1.prems"(5) z _ _ square "1.prems"(3)] by simp
  next
    case False
    with "1.prems" show ?thesis by (simp add: isqrt_loop.simps [of v x y])
  qed
qed

lemma integer_sqrt_spec:
  "integer_sqrt v * integer_sqrt v \<le> v \<and> v < (integer_sqrt v + 1) * (integer_sqrt v + 1)"
proof (cases "v = 0")
  case False
  define y where "y = div_ceil v 2"
  have y: "v \<le> 2 * y" "0 < y" "y \<le> v" "v \<noteq> 1 \<Longrightarrow> y < v"
    using False by (auto simp: y_def div_ceil_def) presburger+
  have "v < (y + 1) * (y + 1)" using y(1) by (simp add: algebra_simps)
  moreover have "v * v \<le> v" if "v \<le> y"
  proof -
    have "v = 1" using that y(4) by linarith
    then show ?thesis by simp
  qed
  moreover have "v < (v + 1) * (v + 1)" by simp
  ultimately have "isqrt_loop v v y * isqrt_loop v v y \<le> v
      \<and> v < (isqrt_loop v v y + 1) * (isqrt_loop v v y + 1)"
    using False y by (intro isqrt_loop_correct) (auto simp: not_less)
  with False show ?thesis by (simp add: integer_sqrt_def y_def)
qed (simp add: integer_sqrt_def)

lemma integer_sqrt_0 [simp]: "integer_sqrt 0 = 0"
  by (simp add: integer_sqrt_def)

lemma length_filter_sort: "length (filter P (sort xs)) = length (filter P xs)"
  by (metis mset_filter mset_sort size_mset)

lemma median_le:
  assumes "length vs div 2 < length (filter (\<lambda>x. x \<le> L) vs)"
  shows "median vs \<le> L"
proof (rule ccontr)
  let ?s = "sort vs" and ?m = "length vs div 2"
  assume "\<not> median vs \<le> L"
  then have m: "vs \<noteq> []" "L < ?s ! ?m" by (auto simp: median_def split: if_splits)
  then have "?m < length ?s" by simp
  have "filter (\<lambda>x. x \<le> L) (drop ?m ?s) = []"
  proof (rule filter_False, rule ballI)
    fix x assume "x \<in> set (drop ?m ?s)"
    then obtain i where "i < length ?s - ?m" "x = ?s ! (?m + i)" by (auto simp: in_set_conv_nth)
    with \<open>?m < length ?s\<close> have "?s ! ?m \<le> x" by (simp add: sorted_nth_mono)
    with m show "\<not> x \<le> L" by simp
  qed
  then have "filter (\<lambda>x. x \<le> L) ?s = filter (\<lambda>x. x \<le> L) (take ?m ?s)"
    by (metis append_Nil2 append_take_drop_id filter_append)
  then have "length (filter (\<lambda>x. x \<le> L) ?s) \<le> ?m"
    by (metis length_filter_le length_take min.coboundedI2 min.bounded_iff)
  with assms show False by (simp add: length_filter_sort)
qed

lemma median_ge:
  assumes "length vs - length vs div 2 \<le> length (filter (\<lambda>x. L \<le> x) vs)" and "vs \<noteq> []"
  shows "L \<le> median vs"
proof (rule ccontr)
  let ?s = "sort vs" and ?m = "length vs div 2"
  assume "\<not> L \<le> median vs"
  then have m: "?s ! ?m < L" using assms(2) by (simp add: median_def)
  have len: "?m < length ?s" using assms(2) by simp
  have "filter (\<lambda>x. L \<le> x) (take (Suc ?m) ?s) = []"
  proof (rule filter_False, rule ballI)
    fix x assume "x \<in> set (take (Suc ?m) ?s)"
    then obtain i where "i \<le> ?m" "x = ?s ! i" using len by (auto simp: in_set_conv_nth less_Suc_eq_le)
    with len have "x \<le> ?s ! ?m" by (simp add: sorted_nth_mono)
    with m show "\<not> L \<le> x" by simp
  qed
  then have "filter (\<lambda>x. L \<le> x) ?s = filter (\<lambda>x. L \<le> x) (drop (Suc ?m) ?s)"
    by (metis append_Nil append_take_drop_id filter_append)
  then have "length (filter (\<lambda>x. L \<le> x) ?s) \<le> length vs - Suc ?m"
    by (metis length_drop length_filter_le length_sort)
  then have "length (filter (\<lambda>x. L \<le> x) vs) \<le> length vs - Suc ?m"
    by (simp add: length_filter_sort)
  with assms(1) len show False unfolding length_sort by linarith
qed

text \<open>The windows of a chunk.\<close>

definition level_windows :: "'a list \<Rightarrow> 'a list list" where
  "level_windows ss = map (\<lambda>k. take ((k + 1) * length ss div LEVEL_WINDOWS - k * length ss div LEVEL_WINDOWS)
      (drop (k * length ss div LEVEL_WINDOWS) ss)) [0..<LEVEL_WINDOWS]"

lemma map_nth_upt: "b \<le> length ss \<Longrightarrow> map (\<lambda>i. ss ! i) [a..<b] = take (b - a) (drop a ss)"
  by (rule nth_equalityI) auto

lemma concat_map_single: "concat (map (\<lambda>x. [f x]) xs) = map f xs"
  by (induction xs) auto

lemma ac_rms_level_windows:
  assumes "8 \<le> length ss"
  shows "ac_rms_level ss = median (map (\<lambda>w. window_level (map sint w)) (level_windows ss))"
proof -
  have pos: "k * length ss div 8 < (k + 1) * length ss div 8" for k
  proof -
    have "k * length ss div 8 + 1 = (k * length ss + 8) div 8" by simp
    also have "\<dots> \<le> (k * length ss + length ss) div 8"
      using assms by (intro div_le_mono) simp
    finally show ?thesis by (simp add: add.commute)
  qed
  have bound: "(k + 1) * length ss div 8 \<le> length ss" if "k < 8" for k
  proof -
    have "(k + 1) * length ss \<le> 8 * length ss" using that by (intro mult_le_mono1) simp
    then have "(k + 1) * length ss div 8 \<le> 8 * length ss div 8" by (rule div_le_mono)
    then show ?thesis by simp
  qed
  have win: "map (\<lambda>i. sint (ss ! i)) [k * length ss div 8..<(k + 1) * length ss div 8]
      = map sint (take ((k + 1) * length ss div 8 - k * length ss div 8) (drop (k * length ss div 8) ss))"
    if "k < 8" for k
    by (subst map_nth_upt [OF bound [OF that], symmetric]) simp
  have "ac_rms_level ss = median (map (\<lambda>k. window_level (map sint
      (take ((k + 1) * length ss div 8 - k * length ss div 8) (drop (k * length ss div 8) ss)))) [0..<8])"
    (is "_ = median (map ?f _)")
  proof -
    have "concat (map (\<lambda>k. if (k + 1) * length ss div 8 \<le> k * length ss div 8 then []
        else [window_level (map (\<lambda>i. sint (ss ! i)) [k * length ss div 8..<(k + 1) * length ss div 8])]) [0..<8])
        = concat (map (\<lambda>k. [?f k]) [0..<8])"
      using pos win by (intro arg_cong [where f = concat] map_cong) (auto simp: not_le)
    then show ?thesis
      using assms by (simp only: ac_rms_level_def windowed_ac_level_def LEVEL_WINDOWS_def Let_def
          concat_map_single) auto
  qed
  then show ?thesis by (simp only: level_windows_def LEVEL_WINDOWS_def map_map comp_def)
qed

lemma length_level_windows [simp]: "length (level_windows ss) = 8"
  by (simp add: level_windows_def LEVEL_WINDOWS_def)

text \<open>A window without any variation has level 0, whatever its offset.\<close>

lemma trunc_div_exact [simp]: "0 < n \<Longrightarrow> trunc_div (n * c) n = c"
  by (cases "c = 0") (auto simp: trunc_div_def sgn_if abs_mult zero_less_mult_iff)

lemma window_level_const:
  "window_level (replicate n c) = 0"
proof (cases "n = 0")
  case False
  have "sum_list (replicate n c) = int n * c" by (simp add: sum_list_replicate)
  moreover have "sum_list (map (\<lambda>x. (x - c) * (x - c)) (replicate n c)) = 0"
    by (simp add: sum_list_replicate)
  ultimately show ?thesis
    using False by (simp only: window_level_def Let_def length_replicate trunc_div_exact of_nat_0_less_iff)
      (simp add: trunc_div_def)
qed (simp add: window_level_def trunc_div_def)

text \<open>C31: The level meter is robust and honest. For a chunk of at least eight samples: the level
  is at most \<open>L\<close> as soon as five of the eight windows are (so up to three windows, however
  large their spikes, cannot raise it), and at least \<open>L\<close> as soon as four windows are.\<close>

theorem level_is_robust_median:
  fixes ss :: "i16 list" and L :: nat
  assumes "8 \<le> length ss"
  defines "levels \<equiv> map (\<lambda>w. window_level (map sint w)) (level_windows ss)"
  shows "(5 \<le> length (filter (\<lambda>x. x \<le> L) levels) \<longrightarrow> ac_rms_level ss \<le> L)
    \<and> (4 \<le> length (filter (\<lambda>x. L \<le> x) levels) \<longrightarrow> L \<le> ac_rms_level ss)"
proof -
  have "length levels = 8" by (simp add: levels_def)
  moreover from this have "levels \<noteq> []" by auto
  moreover have "ac_rms_level ss = median levels"
    using ac_rms_level_windows [OF assms(1)] by (simp add: levels_def)
  ultimately show ?thesis
    using median_le [of levels L] median_ge [of levels L] by auto
qed

theorem level_is_robust_median_witness:
  "ac_rms_level [5, 5, 5, 5, 5, 5, 32000, 5] \<le> 0"
proof -
  have "level_windows [5, 5, 5, 5, 5, 5, 32000, 5 :: i16] = [[5], [5], [5], [5], [5], [5], [32000], [5]]"
    by (simp add: level_windows_def LEVEL_WINDOWS_def upt_rec)
  moreover have "window_level [x] = 0" for x
    using window_level_const [of 1 x] by simp
  ultimately show ?thesis
    using level_is_robust_median [of "[5, 5, 5, 5, 5, 5, 32000, 5]" 0] by simp
qed

text \<open>The integer square root under the meter is the floor of the root for every input (and
  its loop ends), and a constant chunk - a microphone on its offset - reads exactly 0.\<close>

theorem integer_sqrt_floor:
  "integer_sqrt v * integer_sqrt v \<le> v \<and> v < (integer_sqrt v + 1) * (integer_sqrt v + 1)
   \<and> ac_rms_level (replicate n c) = 0"
proof -
  have "map (\<lambda>i. sint (replicate n c ! i)) [a..<b] = replicate (b - a) (sint c)" if "b \<le> n" for a b
    using that by (intro nth_equalityI) auto
  moreover have "(k + 1) * n div 8 \<le> n" if "k < 8" for k
    using that by (metis Suc_eq_plus1 Suc_leI div_le_mono mult_le_mono1 nonzero_mult_div_cancel_left zero_neq_numeral)
  ultimately have "concat (map (\<lambda>k. if (k + 1) * n div 8 \<le> k * n div 8 then []
        else [window_level (map (\<lambda>i. sint (replicate n c ! i)) [k * n div 8..<(k + 1) * n div 8])]) [0..<8])
      = concat (map (\<lambda>k. if (k + 1) * n div 8 \<le> k * n div 8 then [] else [0]) [0..<8])" (is "?l = ?r")
    by (intro arg_cong [where f = concat] map_cong) (auto simp: window_level_const)
  moreover have "set ?r \<subseteq> {0}" by auto
  then have "median ?r = 0"
  proof (cases "?r = []")
    case False
    then have "sort ?r ! (length ?r div 2) \<in> set (sort ?r)"
      by (intro nth_mem) simp
    with \<open>set ?r \<subseteq> {0}\<close> False show ?thesis by (auto simp: median_def)
  qed (simp add: median_def)
  ultimately have "ac_rms_level (replicate n c) = 0"
    by (simp only: ac_rms_level_def windowed_ac_level_def LEVEL_WINDOWS_def Let_def length_replicate) simp
  with integer_sqrt_spec [of v] show ?thesis by simp
qed

end
