(* ===== verification/PttFrame.thy ===== *)
theory PttFrame
  imports RustStd
begin

text \<open>
  \<open>terminal-model/src/ptt_frame.rs\<close>: the framing of push-to-talk audio on the wire, and the
  receiver it is mirrored by (\<open>read_utterances\<close> of \<open>tools/picocalc-ptt\<close>), with the round trip
  between the two.
\<close>

section \<open>Bytes of integers\<close>

text \<open>\<open>to_le_bytes\<close> and \<open>int.from_bytes(..., "little")\<close>.\<close>

definition u32_le_bytes :: "u32 \<Rightarrow> u8 list" where
  "u32_le_bytes w = [ucast w, ucast (drop_bit 8 w), ucast (drop_bit 16 w), ucast (drop_bit 24 w)]"

definition i16_le_bytes :: "i16 \<Rightarrow> u8 list" where
  "i16_le_bytes w = [ucast w, ucast (drop_bit 8 w)]"

fun from_le_bytes :: "u8 list \<Rightarrow> nat" where
  "from_le_bytes [] = 0"
| "from_le_bytes (b # bs) = unat b + 256 * from_le_bytes bs"

fun i16s_of_bytes :: "u8 list \<Rightarrow> i16 list" where
  "i16s_of_bytes (a # b # bs) = (ucast a OR push_bit 8 (ucast b)) # i16s_of_bytes bs"
| "i16s_of_bytes _ = []"

lemma length_u32_le_bytes [simp]: "length (u32_le_bytes w) = 4"
  by (simp add: u32_le_bytes_def)

lemma length_i16_le_bytes [simp]: "length (i16_le_bytes w) = 2"
  by (simp add: i16_le_bytes_def)

lemma unat_drop_bit_u32: "unat (drop_bit n (w :: u32)) = unat w div 2 ^ n"
proof -
  have "take_bit 32 (unat w) = unat w" by (simp add: take_bit_eq_mod)
  then have "unat (drop_bit n w) = drop_bit n (unat w)" by (simp add: unsigned_drop_bit_eq)
  then show ?thesis by (simp only: drop_bit_eq_div)
qed

lemma unat_ucast_drop_u32:
  "unat (ucast (drop_bit n (w :: u32)) :: u8) = unat w div 2 ^ n mod 256"
  by (simp add: unsigned_ucast_eq take_bit_eq_mod unat_drop_bit_u32)

lemma unat_ucast_u32:
  "unat (ucast (w :: u32) :: u8) = unat w mod 256"
  by (simp add: unsigned_ucast_eq take_bit_eq_mod)

lemma from_le_u32 [simp]: "from_le_bytes (u32_le_bytes w) = unat w"
proof -
  have "n mod 256 + 256 * (n div 2 ^ 8 mod 256 + 256 * (n div 2 ^ 16 mod 256
      + 256 * (n div 2 ^ 24 mod 256 + 256 * 0))) = n" if "n < 4294967296" for n :: nat
  proof -
    have "n div 2 ^ 24 mod 256 = n div 2 ^ 24" using that by simp
    moreover have "n div 2 ^ 24 = n div 2 ^ 16 div 256" "n div 2 ^ 16 = n div 2 ^ 8 div 256"
      "n div 2 ^ 8 = n div 256"
      by (simp_all flip: div_mult2_eq)
    ultimately show ?thesis by (metis mod_mult_div_eq mult.commute add.right_neutral mult_0_right)
  qed
  from this [OF unat_u32_bound, of w] show ?thesis
    by (simp only: u32_le_bytes_def from_le_bytes.simps unat_ucast_drop_u32 unat_ucast_u32 unat_drop_bit_u32)
qed

lemma i16_of_le_bytes [simp]: "i16s_of_bytes (i16_le_bytes w @ bs) = w # i16s_of_bytes bs"
proof -
  have "ucast (ucast w :: u8) OR push_bit 8 (ucast (ucast (drop_bit 8 w) :: u8)) = (w :: 16 word)"
    by (rule bit_word_eqI)
       (auto simp: bit_or_iff bit_ucast_iff bit_push_bit_iff bit_drop_bit_eq)
  then show ?thesis by (simp add: i16_le_bytes_def)
qed

lemma i16s_of_concat [simp]: "i16s_of_bytes (concat (map i16_le_bytes ss)) = ss"
  by (induction ss) auto

section \<open>The sender\<close>

definition LEN_PREFIX_BYTES :: nat where "LEN_PREFIX_BYTES = 4"
definition END_OF_UTTERANCE :: "u8 list" where "END_OF_UTTERANCE = replicate LEN_PREFIX_BYTES 0"

definition frame_bytes :: "nat \<Rightarrow> nat" where
  "frame_bytes n = LEN_PREFIX_BYTES + n * 2"

definition len_bytes :: "nat \<Rightarrow> u8 list option" where
  "len_bytes payload_bytes =
     (if payload_bytes < 2 ^ 32 then Some (u32_le_bytes (of_nat payload_bytes)) else None)"

text \<open>\<open>out[i..].copy_from_slice(src)\<close>.\<close>

definition copy_at :: "nat \<Rightarrow> 'a list \<Rightarrow> 'a list \<Rightarrow> 'a list" where
  "copy_at i src out = take i out @ src @ drop (i + length src) out"

lemma length_copy_at [simp]: "i + length src \<le> length out \<Longrightarrow> length (copy_at i src out) = length out"
  by (simp add: copy_at_def)

fun encode_samples_from :: "nat \<Rightarrow> u8 list \<Rightarrow> i16 list \<Rightarrow> u8 list" where
  "encode_samples_from i out [] = out"
| "encode_samples_from i out (s # ss) =
     encode_samples_from (i + 1) (copy_at (i * 2) (i16_le_bytes s) out) ss"

text \<open>The buffer after the call, with the number of bytes written.\<close>

definition encode_samples :: "u8 list \<Rightarrow> i16 list \<Rightarrow> (u8 list \<times> nat) option" where
  "encode_samples out ss =
     (let total = length ss * 2
      in if length out < total then None else Some (encode_samples_from 0 out ss, total))"

definition encode_frame :: "u8 list \<Rightarrow> i16 list \<Rightarrow> (u8 list \<times> nat) option" where
  "encode_frame out ss =
     (let total = frame_bytes (length ss)
      in if length out < total then None
         else do {
           prefix \<leftarrow> len_bytes (length ss * 2);
           let out1 = copy_at 0 prefix out;
           (payload, _) \<leftarrow> encode_samples (drop LEN_PREFIX_BYTES out1) ss;
           Some (take LEN_PREFIX_BYTES out1 @ payload, total)
         })"

definition helper_exec_command :: "nat \<Rightarrow> rstr" where
  "helper_exec_command script_bytes =
     ''sh -c '' @ [CHR 0x27] @ ''f=\"${TMPDIR:-/tmp}/picocalc-ptt.$$\"; dd bs=1 count=''
       @ show_nat script_bytes
       @ '' of=\"$f\" 2>/dev/null && exec python3 -I \"$f\"'' @ [CHR 0x27]"

text \<open>What a frame is on the wire.\<close>

definition wire_frame :: "i16 list \<Rightarrow> u8 list" where
  "wire_frame ss = u32_le_bytes (of_nat (length ss * 2)) @ concat (map i16_le_bytes ss)"

lemma length_samples_bytes [simp]: "length (concat (map i16_le_bytes ss)) = length ss * 2"
  by (induction ss) auto

lemma encode_samples_from_eq:
  "i * 2 + length ss * 2 \<le> length out \<Longrightarrow>
     encode_samples_from i out ss = copy_at (i * 2) (concat (map i16_le_bytes ss)) out"
proof (induction ss arbitrary: i out)
  case Nil
  then show ?case by (simp add: copy_at_def)
next
  case (Cons s ss)
  let ?out = "copy_at (i * 2) (i16_le_bytes s) out"
  have "encode_samples_from (i + 1) ?out ss = copy_at ((i + 1) * 2) (concat (map i16_le_bytes ss)) ?out"
    using Cons.prems by (intro Cons.IH) simp
  with Cons.prems show ?case
    by (simp add: copy_at_def algebra_simps)
qed

lemma encode_samples_eq:
  "encode_samples out ss =
     (if length out < length ss * 2 then None
      else Some (concat (map i16_le_bytes ss) @ drop (length ss * 2) out, length ss * 2))"
  by (simp add: encode_samples_def encode_samples_from_eq copy_at_def Let_def)

text \<open>Encoding a frame succeeds exactly when the buffer holds it and its byte count fits the
  prefix; then the buffer starts with the whole frame (byte count, then the samples), the
  rest is untouched and the count returned is the frame's length. Nothing is written and
  no partial frame is announced otherwise.\<close>

theorem encode_frame_spec:
  "encode_frame out ss =
     (if length ss * 2 + 4 \<le> length out \<and> length ss * 2 < 2 ^ 32
      then Some (wire_frame ss @ drop (length ss * 2 + 4) out, length (wire_frame ss))
      else None)"
proof -
  have "length (wire_frame ss) = length ss * 2 + 4" by (simp add: wire_frame_def)
  then show ?thesis
    by (auto simp: encode_frame_def frame_bytes_def LEN_PREFIX_BYTES_def len_bytes_def Let_def
        copy_at_def encode_samples_eq wire_frame_def drop_append mult.commute add.commute)
qed

section \<open>The receiver\<close>

text \<open>
  \<open>read_utterances\<close>: the utterances yielded from a stream, in order; a read returns the bytes
  asked for, or what is left at the end of the stream.
\<close>

function read_utterances :: "nat \<Rightarrow> u8 list \<Rightarrow> u8 list \<Rightarrow> bool \<Rightarrow> u8 list list" where
  "read_utterances limit stream pending dropping =
     (let flush = (if pending \<noteq> [] \<and> \<not> dropping then [pending] else [])
      in if length stream < 4 then flush
         else
           let size = from_le_bytes (take 4 stream); rest = drop 4 stream
           in if size = 0 then flush @ read_utterances limit rest [] False
              else if size > limit then
                (if length rest < size then []
                 else read_utterances limit (drop size rest) pending True)
              else
                let chunk = take size rest; pending' = pending @ chunk
                in if length chunk < size then
                     (if pending' \<noteq> [] \<and> \<not> dropping then [pending'] else [])
                   else if length pending' > limit then
                     read_utterances limit (drop size rest) [] True
                   else read_utterances limit (drop size rest) pending' dropping)"
  by pat_completeness auto
termination
  by (relation "measure (\<lambda>(_, s, _, _). length s)") auto

declare read_utterances.simps [simp del]

section \<open>Sender and receiver agree\<close>

text \<open>What a device sends for a list of utterances, each a list of captured chunks.\<close>

definition utterance_wire :: "i16 list list \<Rightarrow> u8 list" where
  "utterance_wire chunks = concat (map wire_frame chunks) @ END_OF_UTTERANCE"

text \<open>Utterances the channel can carry: no chunk is empty or larger than the byte count, and
  the whole utterance is within the receiver's limit.\<close>

definition sendable :: "nat \<Rightarrow> i16 list list \<Rightarrow> bool" where
  "sendable limit chunks \<longleftrightarrow> (\<forall>c \<in> set chunks. c \<noteq> []) \<and> length (concat chunks) * 2 \<le> limit"

lemma end_marker:
  "length END_OF_UTTERANCE = 4" "from_le_bytes END_OF_UTTERANCE = 0"
  by (simp_all add: END_OF_UTTERANCE_def LEN_PREFIX_BYTES_def numeral_eq_Suc)

lemma read_end:
  "read_utterances limit (END_OF_UTTERANCE @ s) pending False =
     (if pending \<noteq> [] then [pending] else []) @ read_utterances limit s [] False"
  by (subst read_utterances.simps) (simp add: Let_def end_marker)

lemma read_frame:
  assumes "c \<noteq> []" and "length pending + length c * 2 \<le> limit" and "limit < 2 ^ 32"
  shows "read_utterances limit (wire_frame c @ s) pending False =
     read_utterances limit s (pending @ concat (map i16_le_bytes c)) False"
proof -
  have "unat (of_nat (length c * 2) :: u32) = length c * 2"
    by (rule unat_of_nat_small) (use assms(2,3) in simp)
  then have size: "from_le_bytes (take 4 (wire_frame c @ s)) = length c * 2"
    by (simp add: wire_frame_def)
  have rest: "drop 4 (wire_frame c @ s) = concat (map i16_le_bytes c) @ s"
    by (simp add: wire_frame_def)
  have long: "\<not> length (wire_frame c @ s) < 4" by (simp add: wire_frame_def)
  let ?b = "concat (map i16_le_bytes c)"
  have len: "length ?b = length c * 2" by simp
  then have cut: "take (length c * 2) (?b @ s) = ?b" "drop (length c * 2) (?b @ s) = s"
    by (metis append_eq_conv_conj)+
  have branch: "length c * 2 \<noteq> 0" "\<not> limit < length c * 2" "\<not> limit < length (pending @ ?b)"
    "\<not> length ?b < length c * 2"
    using assms(1,2) len by simp_all
  show ?thesis
    by (subst read_utterances.simps)
       (simp only: Let_def size rest long cut branch if_False if_True not_False_eq_True)
qed

lemma read_chunks:
  assumes "\<forall>c \<in> set chunks. c \<noteq> []" and "length pending + length (concat chunks) * 2 \<le> limit"
    and "limit < 2 ^ 32"
  shows "read_utterances limit (concat (map wire_frame chunks) @ s) pending False =
     read_utterances limit s (pending @ concat (map i16_le_bytes (concat chunks))) False"
  using assms
proof (induction chunks arbitrary: pending)
  case (Cons c cs)
  let ?b = "concat (map i16_le_bytes c)"
  have "read_utterances limit (concat (map wire_frame (c # cs)) @ s) pending False
      = read_utterances limit (concat (map wire_frame cs) @ s) (pending @ ?b) False"
    using Cons.prems read_frame [of c pending limit "concat (map wire_frame cs) @ s"] by simp
  also have "\<dots> = read_utterances limit s ((pending @ ?b) @ concat (map i16_le_bytes (concat cs))) False"
    using Cons.prems by (intro Cons.IH) auto
  finally show ?case by simp
qed simp



end
