(* ===== verification/KeyFile.thy ===== *)
theory KeyFile
  imports RustStd
begin

text \<open>
  \<open>terminal-model/src/keyfile.rs\<close>: the text form of the SSH key's seed, as the flash store and
  the SD-card backup hold it, with every way a text can be refused.
\<close>

section \<open>The codec\<close>

definition SEED_LEN :: nat where "SEED_LEN = 32"
definition HEX_LEN :: nat where "HEX_LEN = SEED_LEN * 2"

datatype key_file_error =
    Empty
  | WrongLength nat
  | InvalidHex nat

definition show_key_file_error :: "key_file_error \<Rightarrow> rstr" where
  "show_key_file_error e =
     (case e of
        Empty \<Rightarrow> ''the file is empty''
      | WrongLength found \<Rightarrow>
          ''expected '' @ show_nat HEX_LEN @ '' hex characters, found '' @ show_nat found
      | InvalidHex offset \<Rightarrow> ''character '' @ show_nat (offset + 1) @ '' is not a hex digit'')"

definition HEX_CHARS :: rstr where "HEX_CHARS = ''0123456789abcdef''"

fun encode_from :: "nat \<Rightarrow> rstr \<Rightarrow> u8 list \<Rightarrow> rstr" where
  "encode_from i out [] = out"
| "encode_from i out (b # bs) =
     encode_from (i + 1)
       (out[i * 2 := HEX_CHARS ! unat (drop_bit 4 b), i * 2 + 1 := HEX_CHARS ! unat (b AND 0x0f)]) bs"

definition encode_seed :: "u8 list \<Rightarrow> rstr" where
  "encode_seed seed = encode_from 0 (replicate HEX_LEN (CHR 0x00)) seed"

definition hex_val :: "char \<Rightarrow> u8 option" where
  "hex_val ch =
     (let c = nat_of_byte ch
      in if 48 \<le> c \<and> c \<le> 57 then Some (of_nat (c - 48))
         else if 97 \<le> c \<and> c \<le> 102 then Some (of_nat (c - 97 + 10))
         else if 65 \<le> c \<and> c \<le> 70 then Some (of_nat (c - 65 + 10))
         else None)"

text \<open>The loop over the pairs of characters; the text has an even length there.\<close>

fun decode_from :: "nat \<Rightarrow> u8 list \<Rightarrow> rstr \<Rightarrow> key_file_error + u8 list" where
  "decode_from i out (a # b # cs) =
     (case hex_val a of
        None \<Rightarrow> Inl (InvalidHex (i * 2))
      | Some hi \<Rightarrow>
          (case hex_val b of
             None \<Rightarrow> Inl (InvalidHex (i * 2 + 1))
           | Some lo \<Rightarrow> decode_from (i + 1) (out[i := push_bit 4 hi OR lo]) cs))"
| "decode_from i out _ = Inr out"

definition decode_hex :: "rstr \<Rightarrow> key_file_error + u8 list" where
  "decode_hex s =
     (if s = [] then Inl Empty
      else if length s \<noteq> HEX_LEN then Inl (WrongLength (length s))
      else decode_from 0 (replicate SEED_LEN 0) s)"

definition decode_seed_exact :: "rstr \<Rightarrow> u8 list option" where
  "decode_seed_exact s = (case decode_hex s of Inl _ \<Rightarrow> None | Inr seed \<Rightarrow> Some seed)"

text \<open>Only ASCII characters can be ASCII white space, so trimming works on the bytes.\<close>

definition decode_seed_file :: "rstr \<Rightarrow> key_file_error + u8 list" where
  "decode_seed_file s = decode_hex (trim_both (\<lambda>c. is_ascii_whitespace (nat_of_byte c)) s)"

section \<open>Digits\<close>

text \<open>The sixteen digits, in both directions, decided by evaluation.\<close>

lemma HEX_CHARS_length [simp]: "length HEX_CHARS = 16"
  by (simp add: HEX_CHARS_def)

lemma hex_val_digit_all:
  "list_all (\<lambda>n. hex_val (HEX_CHARS ! n) = Some (of_nat n)) [0..<16]"
  by (simp add: HEX_CHARS_def hex_val_def upt_rec)

lemma hex_val_digit [simp]: "n < 16 \<Longrightarrow> hex_val (HEX_CHARS ! n) = Some (of_nat n)"
  using hex_val_digit_all by (simp add: list_all_length)

definition hex_pair :: "u8 \<Rightarrow> rstr" where
  "hex_pair b = [HEX_CHARS ! unat (drop_bit 4 b), HEX_CHARS ! unat (b AND 0x0f)]"

lemma nibble_bounds: "unat (drop_bit 4 b) < 16" "unat (b AND 0x0f) < 16" for b :: u8
proof -
  have "drop_bit 4 b = b div 16" by (simp add: drop_bit_eq_div)
  then show "unat (drop_bit 4 b) < 16"
    using unat_u8_bound [of b] by (simp add: unat_div less_mult_imp_div_less)
  have "b AND 0x0f \<le> 0x0f" by (rule word_and_le1)
  then show "unat (b AND 0x0f) < 16" by (simp add: word_le_nat_alt)
qed

lemma nibbles_join: "push_bit 4 (drop_bit 4 b) OR (b AND 0x0f) = b" for b :: u8
proof -
  have "b AND 0x0f = take_bit 4 b" by (simp add: take_bit_eq_mask mask_eq_exp_minus_1)
  then show ?thesis
    by (intro bit_word_eqI) (auto simp: bit_or_iff bit_push_bit_iff bit_drop_bit_eq bit_take_bit_iff)
qed

lemma take_two_updates:
  "Suc k < length xs \<Longrightarrow> take (Suc (Suc k)) (xs[k := a, Suc k := b]) = take k xs @ [a, b]"
  by (rule nth_equalityI) (auto simp: nth_append nth_list_update less_Suc_eq)

lemma length_hex_pair [simp]: "length (hex_pair b) = 2"
  by (simp add: hex_pair_def)

lemma length_concat_hex [simp]: "length (concat (map hex_pair bs)) = 2 * length bs"
  by (induction bs) auto

lemma encode_from_eq:
  "i * 2 + 2 * length bs \<le> length out \<Longrightarrow>
     encode_from i out bs = take (i * 2) out @ concat (map hex_pair bs) @ drop (i * 2 + 2 * length bs) out"
proof (induction i out bs rule: encode_from.induct)
  case (2 i out b bs)
  let ?out = "out[i * 2 := HEX_CHARS ! unat (drop_bit 4 b), i * 2 + 1 := HEX_CHARS ! unat (b AND 0x0f)]"
  have "take ((i + 1) * 2) ?out = take (i * 2) out @ hex_pair b"
    using "2.prems" by (simp add: take_two_updates hex_pair_def)
  moreover have "drop ((i + 1) * 2 + 2 * length bs) ?out = drop (i * 2 + 2 * length (b # bs)) out"
    by simp
  moreover have "encode_from (i + 1) ?out bs = take ((i + 1) * 2) ?out @ concat (map hex_pair bs)
      @ drop ((i + 1) * 2 + 2 * length bs) ?out"
    using "2.prems" by (intro "2.IH") simp
  ultimately show ?case by simp
qed simp

lemma encode_seed_eq: "length seed = SEED_LEN \<Longrightarrow> encode_seed seed = concat (map hex_pair seed)"
  by (simp add: encode_seed_def encode_from_eq HEX_LEN_def)

lemma decode_from_pair:
  "decode_from i out (hex_pair b @ cs) = decode_from (i + 1) (out[i := b]) cs"
  using nibbles_join [of b] nibble_bounds [of b] by (simp add: hex_pair_def)

lemma decode_from_concat:
  "i + length bs \<le> length out \<Longrightarrow>
     decode_from i out (concat (map hex_pair bs)) = Inr (take i out @ bs @ drop (i + length bs) out)"
proof (induction bs arbitrary: i out)
  case (Cons b bs)
  then show ?case
    using Cons.IH [of "i + 1" "out[i := b]"] by (simp add: decode_from_pair take_Suc_conv_app_nth)
qed simp

lemma is_digit_not_white: "n < 16 \<Longrightarrow> \<not> is_ascii_whitespace (nat_of_byte (HEX_CHARS ! n))"
proof -
  have "list_all (\<lambda>n. \<not> is_ascii_whitespace (nat_of_byte (HEX_CHARS ! n))) [0..<16]"
    by (simp add: HEX_CHARS_def is_ascii_whitespace_def upt_rec)
  then show "n < 16 \<Longrightarrow> ?thesis" by (simp add: list_all_length)
qed

lemma trim_both_surrounded:
  assumes "list_all P pre" and "list_all P post" and "xs \<noteq> []" and "\<not> P (hd xs)" and "\<not> P (last xs)"
  shows "trim_both P (pre @ xs @ post) = xs"
proof -
  have "dropWhile P (pre @ xs @ post) = dropWhile P (xs @ post)"
    using assms(1) by (simp add: dropWhile_append2 list_all_iff)
  also have "\<dots> = xs @ post" using assms(3,4) by (cases xs) auto
  finally have front: "dropWhile P (pre @ xs @ post) = xs @ post" .
  have "dropWhile P (rev (xs @ post)) = dropWhile P (rev xs)"
    unfolding rev_append by (rule dropWhile_append2) (use assms(2) in \<open>auto simp: list_all_iff\<close>)
  also have "\<dots> = rev xs"
    using assms(3,5) by (cases "rev xs") (auto simp: last_rev hd_rev)
  finally show ?thesis by (simp add: trim_both_def front)
qed

lemma decode_from_length: "decode_from i out cs = Inr r \<Longrightarrow> length r = length out"
  by (induction i out cs arbitrary: r rule: decode_from.induct) (auto split: option.splits)

lemma decode_hex_length: "decode_hex s = Inr seed \<Longrightarrow> length seed = SEED_LEN"
  using decode_from_length [of 0 "replicate SEED_LEN 0" s seed] by (auto simp: decode_hex_def split: if_splits)

lemma encode_seed_ascii: "length seed = SEED_LEN \<Longrightarrow> is_ascii (encode_seed seed)"
proof -
  have "list_all (\<lambda>n. nat_of_byte (HEX_CHARS ! n) < 128) [0..<16]" by (simp add: HEX_CHARS_def upt_rec)
  then have "is_ascii (hex_pair b)" for b
    using nibble_bounds [of b] unfolding hex_pair_def is_ascii_def list_all_length [of _ "[0..<16]"] by simp
  then have "is_ascii (concat (map hex_pair bs))" for bs by (induction bs) simp_all
  then show "length seed = SEED_LEN \<Longrightarrow> ?thesis" by (simp add: encode_seed_eq)
qed

section \<open>Round trip and errors\<close>

lemma encode_seed_decodes:
  assumes "length seed = SEED_LEN" and "list_all (\<lambda>c. is_ascii_whitespace (nat_of_byte c)) (pre @ post)"
  shows "length (encode_seed seed) = HEX_LEN
    \<and> decode_seed_exact (encode_seed seed) = Some seed
    \<and> decode_seed_file (pre @ encode_seed seed @ post) = Inr seed"
proof -
  let ?t = "concat (map hex_pair seed)"
  have len: "length ?t = HEX_LEN" using assms(1) by (simp add: HEX_LEN_def)
  then have "length ?t \<noteq> 0" by (simp only: HEX_LEN_def SEED_LEN_def)
  then have ne: "?t \<noteq> []" by (rule contrapos_nn) (simp only: list.size)
  have hex: "decode_hex ?t = Inr seed"
    using decode_from_concat [of 0 seed "replicate SEED_LEN 0"] assms(1) len ne
    by (simp add: decode_hex_def)
  have "list_all (\<lambda>c. \<not> is_ascii_whitespace (nat_of_byte c)) (hex_pair b)" for b
    by (simp add: hex_pair_def is_digit_not_white nibble_bounds)
  then have "\<forall>c \<in> set ?t. \<not> is_ascii_whitespace (nat_of_byte c)"
    by (simp add: list_all_iff)
  then have "trim_both (\<lambda>c. is_ascii_whitespace (nat_of_byte c)) (pre @ ?t @ post) = ?t"
    using assms(2) hd_in_set [OF ne] last_in_set [OF ne]
    by (intro trim_both_surrounded ne) (simp_all only: list_all_append not_False_eq_True Ball_def)
  then have "decode_seed_file (pre @ ?t @ post) = Inr seed"
    by (simp only: decode_seed_file_def hex)
  moreover have "decode_seed_exact ?t = Some seed"
    by (simp only: decode_seed_exact_def hex sum.case)
  ultimately show ?thesis
    using len by (simp only: encode_seed_eq [OF assms(1)])
qed

text \<open>The text form is faithful: the 64 characters written for a seed decode back to it both
  as the flash store reads them and as the SD-card file is read, there also with any ASCII
  white space added before and after.\<close>

theorem key_file_round_trip:
  assumes "length seed = SEED_LEN" and "list_all (\<lambda>c. is_ascii_whitespace (nat_of_byte c)) (pre @ post)"
  shows "length (encode_seed seed) = HEX_LEN
    \<and> decode_seed_exact (encode_seed seed) = Some seed
    \<and> decode_seed_file (pre @ encode_seed seed @ post) = Inr seed"
  using assms by (rule encode_seed_decodes)

theorem key_file_round_trip_witness:
  "decode_seed_file (encode_seed (replicate 32 0xA5) @ [CHR 0x0D, CHR 0x0A]) = Inr (replicate 32 0xA5)"
  using key_file_round_trip [of "replicate 32 0xA5" "[]" "[CHR 0x0D, CHR 0x0A]"]
  by (simp add: SEED_LEN_def is_ascii_whitespace_def)

lemma decode_from_Inr:
  "decode_from i out cs = Inr r \<Longrightarrow> even (length cs) \<Longrightarrow> list_all (\<lambda>c. hex_val c \<noteq> None) cs \<and> length r = length out"
  by (induction i out cs arbitrary: r rule: decode_from.induct) (auto split: option.splits)

lemma decode_from_Inl:
  "decode_from i out cs = Inl e \<Longrightarrow>
     \<exists>k < length cs. e = InvalidHex (i * 2 + k) \<and> hex_val (cs ! k) = None
       \<and> (\<forall>j < k. hex_val (cs ! j) \<noteq> None)"
proof (induction i out cs rule: decode_from.induct)
  case (1 i out a b cs)
  show ?case
  proof (cases "hex_val a")
    case None
    with "1.prems" show ?thesis by (intro exI [of _ 0]) simp
  next
    case (Some hi)
    note a = this
    show ?thesis
    proof (cases "hex_val b")
      case None
      with a "1.prems" show ?thesis by (intro exI [of _ "Suc 0"]) simp
    next
      case (Some lo)
      with a "1.prems" have "decode_from (i + 1) (out[i := push_bit 4 hi OR lo]) cs = Inl e" by simp
      from "1.IH" [OF a Some this] obtain k where "k < length cs" "e = InvalidHex ((i + 1) * 2 + k)"
        "hex_val (cs ! k) = None" "\<forall>j < k. hex_val (cs ! j) \<noteq> None"
        by blast
      with a Some show ?thesis
        by (intro exI [of _ "k + 2"]) (auto simp: nth_Cons split: nat.splits)
    qed
  qed
qed auto

text \<open>Decoding refuses a text with the right reason and the right place: nothing at all, a
  length other than 64 (with the length found), or the position of the first character that
  is not a hex digit; exactly the texts of 64 hex digits are accepted, and they give 32 bytes.\<close>

theorem decode_hex_errors:
  "case decode_hex s of
     Inl Empty \<Rightarrow> s = []
   | Inl (WrongLength n) \<Rightarrow> n = length s \<and> n \<noteq> HEX_LEN \<and> s \<noteq> []
   | Inl (InvalidHex k) \<Rightarrow> length s = HEX_LEN \<and> k < HEX_LEN \<and> hex_val (s ! k) = None
       \<and> list_all (\<lambda>c. hex_val c \<noteq> None) (take k s)
   | Inr seed \<Rightarrow> length s = HEX_LEN \<and> list_all (\<lambda>c. hex_val c \<noteq> None) s \<and> length seed = SEED_LEN"
proof (cases "s \<noteq> [] \<and> length s = HEX_LEN")
  case True
  then have eq: "decode_hex s = decode_from 0 (replicate SEED_LEN 0) s" by (simp add: decode_hex_def)
  have even: "even (length s)" using True by (simp add: HEX_LEN_def)
  show ?thesis
  proof (cases "decode_from 0 (replicate SEED_LEN 0) s")
    case (Inl e)
    then obtain k where "k < length s" "e = InvalidHex k" "hex_val (s ! k) = None"
      "\<forall>j < k. hex_val (s ! j) \<noteq> None"
      using decode_from_Inl [OF Inl] by auto
    with True Inl show ?thesis by (simp add: eq list_all_length)
  next
    case (Inr seed)
    with True decode_from_Inr [OF Inr even] show ?thesis by (simp add: eq)
  qed
next
  case False
  then show ?thesis by (auto simp: decode_hex_def)
qed

end
