(* ===== verification/KeyDispatch.thy ===== *)
theory KeyDispatch
  imports RustStd
begin

text \<open>
  \<open>terminal-model/src/key_dispatch.rs\<close>: what a keyboard report means for push-to-talk, and the
  sessions a sequence of reports produces.
\<close>

datatype ptt_transition = Pressed | Released | Other
datatype ptt_action_t = Start | Stop | NoAction

definition ptt_action :: "bool \<Rightarrow> ptt_transition \<Rightarrow> bool \<Rightarrow> bool \<Rightarrow> ptt_action_t" where
  "ptt_action key_is_f1 transition no_modifiers is_recording =
     (if key_is_f1 \<and> transition = Pressed \<and> no_modifiers then Start
      else if key_is_f1 \<and> transition = Released \<and> is_recording then Stop
      else NoAction)"

text \<open>The two finite types are enumerations, so statements over them evaluate.\<close>

instantiation ptt_transition :: enum
begin
definition "enum_ptt_transition = [Pressed, Released, Other]"
definition "enum_all_ptt_transition P \<longleftrightarrow> P Pressed \<and> P Released \<and> P Other"
definition "enum_ex_ptt_transition P \<longleftrightarrow> P Pressed \<or> P Released \<or> P Other"
instance
proof
  show UNIV: "(UNIV :: ptt_transition set) = set enum_class.enum"
    using ptt_transition.exhaust by (auto simp: enum_ptt_transition_def)
  show "distinct (enum_class.enum :: ptt_transition list)" by (simp add: enum_ptt_transition_def)
  show "enum_class.enum_all P \<longleftrightarrow> Ball UNIV P" for P :: "ptt_transition \<Rightarrow> bool"
    by (simp add: UNIV enum_ptt_transition_def enum_all_ptt_transition_def)
  show "enum_class.enum_ex P \<longleftrightarrow> Bex UNIV P" for P :: "ptt_transition \<Rightarrow> bool"
    by (simp add: UNIV enum_ptt_transition_def enum_ex_ptt_transition_def)
qed
end

text \<open>A keyboard report, as far as push-to-talk sees it, and the recording flag it drives (a
  start takes effect, a stop ends it).\<close>

type_synonym ptt_report = "bool \<times> ptt_transition \<times> bool"

definition after_report :: "bool \<Rightarrow> ptt_report \<Rightarrow> bool" where
  "after_report recording rep =
     (case rep of (f1, t, nomods) \<Rightarrow>
        (case ptt_action f1 t nomods recording of Start \<Rightarrow> True | Stop \<Rightarrow> False | NoAction \<Rightarrow> recording))"

text \<open>A recording starts only on a plain F1 press, so Ctrl+F1 (the reboot shortcut) never
  starts one; and whatever happened before, releasing F1 always leaves the device not
  recording, with or without modifiers held, while no report of another key changes
  anything.\<close>

theorem ptt_key_contract:
  "(ptt_action f1 t nomods rec = Start \<longleftrightarrow> f1 \<and> t = Pressed \<and> nomods)
   \<and> (\<not> nomods \<longrightarrow> ptt_action f1 Pressed nomods rec = NoAction)
   \<and> \<not> after_report (foldl after_report init reports) (True, Released, nomods)
   \<and> after_report rec (False, t, nomods) = rec"
  by (cases t) (auto simp: ptt_action_def after_report_def)

theorem ptt_key_contract_witness:
  "ptt_action True Pressed False True = NoAction"
  using ptt_key_contract [of True Pressed False True] by simp

end
