(* ===== verification/I2sProgram.thy ===== *)
theory I2sProgram
  imports PcmExtract
begin

text \<open>
  \<open>terminal-model/src/i2s_program.rs\<close>: the instructions of the microphone's PIO program, and
  what the state machine does when it runs them. The interpreter \<open>pio_step\<close> is the documented
  behaviour of the three instructions the program uses; the encoding of instructions by the
  \<open>pio\<close> crate is outside the model.
\<close>

section \<open>The program\<close>

datatype set_destination = SetX
datatype in_source = Pins
datatype jmp_condition = XDecNonZero

datatype instruction_operands =
    SET set_destination u8
  | IN in_source u8
  | JMP jmp_condition u8

record instruction =
  operands :: instruction_operands
  instr_delay :: u8
  side_set :: "u8 option"

definition PROGRAM_SIZE :: nat where "PROGRAM_SIZE = 8"

definition i2s_side :: "bool \<Rightarrow> u8 \<Rightarrow> u8" where
  "i2s_side edge_flip v = (if edge_flip then v XOR 1 else v)"

definition i2s_emit :: "bool \<Rightarrow> instruction_operands \<Rightarrow> u8 \<Rightarrow> instruction" where
  "i2s_emit edge_flip ops v = \<lparr>operands = ops, instr_delay = 0, side_set = Some (i2s_side edge_flip v)\<rparr>"

definition build_i2s_rx_program :: "u32 \<Rightarrow> bool \<Rightarrow> instruction list" where
  "build_i2s_rx_program bits edge_flip =
     (let count = ucast (bits - 2) :: u8
      in [i2s_emit edge_flip (SET SetX count) 1,
          i2s_emit edge_flip (IN Pins 1) 0,
          i2s_emit edge_flip (JMP XDecNonZero 1) 1,
          i2s_emit edge_flip (IN Pins 1) 2,
          i2s_emit edge_flip (SET SetX count) 3,
          i2s_emit edge_flip (IN Pins 1) 2,
          i2s_emit edge_flip (JMP XDecNonZero 5) 3,
          i2s_emit edge_flip (IN Pins 1) 0])"

section \<open>Running it\<close>

text \<open>The program counter wraps at the end of the program; \<open>x\<close> is the scratch register.\<close>

definition pio_step :: "instruction list \<Rightarrow> nat \<times> u32 \<Rightarrow> nat \<times> u32" where
  "pio_step prog st =
     (let (pc, x) = st; next = (pc + 1) mod length prog
      in case operands (prog ! pc) of
           SET SetX d \<Rightarrow> (next, ucast d)
         | IN Pins _ \<Rightarrow> (next, x)
         | JMP XDecNonZero a \<Rightarrow> (if x \<noteq> 0 then unat a else next, x - 1))"

text \<open>What one cycle shows at the pins: the side-set value and whether a bit is shifted in.\<close>

definition pio_out :: "instruction list \<Rightarrow> nat \<times> u32 \<Rightarrow> u8 \<times> bool" where
  "pio_out prog st =
     (case side_set (prog ! fst st) of None \<Rightarrow> 0 | Some v \<Rightarrow> v,
      case operands (prog ! fst st) of IN _ _ \<Rightarrow> True | _ \<Rightarrow> False)"

fun pio_run :: "instruction list \<Rightarrow> nat \<Rightarrow> nat \<times> u32 \<Rightarrow> (u8 \<times> bool) list" where
  "pio_run prog 0 st = []"
| "pio_run prog (Suc n) st = pio_out prog st # pio_run prog n (pio_step prog st)"

lemma length_pio_run [simp]: "length (pio_run prog n st) = n"
  by (induction n arbitrary: st) auto

lemma pio_run_nth: "i < n \<Longrightarrow> pio_run prog n st ! i = pio_out prog ((pio_step prog ^^ i) st)"
  by (induction n arbitrary: i st) (auto simp: nth_Cons funpow_swap1 split: nat.splits)

text \<open>The state in cycle \<open>i\<close> of one channel: the program counter is \<open>base\<close> plus 0, 1, 2 or 3.\<close>

definition channel_state :: "nat \<Rightarrow> nat \<Rightarrow> u32 \<Rightarrow> nat \<Rightarrow> nat \<times> u32" where
  "channel_state base bits x0 i =
     (if i = 0 then (base, x0)
      else if i = 2 * bits - 1 then (base + 3, - 1)
      else if odd i then (base + 1, of_nat (bits - 2 - i div 2))
      else (base + 2, of_nat (bits - 1 - i div 2)))"

lemma length_program [simp]: "length (build_i2s_rx_program bits flip) = 8"
  by (simp add: build_i2s_rx_program_def Let_def)

lemma program_operands:
  "map operands (build_i2s_rx_program bits flip) =
     [SET SetX (ucast (bits - 2)), IN Pins 1, JMP XDecNonZero 1, IN Pins 1,
      SET SetX (ucast (bits - 2)), IN Pins 1, JMP XDecNonZero 5, IN Pins 1]"
  by (simp add: build_i2s_rx_program_def i2s_emit_def Let_def)

lemma operand_at:
  "base \<in> {0, 4} \<Longrightarrow> operands (build_i2s_rx_program bits flip ! base) = SET SetX (ucast (bits - 2))
   \<and> operands (build_i2s_rx_program bits flip ! (base + 1)) = IN Pins 1
   \<and> operands (build_i2s_rx_program bits flip ! (base + 2)) = JMP XDecNonZero (of_nat (base + 1))
   \<and> operands (build_i2s_rx_program bits flip ! (base + 3)) = IN Pins 1"
  by (auto simp: build_i2s_rx_program_def i2s_emit_def Let_def numeral_eq_Suc)

lemma count_word_all:
  "list_all (\<lambda>n. (ucast (ucast (of_nat n - 2 :: u32) :: u8) :: u32) = of_nat (n - 2)) [2..<34]"
  by (simp add: upt_rec)

lemma count_word:
  "2 \<le> n \<Longrightarrow> n \<le> 33 \<Longrightarrow> (ucast (ucast (of_nat n - 2 :: u32) :: u8) :: u32) = of_nat (n - 2)"
proof -
  assume "2 \<le> n" and "n \<le> 33"
  then have "n \<in> set [2..<34]" unfolding set_upt by (intro atLeastLessThan_iff [THEN iffD2] conjI) simp_all
  with count_word_all show ?thesis unfolding list_all_iff by (rule bspec)
qed

lemma of_nat_word_small_0: "k < 33 \<Longrightarrow> (of_nat k :: u32) = 0 \<longleftrightarrow> k = 0"
  by (subst unat_eq_0 [symmetric]) (simp add: unat_of_nat_small)

text \<open>One channel: from its first instruction, cycle by cycle, to the first of the next one.\<close>

lemma channel_step:
  assumes base: "base \<in> {0, 4}" and bits: "2 \<le> bits" "bits \<le> 33" and i: "i < 2 * bits - 1"
  shows "pio_step (build_i2s_rx_program (of_nat bits) flip) (channel_state base bits x0 i)
    = channel_state base bits x0 (i + 1)"
proof -
  let ?p = "build_i2s_rx_program (of_nat bits) flip"
  have wrap: "(base + 1) mod 8 = base + 1" "(base + 1 + 1) mod 8 = base + 2" "(base + 2 + 1) mod 8 = base + 3"
    "unat (of_nat (base + 1) :: u8) = base + 1"
    using base by auto
  note ops = operand_at [OF base, of "of_nat bits" flip]
  consider "i = 0" | "odd i" | "even i" "i \<noteq> 0" by blast
  then show ?thesis
  proof cases
    case 1
    then show ?thesis
      using ops wrap bits count_word by (auto simp: pio_step_def channel_state_def)
  next
    case 2
    have "odd (2 * bits - 1)" using bits by simp
    moreover have "even (i + 1)" using 2 by simp
    ultimately have "i + 1 \<noteq> 2 * bits - 1" by metis
    moreover have "i div 2 + 1 = (i + 1) div 2" "even (i + 1)" using 2 by (auto elim!: oddE)
    moreover have "bits - 2 - i div 2 = bits - 1 - (i + 1) div 2" using calculation(2) by linarith
    moreover have "i \<noteq> 0" using 2 by (rule contrapos_pn) simp
    ultimately show ?thesis
      using 2 ops wrap i by (simp add: pio_step_def channel_state_def)
  next
    case 3
    let ?k = "bits - 1 - i div 2"
    have k: "?k < 33" "odd (i + 1)" "(i + 1) div 2 = i div 2" using bits 3 by auto
    have zero: "(of_nat ?k :: u32) = 0 \<longleftrightarrow> ?k = 0" using k(1) by (rule of_nat_word_small_0)
    have last: "?k = 0 \<longleftrightarrow> i + 1 = 2 * bits - 1"
      using 3 i bits by (auto elim!: evenE)
    show ?thesis
    proof (cases "?k = 0")
      case True
      with last 3 ops wrap show ?thesis by (simp add: pio_step_def channel_state_def)
    next
      case False
      then have "(of_nat ?k :: u32) - 1 = of_nat (bits - 2 - (i + 1) div 2)"
        using k(3) by (simp add: of_nat_diff)
      with False zero last 3 k ops wrap show ?thesis by (simp add: pio_step_def channel_state_def)
    qed
  qed
qed

lemma channel_run:
  assumes "base \<in> {0, 4}" and "2 \<le> bits" and "bits \<le> 33" and "i < 2 * bits"
  shows "(pio_step (build_i2s_rx_program (of_nat bits) flip) ^^ i) (base, x0) = channel_state base bits x0 i"
  using assms(4)
proof (induction i)
  case 0
  then show ?case by (simp add: channel_state_def)
next
  case (Suc i)
  then show ?case using channel_step [OF assms(1-3), of i flip x0] by simp
qed

lemma channel_end:
  assumes "base \<in> {0, 4}" and "2 \<le> bits" and "bits \<le> 33"
  shows "(pio_step (build_i2s_rx_program (of_nat bits) flip) ^^ (2 * bits)) (base, x0) = ((base + 4) mod 8, - 1)"
proof -
  let ?p = "build_i2s_rx_program (of_nat bits) flip"
  have "2 * bits = Suc (2 * bits - 1)" using assms(2) by simp
  then have "(pio_step ?p ^^ (2 * bits)) (base, x0) = pio_step ?p ((pio_step ?p ^^ (2 * bits - 1)) (base, x0))"
    by (metis comp_apply funpow.simps(2))
  also have "(pio_step ?p ^^ (2 * bits - 1)) (base, x0) = (base + 3, - 1)"
    using channel_run [OF assms, of "2 * bits - 1" flip x0] assms(2) by (simp add: channel_state_def)
  also have "pio_step ?p (base + 3, - 1) = ((base + 4) mod 8, - 1)"
    using operand_at [OF assms(1), of "of_nat bits" flip] by (simp add: pio_step_def Let_def add.commute)
  finally show ?thesis .
qed

text \<open>The pins in cycle \<open>i\<close> of a channel.\<close>

lemma pins_at:
  fixes bits :: u32 and flip :: bool
  assumes "base \<in> {0, 4}"
  defines "prog \<equiv> build_i2s_rx_program bits flip" and "ws \<equiv> (if base = 4 then 2 else 0 :: u8)"
  shows "pio_out prog (base, x) = (i2s_side flip (ws + 1), False)"
    and "pio_out prog (Suc base, x) = (i2s_side flip ws, True)"
    and "pio_out prog (Suc (Suc base), x) = (i2s_side flip (ws + 1), False)"
    and "pio_out prog (base + 3, x) = (i2s_side flip (2 - ws), True)"
  using assms(1)
  by (auto simp: prog_def ws_def pio_out_def build_i2s_rx_program_def i2s_emit_def Let_def numeral_eq_Suc)

lemma channel_out:
  assumes base: "base \<in> {0, 4}" and "2 \<le> bits" and "i < 2 * bits"
  shows "pio_out (build_i2s_rx_program (of_nat bits) flip) (channel_state base bits x0 i)
    = (i2s_side flip ((if (base = 4) = (i < 2 * bits - 1) then 2 else 0) + (if even i then 1 else 0)), odd i)"
proof -
  have last: "odd (2 * bits - 1)" using assms(2) by simp
  note pins = pins_at [OF base, of "of_nat bits" flip]
  consider "i = 0" | "i = 2 * bits - 1" | "odd i" "i < 2 * bits - 1" | "even i" "i \<noteq> 0" "i < 2 * bits - 1"
    using assms(3) by linarith
  then show ?thesis
  proof cases
    case 1
    then show ?thesis using assms(2) by (simp add: channel_state_def pins(1))
  next
    case 2
    with last have "i \<noteq> 0" "odd i" by (auto intro: ccontr)
    with 2 base show ?thesis by (auto simp: channel_state_def pins(4))
  next
    case 3
    then have "i \<noteq> 0" "i \<noteq> 2 * bits - 1" by (auto intro: ccontr)
    with 3 show ?thesis by (simp add: channel_state_def pins(2))
  next
    case 4
    then have "i \<noteq> 2 * bits - 1" by simp
    with 4 show ?thesis by (simp add: channel_state_def pins(3))
  qed
qed

text \<open>C29: For every slot width the firmware can configure, one frame of the program takes
  exactly four cycles per bit: the bit clock changes level in every cycle (its edge setting
  only exchanges high and low), a bit is sampled in every second cycle, so each channel slot
  shifts in exactly the configured number of bits, the word select changes one bit before a
  slot ends as I2S asks, and the program is back at its start.\<close>

theorem i2s_frame_timing:
  fixes flip :: bool
  assumes "mic_settings_valid (of_nat bits) rate" and "bits < 2 ^ 32"
  defines "prog \<equiv> build_i2s_rx_program (of_nat bits) flip"
  shows "pio_run prog (4 * bits) (0, x0) =
      map (\<lambda>i. (i2s_side flip ((if 2 * bits - 1 \<le> i \<and> i < 4 * bits - 1 then 2 else 0)
                 + (if even i then 1 else 0)), odd i)) [0..<4 * bits]
    \<and> (pio_step prog ^^ (4 * bits)) (0, x0) = (0, - 1)"
proof -
  have b: "2 \<le> bits" "bits \<le> 33"
    using assms(1,2) by (auto simp: mic_settings_valid_exact unat_of_nat_small)
  have half: "(pio_step prog ^^ (2 * bits)) (0, x0) = (4, - 1)"
    using channel_end [of 0 bits flip x0] b by (simp add: prog_def)
  have split: "(pio_step prog ^^ (2 * bits + j)) (0, x0) = (pio_step prog ^^ j) (4, - 1)" for j
    using half by (simp add: add.commute [of "2 * bits"] funpow_add)
  have "(pio_step prog ^^ (4 * bits)) (0, x0) = (0, - 1)"
    using split [of "2 * bits"] channel_end [of 4 bits flip "- 1"] b by (simp add: prog_def)
  moreover have "pio_run prog (4 * bits) (0, x0) ! i =
      (i2s_side flip ((if 2 * bits - 1 \<le> i \<and> i < 4 * bits - 1 then 2 else 0)
                 + (if even i then 1 else 0)), odd i)" if "i < 4 * bits" for i
  proof (cases "i < 2 * bits")
    case True
    then have "pio_run prog (4 * bits) (0, x0) ! i = pio_out prog (channel_state 0 bits x0 i)"
      using channel_run [of 0 bits i flip x0] b that by (simp add: pio_run_nth prog_def)
    with True b channel_out [of 0 bits i flip x0] show ?thesis by (auto simp: prog_def)
  next
    case False
    define j where "j = i - 2 * bits"
    with False that have j: "i = 2 * bits + j" "j < 2 * bits" by simp_all
    then have "pio_run prog (4 * bits) (0, x0) ! i = pio_out prog (channel_state 4 bits (- 1) j)"
      using channel_run [of 4 bits j flip "- 1"] split [of j] b that by (simp add: pio_run_nth prog_def)
    with j b channel_out [of 4 bits j flip "- 1"] show ?thesis by (auto simp: prog_def)
  qed
  ultimately show ?thesis by (simp add: list_eq_iff_nth_eq)
qed

theorem i2s_frame_timing_witness:
  "length (filter snd (pio_run (build_i2s_rx_program 32 False) 128 (0, 0))) = 64"
proof -
  have "mic_settings_valid (of_nat 32) 16000"
    by (simp add: mic_settings_valid_exact)
  from i2s_frame_timing [OF this, of False 0]
  have "pio_run (build_i2s_rx_program 32 False) 128 (0, 0) = map (\<lambda>i. (i2s_side False
      ((if 63 \<le> i \<and> i < 127 then 2 else 0) + (if even i then 1 else 0)), odd i)) [0..<128]"
    by simp
  then show ?thesis by (simp add: filter_map comp_def) (simp add: upt_rec)
qed

end
