(* ===== verification/MicConfig.thy ===== *)
theory MicConfig
  imports PcmExtract
begin

text \<open>
  \<open>terminal-model/src/mic_config.rs\<close>: the microphone's settings resolved from the strings of
  the configuration store, the repair of stored values that are not used, and the checks a
  \<open>config set\<close> of one of them has to pass.
\<close>

section \<open>Settings\<close>

definition CHANNELS :: u32 where "CHANNELS = 2"
definition DEFAULT_RATE_HZ :: u32 where "DEFAULT_RATE_HZ = 16000"
definition DEFAULT_BITS :: u32 where "DEFAULT_BITS = 32"
definition DEFAULT_EDGE_FLIP :: bool where "DEFAULT_EDGE_FLIP = False"
definition BITS_KEY :: rstr where "BITS_KEY = ''ptt_bits''"
definition RATE_KEY :: rstr where "RATE_KEY = ''ptt_rate''"
definition EDGE_KEY :: rstr where "EDGE_KEY = ''ptt_edge''"

record mic_settings =
  mic_bits :: u32
  mic_rate :: u32
  edge_flip :: bool

definition default_mic_settings :: mic_settings where
  "default_mic_settings = \<lparr>mic_bits = DEFAULT_BITS, mic_rate = DEFAULT_RATE_HZ, edge_flip = DEFAULT_EDGE_FLIP\<rparr>"

definition bclk_hz :: "mic_settings \<Rightarrow> u32" where
  "bclk_hz s = bit_clock_hz (mic_rate s) (mic_bits s) CHANNELS"

record resolved_settings =
  settings :: mic_settings
  raw :: mic_settings
  fell_back :: bool

definition parse_u32 :: "rstr \<Rightarrow> u32 option" where
  "parse_u32 v = map_option of_nat (parse_uint (2 ^ 32) (str_trim v))"

definition parse_bool :: "rstr \<Rightarrow> bool option" where
  "parse_bool v =
     (let t = str_trim v
      in if t \<in> {''1'', ''true'', ''on'', ''yes''} then Some True
         else if t \<in> {''0'', ''false'', ''off'', ''no''} then Some False
         else None)"

definition owns :: "rstr \<Rightarrow> bool" where
  "owns key \<longleftrightarrow> key = BITS_KEY \<or> key = RATE_KEY \<or> key = EDGE_KEY"

definition unwrap_or :: "'a option \<Rightarrow> 'a \<Rightarrow> 'a" where
  "unwrap_or x d = (case x of None \<Rightarrow> d | Some y \<Rightarrow> y)"

lemma unwrap_or_simps [simp]: "unwrap_or None d = d" "unwrap_or (Some y) d = y"
  by (simp_all add: unwrap_or_def)

definition resolve :: "rstr option \<Rightarrow> rstr option \<Rightarrow> rstr option \<Rightarrow> resolved_settings" where
  "resolve bits rate edge =
     (let s = \<lparr>mic_bits = unwrap_or (Option.bind bits parse_u32) DEFAULT_BITS,
              mic_rate = unwrap_or (Option.bind rate parse_u32) DEFAULT_RATE_HZ,
              edge_flip = unwrap_or (Option.bind edge parse_bool) DEFAULT_EDGE_FLIP\<rparr>
      in if \<not> mic_settings_valid (mic_bits s) (mic_rate s)
         then \<lparr>settings = s\<lparr>mic_bits := DEFAULT_BITS, mic_rate := DEFAULT_RATE_HZ\<rparr>,
               raw = s, fell_back = True\<rparr>
         else \<lparr>settings = s, raw = s, fell_back = False\<rparr>)"

text \<open>\<open>edge_flip as u8\<close> is 0 or 1.\<close>

definition effective_setting :: "rstr \<Rightarrow> mic_settings \<Rightarrow> rstr option" where
  "effective_setting key s =
     (if key = BITS_KEY then Some (show_nat (unat (mic_bits s)))
      else if key = RATE_KEY then Some (show_nat (unat (mic_rate s)))
      else if key = EDGE_KEY then Some (show_nat (if edge_flip s then 1 else 0))
      else None)"

definition report_setting :: "rstr \<Rightarrow> mic_settings \<Rightarrow> rstr option \<Rightarrow> rstr option" where
  "report_setting key s unreconciled = do {
     effective \<leftarrow> effective_setting key s;
     Some (case unreconciled of
             Some stored \<Rightarrow> effective @ '' (unreconciled: stored '' @ stored @ '')''
           | None \<Rightarrow> effective)
   }"

section \<open>Reconciliation\<close>

record stored_value_fix =
  fix_key :: rstr
  fix_value :: rstr

text \<open>\<open>expect\<close> cannot fail for a key the module owns; \<^term>\<open>None\<close> is that panic.\<close>

definition stored_fix :: "rstr \<Rightarrow> mic_settings \<Rightarrow> stored_value_fix option" where
  "stored_fix key s = map_option (\<lambda>v. \<lparr>fix_key = key, fix_value = v\<rparr>) (effective_setting key s)"

record clock_pair_fix =
  pair_bits :: rstr
  pair_rate :: rstr

definition stale :: "rstr option \<Rightarrow> (rstr \<Rightarrow> 'a option) \<Rightarrow> 'a \<Rightarrow> bool" where
  "stale stored parse effective \<longleftrightarrow> stored \<noteq> None \<and> Option.bind stored parse \<noteq> Some effective"

definition reconcile ::
    "rstr option \<Rightarrow> rstr option \<Rightarrow> rstr option \<Rightarrow>
     (resolved_settings \<times> stored_value_fix list \<times> clock_pair_fix option) option" where
  "reconcile bits rate edge =
     (let resolved = resolve bits rate edge;
          effective = settings resolved;
          bits_stale = stale bits parse_u32 (mic_bits effective);
          rate_stale = stale rate parse_u32 (mic_rate effective)
      in do {
        (fixes, pair) \<leftarrow>
          (if bits_stale \<and> rate_stale then
             Some ([], Some \<lparr>pair_bits = show_nat (unat (mic_bits effective)),
                             pair_rate = show_nat (unat (mic_rate effective))\<rparr>)
           else do {
             f1 \<leftarrow> (if bits_stale then map_option (\<lambda>f. [f]) (stored_fix BITS_KEY effective) else Some []);
             f2 \<leftarrow> (if rate_stale then map_option (\<lambda>f. [f]) (stored_fix RATE_KEY effective) else Some []);
             Some (f1 @ f2, None)
           });
        f3 \<leftarrow> (if stale edge parse_bool (edge_flip effective)
               then map_option (\<lambda>f. [f]) (stored_fix EDGE_KEY effective) else Some []);
        Some (resolved, fixes @ f3, pair)
      })"

section \<open>Checking a new value\<close>

definition validate_setting :: "mic_settings \<Rightarrow> rstr \<Rightarrow> rstr \<Rightarrow> rstr + unit" where
  "validate_setting current key v =
     (if \<not> owns key then Inr ()
      else
        let candidate =
          (if key = BITS_KEY then
             (case parse_u32 v of
                None \<Rightarrow> Inl ''ptt_bits must be a number (bits per channel slot)''
              | Some b \<Rightarrow> Inr (current\<lparr>mic_bits := b\<rparr>))
           else if key = RATE_KEY then
             (case parse_u32 v of
                None \<Rightarrow> Inl ''ptt_rate must be a number (Hz)''
              | Some r \<Rightarrow> Inr (current\<lparr>mic_rate := r\<rparr>))
           else
             (case parse_bool v of
                None \<Rightarrow> Inl ''ptt_edge must be 0 or 1''
              | Some e \<Rightarrow> Inr (current\<lparr>edge_flip := e\<rparr>)))
        in case candidate of
             Inl e \<Rightarrow> Inl e
           | Inr c \<Rightarrow>
               if \<not> mic_settings_valid (mic_bits c) (mic_rate c) then
                 Inl (''invalid mic clock: ptt_bits='' @ show_nat (unat (mic_bits c))
                   @ '' ptt_rate='' @ show_nat (unat (mic_rate c))
                   @ '' -> BCLK '' @ show_nat (unat (bclk_hz c))
                   @ '' Hz, outside the mic's documented '' @ show_nat (unat MIN_MIC_BCLK_HZ)
                   @ ''-'' @ show_nat (unat MAX_MIC_BCLK_HZ) @ '' Hz window'')
               else Inr ())"

definition set_changes_other_clock_key ::
    "mic_settings \<Rightarrow> mic_settings \<Rightarrow> rstr \<Rightarrow> rstr \<Rightarrow> bool" where
  "set_changes_other_clock_key store effective key v =
     (let candidate =
        (if key = BITS_KEY then map_option (\<lambda>b. store\<lparr>mic_bits := b\<rparr>) (parse_u32 v)
         else if key = RATE_KEY then map_option (\<lambda>r. store\<lparr>mic_rate := r\<rparr>) (parse_u32 v)
         else None)
      in case candidate of
           None \<Rightarrow> False
         | Some c \<Rightarrow>
             let (b, r) = (if mic_settings_valid (mic_bits c) (mic_rate c)
                           then (mic_bits c, mic_rate c) else (DEFAULT_BITS, DEFAULT_RATE_HZ))
             in if key = BITS_KEY then r \<noteq> mic_rate effective
                else if key = RATE_KEY then b \<noteq> mic_bits effective
                else False)"

definition validate_setting_with_store ::
    "mic_settings \<Rightarrow> mic_settings \<Rightarrow> rstr \<Rightarrow> rstr \<Rightarrow> rstr + unit" where
  "validate_setting_with_store store effective key v =
     (case validate_setting effective key v of
        Inl e \<Rightarrow> Inl e
      | Inr _ \<Rightarrow>
          if set_changes_other_clock_key store effective key v then
            Inl (key @ '' refused: the stored mic clock is unreconciled (a rewrite failed), and this change would re-activate a stored value the console did not report; set ptt_bits/ptt_rate to their reported values first'')
          else Inr ())"

section \<open>What the settings guarantee\<close>

lemma keys_distinct [simp]:
  "BITS_KEY \<noteq> RATE_KEY" "BITS_KEY \<noteq> EDGE_KEY" "RATE_KEY \<noteq> EDGE_KEY"
  "RATE_KEY \<noteq> BITS_KEY" "EDGE_KEY \<noteq> BITS_KEY" "EDGE_KEY \<noteq> RATE_KEY"
  by (simp_all add: BITS_KEY_def RATE_KEY_def EDGE_KEY_def)

lemma default_valid [simp]: "mic_settings_valid DEFAULT_BITS DEFAULT_RATE_HZ"
  by (simp add: mic_settings_valid_iff clock_in_window_def DEFAULT_BITS_def DEFAULT_RATE_HZ_def)

lemma parse_u32_show [simp]: "parse_u32 (show_nat (unat w)) = Some w"
  using unat_u32_bound [of w] by (simp add: parse_u32_def)

lemma parse_bool_show [simp]: "parse_bool (show_nat (if b then 1 else 0)) = Some b"
proof -
  have "show_nat 1 = ''1''" "show_nat 0 = ''0''"
    by (simp_all add: show_nat.simps digit_char_def char_of_def bit_0)
  then show ?thesis
    using str_trim_show_nat [of 1] str_trim_show_nat [of 0] by (simp add: parse_bool_def)
qed

text \<open>Only 32-bit slots can be clocked at the default rate.\<close>

lemma valid_at_default_rate: "mic_settings_valid b DEFAULT_RATE_HZ \<longleftrightarrow> b = DEFAULT_BITS"
proof -
  have "unat b = 32 \<longleftrightarrow> b = 32"
    by (auto simp: word_unat_eq_iff)
  then show ?thesis
    by (auto simp: mic_settings_valid_iff clock_in_window_def DEFAULT_RATE_HZ_def DEFAULT_BITS_def)
qed

text \<open>Whatever the store holds - nothing, garbage, or values the microphone cannot run - the
  settings the next recording uses are ones it can run; stored values that form a usable pair
  are used as they are, each missing or malformed one is replaced by its default, and an
  unusable pair is replaced as a whole and reported.\<close>

theorem resolve_always_valid:
  "mic_settings_valid (mic_bits (settings (resolve bits rate edge))) (mic_rate (settings (resolve bits rate edge)))
   \<and> fell_back (resolve bits rate edge) = (\<not> mic_settings_valid (mic_bits (raw (resolve bits rate edge)))
       (mic_rate (raw (resolve bits rate edge))))
   \<and> settings (resolve bits rate edge) =
       (if fell_back (resolve bits rate edge)
        then (raw (resolve bits rate edge))\<lparr>mic_bits := DEFAULT_BITS, mic_rate := DEFAULT_RATE_HZ\<rparr>
        else raw (resolve bits rate edge))
   \<and> mic_bits (raw (resolve bits rate edge)) = unwrap_or (Option.bind bits parse_u32) DEFAULT_BITS
   \<and> mic_rate (raw (resolve bits rate edge)) = unwrap_or (Option.bind rate parse_u32) DEFAULT_RATE_HZ
   \<and> edge_flip (settings (resolve bits rate edge)) = unwrap_or (Option.bind edge parse_bool) DEFAULT_EDGE_FLIP"
  by (simp add: resolve_def Let_def)

text \<open>The three keys of a store, and the repairs applied to it: the pair is written rate first.\<close>

type_synonym ptt_store = "rstr \<Rightarrow> rstr option"

definition resolve_store :: "ptt_store \<Rightarrow> resolved_settings" where
  "resolve_store m = resolve (m BITS_KEY) (m RATE_KEY) (m EDGE_KEY)"

definition apply_fix :: "ptt_store \<Rightarrow> stored_value_fix \<Rightarrow> ptt_store" where
  "apply_fix m f = m(fix_key f \<mapsto> fix_value f)"

definition apply_fixes :: "ptt_store \<Rightarrow> stored_value_fix list \<Rightarrow> clock_pair_fix option \<Rightarrow> ptt_store" where
  "apply_fixes m fixes pair =
     (let m1 = foldl apply_fix m fixes
      in case pair of None \<Rightarrow> m1
         | Some p \<Rightarrow> m1(RATE_KEY \<mapsto> pair_rate p, BITS_KEY \<mapsto> pair_bits p))"

text \<open>A stored value either reads as the effective one or is stale.\<close>

lemma unwrap_stale:
  "\<not> stale st p e \<Longrightarrow> unwrap_or (Option.bind st p) d = (if st = None then d else e)"
  by (cases st) (auto simp: stale_def)

lemma both_stale_default:
  assumes "stale bits parse_u32 (mic_bits (settings (resolve bits rate edge)))"
    and "stale rate parse_u32 (mic_rate (settings (resolve bits rate edge)))"
  shows "mic_bits (settings (resolve bits rate edge)) = DEFAULT_BITS
    \<and> mic_rate (settings (resolve bits rate edge)) = DEFAULT_RATE_HZ"
  using assms
  by (cases "Option.bind bits parse_u32"; cases "Option.bind rate parse_u32")
     (auto simp: resolve_def stale_def Let_def split: if_splits)

text \<open>What reconciliation answers, in closed form; the \<open>expect\<close> in it never fails.\<close>

definition repairs_of :: "mic_settings \<Rightarrow> bool \<Rightarrow> bool \<Rightarrow> bool \<Rightarrow> stored_value_fix list \<times> clock_pair_fix option" where
  "repairs_of e bs rs es =
     ((if bs \<and> \<not> rs then [\<lparr>fix_key = BITS_KEY, fix_value = show_nat (unat (mic_bits e))\<rparr>] else [])
      @ (if rs \<and> \<not> bs then [\<lparr>fix_key = RATE_KEY, fix_value = show_nat (unat (mic_rate e))\<rparr>] else [])
      @ (if es then [\<lparr>fix_key = EDGE_KEY, fix_value = show_nat (if edge_flip e then 1 else 0)\<rparr>] else []),
      if bs \<and> rs then Some \<lparr>pair_bits = show_nat (unat (mic_bits e)), pair_rate = show_nat (unat (mic_rate e))\<rparr>
      else None)"

lemma effective_own [simp]:
  "effective_setting BITS_KEY e = Some (show_nat (unat (mic_bits e)))"
  "effective_setting RATE_KEY e = Some (show_nat (unat (mic_rate e)))"
  "effective_setting EDGE_KEY e = Some (show_nat (if edge_flip e then 1 else 0))"
  by (simp_all add: effective_setting_def)

lemma reconcile_eq:
  assumes "e = settings (resolve bits rate edge)"
  shows "reconcile bits rate edge = Some (resolve bits rate edge,
     repairs_of e (stale bits parse_u32 (mic_bits e)) (stale rate parse_u32 (mic_rate e))
       (stale edge parse_bool (edge_flip e)))"
  by (cases "stale bits parse_u32 (mic_bits e)"; cases "stale rate parse_u32 (mic_rate e)";
      cases "stale edge parse_bool (edge_flip e)")
     (simp_all add: reconcile_def Let_def stored_fix_def repairs_of_def flip: assms)

lemma resolve_settings_valid:
  "mic_settings_valid (mic_bits (settings (resolve b r ed))) (mic_rate (settings (resolve b r ed)))"
  by (simp add: resolve_def Let_def)

text \<open>Values that read as a usable pair resolve to it.\<close>

lemma resolve_readable:
  assumes "mic_settings_valid (mic_bits e) (mic_rate e)"
    and "unwrap_or (Option.bind b parse_u32) DEFAULT_BITS = mic_bits e"
    and "unwrap_or (Option.bind r parse_u32) DEFAULT_RATE_HZ = mic_rate e"
    and "unwrap_or (Option.bind ed parse_bool) DEFAULT_EDGE_FLIP = edge_flip e"
  shows "settings (resolve b r ed) = e"
  using assms by (simp add: resolve_def Let_def)

text \<open>A value that is not stale, or has been repaired, reads as the effective one.\<close>

lemma resolve_reads_all:
  assumes "e = settings (resolve b r ed)"
  shows resolve_reads_bits: "\<not> stale b parse_u32 (mic_bits e) \<Longrightarrow>
      unwrap_or (Option.bind b parse_u32) DEFAULT_BITS = mic_bits e"
    and resolve_reads_rate: "\<not> stale r parse_u32 (mic_rate e) \<Longrightarrow>
      unwrap_or (Option.bind r parse_u32) DEFAULT_RATE_HZ = mic_rate e"
    and resolve_reads_edge: "unwrap_or (Option.bind ed parse_bool) DEFAULT_EDGE_FLIP = edge_flip e"
proof -
  have none: "b = None \<Longrightarrow> mic_bits e = DEFAULT_BITS" "r = None \<Longrightarrow> mic_rate e = DEFAULT_RATE_HZ"
    by (simp_all add: assms resolve_def Let_def)
  show "\<not> stale b parse_u32 (mic_bits e) \<Longrightarrow> unwrap_or (Option.bind b parse_u32) DEFAULT_BITS = mic_bits e"
    using unwrap_stale [of b parse_u32 "mic_bits e" DEFAULT_BITS] none(1) by simp
  show "\<not> stale r parse_u32 (mic_rate e) \<Longrightarrow> unwrap_or (Option.bind r parse_u32) DEFAULT_RATE_HZ = mic_rate e"
    using unwrap_stale [of r parse_u32 "mic_rate e" DEFAULT_RATE_HZ] none(2) by simp
  show "unwrap_or (Option.bind ed parse_bool) DEFAULT_EDGE_FLIP = edge_flip e"
    by (simp add: assms resolve_def Let_def)
qed

text \<open>With only the rate of a stale pair repaired the pair is still unusable.\<close>

lemma resolve_rate_first:
  assumes "e = settings (resolve b r ed)"
    and "stale b parse_u32 (mic_bits e)" and "stale r parse_u32 (mic_rate e)"
    and "unwrap_or (Option.bind ed' parse_bool) DEFAULT_EDGE_FLIP = edge_flip e"
  shows "settings (resolve b (Some (show_nat (unat (mic_rate e)))) ed') = e"
proof -
  have d: "mic_bits e = DEFAULT_BITS" "mic_rate e = DEFAULT_RATE_HZ"
    using both_stale_default assms(1-3) by auto
  show ?thesis
    by (rule mic_settings.equality) (use d assms(4) in \<open>auto simp: resolve_def Let_def valid_at_default_rate\<close>)
qed

lemma resolve_of_reads:
  assumes "mic_settings_valid (mic_bits e) (mic_rate e)"
    and "\<not> stale (m BITS_KEY) parse_u32 (mic_bits e)" "\<not> stale (m RATE_KEY) parse_u32 (mic_rate e)"
      "\<not> stale (m EDGE_KEY) parse_bool (edge_flip e)"
    and "m BITS_KEY = None \<Longrightarrow> mic_bits e = DEFAULT_BITS" "m RATE_KEY = None \<Longrightarrow> mic_rate e = DEFAULT_RATE_HZ"
      "m EDGE_KEY = None \<Longrightarrow> edge_flip e = DEFAULT_EDGE_FLIP"
  shows "settings (resolve_store m) = e"
proof -
  have "unwrap_or (Option.bind (m BITS_KEY) parse_u32) DEFAULT_BITS = mic_bits e"
    using unwrap_stale [OF assms(2), of DEFAULT_BITS] assms(5) by auto
  moreover have "unwrap_or (Option.bind (m RATE_KEY) parse_u32) DEFAULT_RATE_HZ = mic_rate e"
    using unwrap_stale [OF assms(3), of DEFAULT_RATE_HZ] assms(6) by auto
  moreover have "unwrap_or (Option.bind (m EDGE_KEY) parse_bool) DEFAULT_EDGE_FLIP = edge_flip e"
    using unwrap_stale [OF assms(4), of DEFAULT_EDGE_FLIP] assms(7) by auto
  ultimately show ?thesis using assms(1) by (simp add: resolve_store_def resolve_def Let_def)
qed

text \<open>C23: Repairing the store is sound, also when it is interrupted: once the repairs that
  reconciliation asks for are written, the store resolves to the very settings that were
  already in effect and needs no further repair; and if only the first write of the clock
  pair (the rate) lands, the next recording still uses the same settings.\<close>

theorem reconcile_repairs:
  assumes "reconcile (m BITS_KEY) (m RATE_KEY) (m EDGE_KEY) = Some (resolved, fixes, pair)"
  defines "m' \<equiv> apply_fixes m fixes pair"
  shows "resolved = resolve_store m
    \<and> settings (resolve_store m') = settings resolved
    \<and> reconcile (m' BITS_KEY) (m' RATE_KEY) (m' EDGE_KEY) = Some (resolve_store m', [], None)
    \<and> (\<forall>p. pair = Some p \<longrightarrow>
        settings (resolve_store (m(RATE_KEY \<mapsto> pair_rate p))) = settings resolved)"
proof -
  let ?r = "resolve_store m"
  let ?e = "settings ?r"
  let ?bs = "stale (m BITS_KEY) parse_u32 (mic_bits ?e)"
  let ?rs = "stale (m RATE_KEY) parse_u32 (mic_rate ?e)"
  let ?es = "stale (m EDGE_KEY) parse_bool (edge_flip ?e)"
  have valid: "mic_settings_valid (mic_bits ?e) (mic_rate ?e)"
    by (simp add: resolve_store_def resolve_def Let_def)
  have "Some (resolved, fixes, pair) = Some (?r, repairs_of ?e ?bs ?rs ?es)"
    using assms(1) reconcile_eq [of ?e "m BITS_KEY" "m RATE_KEY" "m EDGE_KEY"]
    by (simp only: resolve_store_def)
  then have res: "resolved = ?r" and fp: "(fixes, pair) = repairs_of ?e ?bs ?rs ?es"
    by simp_all
  then have fx: "fixes = fst (repairs_of ?e ?bs ?rs ?es)" and pr: "pair = snd (repairs_of ?e ?bs ?rs ?es)"
    by (simp_all flip: fp)
  have keys: "m' BITS_KEY = (if ?bs then Some (show_nat (unat (mic_bits ?e))) else m BITS_KEY)"
    "m' RATE_KEY = (if ?rs then Some (show_nat (unat (mic_rate ?e))) else m RATE_KEY)"
    "m' EDGE_KEY = (if ?es then Some (show_nat (if edge_flip ?e then 1 else 0)) else m EDGE_KEY)"
    by (simp_all add: m'_def apply_fixes_def apply_fix_def fx pr repairs_of_def)
  have reads: "\<not> stale (m' BITS_KEY) parse_u32 (mic_bits ?e)" "\<not> stale (m' RATE_KEY) parse_u32 (mic_rate ?e)"
    "\<not> stale (m' EDGE_KEY) parse_bool (edge_flip ?e)"
    by (simp_all only: keys) (auto simp: stale_def)
  have same: "settings (resolve_store m') = ?e"
    by (rule resolve_of_reads [OF valid reads])
      (auto simp: keys resolve_store_def resolve_def Let_def split: if_splits)
  moreover have "reconcile (m' BITS_KEY) (m' RATE_KEY) (m' EDGE_KEY) = Some (resolve_store m', [], None)"
    using reads reconcile_eq [of ?e "m' BITS_KEY" "m' RATE_KEY" "m' EDGE_KEY"] same
    by (simp add: resolve_store_def repairs_of_def)
  moreover have "settings (resolve_store (m(RATE_KEY \<mapsto> pair_rate p))) = ?e" if "pair = Some p" for p
  proof -
    have both: "?bs" "?rs" and p: "pair_rate p = show_nat (unat (mic_rate ?e))"
      using that by (auto simp: pr repairs_of_def split: if_splits)
    then have d: "mic_bits ?e = DEFAULT_BITS" "mic_rate ?e = DEFAULT_RATE_HZ"
      using both_stale_default by (auto simp: resolve_store_def)
    show ?thesis
      using d p by (auto simp: resolve_store_def resolve_def Let_def valid_at_default_rate)
  qed
  ultimately show ?thesis using res by simp
qed

text \<open>A \<open>config set\<close> that is accepted never brings back a stored clock value the console did
  not report: the other half of the clock pair keeps its effective value, the settings stay
  valid, and the new value is the one in effect unless the pair as stored is unusable and
  falls back.\<close>

theorem accepted_set_is_safe:
  assumes "validate_setting_with_store (raw (resolve_store m)) (settings (resolve_store m)) key v = Inr ()"
    and "key = BITS_KEY \<or> key = RATE_KEY"
  defines "new \<equiv> resolve_store (m(key \<mapsto> v))" and "old \<equiv> settings (resolve_store m)"
  shows "(key = BITS_KEY \<longrightarrow> mic_rate (settings new) = mic_rate old
            \<and> (fell_back new \<or> Some (mic_bits (settings new)) = parse_u32 v))
    \<and> (key = RATE_KEY \<longrightarrow> mic_bits (settings new) = mic_bits old
            \<and> (fell_back new \<or> Some (mic_rate (settings new)) = parse_u32 v))
    \<and> edge_flip (settings new) = edge_flip old"
proof -
  have edge: "edge_flip (settings new) = edge_flip old"
    using assms(2) by (auto simp: new_def old_def resolve_store_def resolve_def Let_def)
  have ok: "validate_setting (settings (resolve_store m)) key v = Inr ()"
    and change: "\<not> set_changes_other_clock_key (raw (resolve_store m)) (settings (resolve_store m)) key v"
    using assms(1) by (auto simp: validate_setting_with_store_def split: sum.splits if_splits)
  obtain x where x: "parse_u32 v = Some x"
    using ok assms(2) by (cases "parse_u32 v") (auto simp: validate_setting_def owns_def)
  show ?thesis
  proof (cases "key = BITS_KEY")
    case True
    with change x have "mic_rate (settings new) = mic_rate old"
      by (auto simp: set_changes_other_clock_key_def new_def old_def resolve_store_def resolve_def Let_def
          split: if_splits)
    with True x edge show ?thesis
      by (auto simp: new_def resolve_store_def resolve_def Let_def)
  next
    case False
    with assms(2) have key: "key = RATE_KEY" by simp
    with change x have "mic_bits (settings new) = mic_bits old"
      by (auto simp: set_changes_other_clock_key_def new_def old_def resolve_store_def resolve_def Let_def
          split: if_splits)
    with key x edge show ?thesis
      by (auto simp: new_def resolve_store_def resolve_def Let_def)
  qed
qed

theorem accepted_set_is_safe_witness:
  "mic_bits (settings (resolve_store (Map.empty(RATE_KEY \<mapsto> show_nat (unat (32000 :: u32)))))) = DEFAULT_BITS"
proof -
  let ?v = "show_nat (unat (32000 :: u32))"
  have empty: "resolve_store Map.empty = \<lparr>settings = default_mic_settings, raw = default_mic_settings, fell_back = False\<rparr>"
    by (simp add: resolve_store_def resolve_def default_mic_settings_def Let_def)
  have ok: "mic_settings_valid 32 32000"
    by (simp add: mic_settings_valid_iff clock_in_window_def)
  have v: "parse_u32 ?v = Some 32000" by (rule parse_u32_show)
  have "validate_setting_with_store (raw (resolve_store Map.empty)) (settings (resolve_store Map.empty)) RATE_KEY ?v = Inr ()"
    unfolding empty validate_setting_with_store_def validate_setting_def set_changes_other_clock_key_def
    using v ok by (simp add: owns_def default_mic_settings_def DEFAULT_BITS_def Let_def del: unat_numeral)
  from accepted_set_is_safe [OF this] show ?thesis
    unfolding empty by (simp add: default_mic_settings_def del: unat_numeral)
qed

text \<open>A store whose slot width no clock can satisfy.\<close>

definition unusable_width_store :: ptt_store where
  "unusable_width_store = [BITS_KEY \<mapsto> show_nat (unat (7 :: u32))]"

lemma unusable_width_resolves:
  "resolve_store unusable_width_store =
     \<lparr>settings = default_mic_settings, raw = default_mic_settings\<lparr>mic_bits := 7\<rparr>, fell_back = True\<rparr>"
proof -
  have "parse_u32 (show_nat (unat (7 :: u32))) = Some 7" by (rule parse_u32_show)
  moreover have "\<not> mic_settings_valid 7 DEFAULT_RATE_HZ"
    by (simp add: mic_settings_valid_iff clock_in_window_def)
  ultimately show ?thesis
    by (simp add: unusable_width_store_def resolve_store_def resolve_def default_mic_settings_def Let_def
        del: unat_numeral)
qed

text \<open>The guard does not keep the accepted value and the value in effect together when a
  repair could not be written: with an unusable slot width left in the store, setting the rate
  to 32000 is accepted, and the next recording still runs at 16000.\<close>

theorem accepted_rate_without_effect:
  "validate_setting_with_store (raw (resolve_store unusable_width_store))
      (settings (resolve_store unusable_width_store)) RATE_KEY (show_nat (unat (32000 :: u32))) = Inr ()
   \<and> mic_rate (settings (resolve_store (unusable_width_store(RATE_KEY \<mapsto> show_nat (unat (32000 :: u32)))))) = 16000"
proof
  have v: "parse_u32 (show_nat (unat (32000 :: u32))) = Some 32000" by (rule parse_u32_show)
  have ok: "mic_settings_valid 32 32000" and no: "\<not> mic_settings_valid 7 32000"
    by (simp_all add: mic_settings_valid_iff clock_in_window_def)
  show "validate_setting_with_store (raw (resolve_store unusable_width_store))
      (settings (resolve_store unusable_width_store)) RATE_KEY (show_nat (unat (32000 :: u32))) = Inr ()"
    unfolding unusable_width_resolves validate_setting_with_store_def validate_setting_def set_changes_other_clock_key_def
    using v ok no by (simp add: owns_def default_mic_settings_def DEFAULT_BITS_def Let_def del: unat_numeral)
  have "parse_u32 (show_nat (unat (7 :: u32))) = Some 7" by (rule parse_u32_show)
  with v no show "mic_rate (settings (resolve_store (unusable_width_store(RATE_KEY \<mapsto> show_nat (unat (32000 :: u32)))))) = 16000"
    by (simp add: unusable_width_store_def resolve_store_def resolve_def DEFAULT_RATE_HZ_def Let_def
        del: unat_numeral)
qed

text \<open>A store both of whose clock values are malformed is repaired to the defaults.\<close>

lemma str_trim_letters: "str_trim ''x'' = ''x''"
  by (rule str_trim_ascii_id) (simp_all add: is_whitespace_def)

theorem reconcile_repairs_witness:
  "settings (resolve_store (apply_fixes [BITS_KEY \<mapsto> ''x''] [\<lparr>fix_key = BITS_KEY, fix_value = show_nat (unat DEFAULT_BITS)\<rparr>] None))
     = default_mic_settings"
proof -
  let ?m = "[BITS_KEY \<mapsto> ''x'']"
  have bad: "parse_u32 ''x'' = None"
    by (simp add: parse_u32_def parse_uint_def str_trim_letters is_digit_def)
  then have e: "resolve (?m BITS_KEY) (?m RATE_KEY) (?m EDGE_KEY) =
      \<lparr>settings = default_mic_settings, raw = default_mic_settings, fell_back = False\<rparr>"
    by (simp add: resolve_def default_mic_settings_def Let_def)
  have "reconcile (?m BITS_KEY) (?m RATE_KEY) (?m EDGE_KEY) = Some (resolve_store ?m,
      [\<lparr>fix_key = BITS_KEY, fix_value = show_nat (unat DEFAULT_BITS)\<rparr>], None)"
    unfolding resolve_store_def
    using reconcile_eq [OF refl, of "?m BITS_KEY" "?m RATE_KEY" "?m EDGE_KEY"] bad
    unfolding e by (simp add: stale_def repairs_of_def default_mic_settings_def)
  note spec = reconcile_repairs [OF this]
  have "settings (resolve_store ?m) = default_mic_settings"
    unfolding resolve_store_def e by simp
  with conjunct1 [OF conjunct2 [OF spec]] show ?thesis by (simp only:)
qed

end
