(* ===== verification/Config.thy ===== *)
theory Config
  imports RustStd
begin

text \<open>
  \<open>src/fixed_str.rs\<close> and the \<open>Configuration\<close> of \<open>src/config.rs\<close>: bounded strings and the
  key-value store kept in flash. The storage itself is the \<open>sequential_storage\<close> crate: its
  operations are fields of the flash value, and \<open>flash_lawful\<close> states what its documentation
  promises of them. The locale \<open>kv_store\<close> is the store as its clients see it.
\<close>

section \<open>Bounded strings\<close>

datatype storage_error = ItemTooBig | BackendError nat

definition fixed_new :: rstr where
  "fixed_new = []"

text \<open>\<open>heapless::String::push_str\<close>: all of the text or nothing.\<close>

definition heapless_push_str :: "nat \<Rightarrow> rstr \<Rightarrow> rstr \<Rightarrow> rstr option" where
  "heapless_push_str n s t = (if length s + length t \<le> n then Some (s @ t) else None)"

definition fixed_with_str :: "nat \<Rightarrow> rstr \<Rightarrow> rstr option" where
  "fixed_with_str n s = heapless_push_str n fixed_new s"

definition fixed_try_into :: "nat \<Rightarrow> rstr \<Rightarrow> storage_error + rstr" where
  "fixed_try_into n s = (case heapless_push_str n [] s of None \<Rightarrow> Inl ItemTooBig | Some r \<Rightarrow> Inr r)"

definition STR_KEY_LEN :: nat where "STR_KEY_LEN = 32"
definition STR_VALUE_LEN :: nat where "STR_VALUE_LEN = 128"

lemma fixed_try_into_eq: "fixed_try_into n s = (if length s \<le> n then Inr s else Inl ItemTooBig)"
  by (simp add: fixed_try_into_def heapless_push_str_def)

section \<open>The flash\<close>

text \<open>The flash driver's state with the operations of \<open>sequential_storage::map\<close> over it, and the
  items it holds.\<close>

record 'f flash =
  flash_state :: 'f
  fetch_item :: "'f \<Rightarrow> rstr \<Rightarrow> 'f \<times> (storage_error + rstr option)"
  store_item :: "'f \<Rightarrow> rstr \<Rightarrow> rstr \<Rightarrow> 'f \<times> (storage_error + unit)"
  remove_item :: "'f \<Rightarrow> rstr \<Rightarrow> 'f \<times> (storage_error + unit)"
  erase_all :: "'f \<Rightarrow> 'f \<times> (storage_error + unit)"
  fetch_all_items :: "'f \<Rightarrow> 'f \<times> (storage_error + (rstr \<times> rstr) list)"
  flash_items :: "'f \<Rightarrow> rstr \<Rightarrow> rstr option"

text \<open>
  What the crate documents: reading changes nothing and gives the value last stored; a write
  that succeeds changes that one key, a write that fails changes nothing; erasing empties.
\<close>

definition flash_lawful :: "'f flash \<Rightarrow> bool" where
  "flash_lawful fl \<longleftrightarrow>
     (\<forall>st k. flash_items fl (fst (fetch_item fl st k)) = flash_items fl st
        \<and> snd (fetch_item fl st k) = Inr (flash_items fl st k))
   \<and> (\<forall>st k v. flash_items fl (fst (store_item fl st k v)) =
        (case snd (store_item fl st k v) of
           Inr _ \<Rightarrow> (flash_items fl st)(k \<mapsto> v) | Inl _ \<Rightarrow> flash_items fl st))
   \<and> (\<forall>st k. flash_items fl (fst (remove_item fl st k)) =
        (case snd (remove_item fl st k) of
           Inr _ \<Rightarrow> (flash_items fl st)(k := None) | Inl _ \<Rightarrow> flash_items fl st))
   \<and> (\<forall>st. flash_items fl (fst (erase_all fl st)) =
        (case snd (erase_all fl st) of Inr _ \<Rightarrow> Map.empty | Inl _ \<Rightarrow> flash_items fl st))"

section \<open>The configuration\<close>

record 'f configuration =
  conf_flash :: "'f flash option"

definition configuration_default :: "'f configuration" where
  "configuration_default = \<lparr>conf_flash = None\<rparr>"

definition assign_flash :: "'f configuration \<Rightarrow> 'f flash \<Rightarrow> 'f configuration" where
  "assign_flash c fl = c\<lparr>conf_flash := Some fl\<rparr>"

text \<open>\<open>key_and_buf\<close>: the key as a bounded string (the scratch buffer holds no state).\<close>

definition key_and_buf :: "rstr \<Rightarrow> storage_error + rstr" where
  "key_and_buf k = fixed_try_into STR_KEY_LEN k"

text \<open>\<open>flash_mut\<close> panics (\<open>todo!\<close>) while no flash is assigned; \<^term>\<open>None\<close> is that panic.\<close>

definition with_flash ::
    "'f configuration \<Rightarrow> ('f flash \<Rightarrow> 'f \<times> 'r) \<Rightarrow> ('f configuration \<times> 'r) option" where
  "with_flash c op =
     (case conf_flash c of
        None \<Rightarrow> None
      | Some fl \<Rightarrow> (let (st, r) = op fl in Some (c\<lparr>conf_flash := Some (fl\<lparr>flash_state := st\<rparr>)\<rparr>, r)))"

definition config_fetch ::
    "'f configuration \<Rightarrow> rstr \<Rightarrow> ('f configuration \<times> (storage_error + rstr option)) option" where
  "config_fetch c key =
     (case key_and_buf key of
        Inl e \<Rightarrow> Some (c, Inl e)
      | Inr k \<Rightarrow> with_flash c (\<lambda>fl. fetch_item fl (flash_state fl) k))"

definition config_remove ::
    "'f configuration \<Rightarrow> rstr \<Rightarrow> ('f configuration \<times> (storage_error + unit)) option" where
  "config_remove c key =
     (case key_and_buf key of
        Inl e \<Rightarrow> Some (c, Inl e)
      | Inr k \<Rightarrow> with_flash c (\<lambda>fl. remove_item fl (flash_state fl) k))"

definition config_store ::
    "'f configuration \<Rightarrow> rstr \<Rightarrow> rstr \<Rightarrow> ('f configuration \<times> (storage_error + unit)) option" where
  "config_store c key v =
     (case key_and_buf key of
        Inl e \<Rightarrow> Some (c, Inl e)
      | Inr k \<Rightarrow> with_flash c (\<lambda>fl. store_item fl (flash_state fl) k v))"

definition config_format ::
    "'f configuration \<Rightarrow> ('f configuration \<times> (storage_error + unit)) option" where
  "config_format c = with_flash c (\<lambda>fl. erase_all fl (flash_state fl))"

text \<open>The loop of \<open>get_all\<close>: an index map of 32 entries, a later item of a key replacing the
  earlier one in place; what does not fit is reported and ignored.\<close>

definition INDEX_MAP_CAP :: nat where "INDEX_MAP_CAP = 32"

fun index_map_insert :: "(rstr \<times> rstr) list \<Rightarrow> rstr \<Rightarrow> rstr \<Rightarrow> (rstr \<times> rstr) list" where
  "index_map_insert [] k v = [(k, v)]"
| "index_map_insert ((k', v') # m) k v =
     (if k' = k then (k, v) # m else (k', v') # index_map_insert m k v)"

fun get_all_loop ::
    "(rstr \<times> rstr) list \<Rightarrow> (rstr \<times> rstr) list \<Rightarrow> (rstr \<times> rstr) list \<Rightarrow>
     (rstr \<times> rstr) list \<times> (rstr \<times> rstr) list" where
  "get_all_loop m ignored [] = (m, ignored)"
| "get_all_loop m ignored ((k, v) # items) =
     (if k \<in> set (map fst m) \<or> length m < INDEX_MAP_CAP
      then get_all_loop (index_map_insert m k v) ignored items
      else get_all_loop m (ignored @ [(k, v)]) items)"

text \<open>\<open>get_all\<close> with the items it reports as ignored.\<close>

definition config_get_all ::
    "'f configuration \<Rightarrow>
     ('f configuration \<times> (storage_error + (rstr \<times> rstr) list \<times> (rstr \<times> rstr) list)) option" where
  "config_get_all c =
     with_flash c (\<lambda>fl. let (st, r) = fetch_all_items fl (flash_state fl)
       in (st, case r of Inl e \<Rightarrow> Inl e | Inr items \<Rightarrow> Inr (get_all_loop [] [] items)))"

section \<open>The store as an interface\<close>

text \<open>
  A client sees the items (\<open>view\<close>) and the three operations; keys that do not fit are refused
  without an effect, and a write either happens or does not.
\<close>

locale kv_store =
  fixes view :: "'s \<Rightarrow> rstr \<Rightarrow> rstr option"
    and inv :: "'s \<Rightarrow> bool"
    and fetch :: "'s \<Rightarrow> rstr \<Rightarrow> ('s \<times> (storage_error + rstr option)) option"
    and put :: "'s \<Rightarrow> rstr \<Rightarrow> rstr \<Rightarrow> ('s \<times> (storage_error + unit)) option"
    and del :: "'s \<Rightarrow> rstr \<Rightarrow> ('s \<times> (storage_error + unit)) option"
  assumes fetch_law: "inv s \<Longrightarrow> \<exists>s'. fetch s k = Some (s', if length k \<le> 32 then Inr (view s k) else Inl ItemTooBig)
      \<and> inv s' \<and> view s' = view s"
    and put_law: "inv s \<Longrightarrow> \<exists>s' r. put s k v = Some (s', r) \<and> inv s'
      \<and> view s' = (case r of Inr _ \<Rightarrow> (view s)(k \<mapsto> v) | Inl _ \<Rightarrow> view s)
      \<and> (32 < length k \<longrightarrow> r = Inl ItemTooBig)"
    and del_law: "inv s \<Longrightarrow> \<exists>s' r. del s k = Some (s', r) \<and> inv s'
      \<and> view s' = (case r of Inr _ \<Rightarrow> (view s)(k := None) | Inl _ \<Rightarrow> view s)"
begin

lemma fetch_short:
  assumes "inv s" and "length k \<le> 32"
  obtains s' where "fetch s k = Some (s', Inr (view s k))" "inv s'" "view s' = view s"
  using fetch_law [OF assms(1), of k] assms(2) by auto

lemma put_cases:
  assumes "inv s"
  obtains (stored) s' where "put s k v = Some (s', Inr ())" "inv s'" "view s' = (view s)(k \<mapsto> v)"
    | (refused) s' e where "put s k v = Some (s', Inl e)" "inv s'" "view s' = view s"
proof -
  obtain s' r where r: "put s k v = Some (s', r)" "inv s'"
    "view s' = (case r of Inr _ \<Rightarrow> (view s)(k \<mapsto> v) | Inl _ \<Rightarrow> view s)"
    using put_law [OF assms, of k v] by blast
  show thesis
  proof (cases r)
    case (Inl e)
    with r show thesis by (intro refused [of s' e]) simp_all
  next
    case (Inr u)
    with r show thesis by (intro stored [of s']) simp_all
  qed
qed

text \<open>A value written is read back; other keys are not disturbed.\<close>

lemma fetch_after_put:
  assumes "inv s" and "put s k v = Some (s1, Inr ())" and "length j \<le> 32"
  shows "\<exists>s2. fetch s1 j = Some (s2, Inr (if j = k then Some v else view s j))"
proof -
  have "inv s1" "view s1 = (view s)(k \<mapsto> v)"
    using put_law [OF assms(1), of k v] assms(2) by auto
  with fetch_law [of s1 j] assms(3) show ?thesis by auto
qed

lemma fetch_after_del:
  assumes "inv s" and "del s k = Some (s1, Inr ())" and "length k \<le> 32"
  shows "\<exists>s2. fetch s1 k = Some (s2, Inr None)"
proof -
  have "inv s1" "view s1 = (view s)(k := None)"
    using del_law [OF assms(1), of k] assms(2) by auto
  with fetch_law [of s1 k] assms(3) show ?thesis by auto
qed

end

definition config_view :: "'f configuration \<Rightarrow> rstr \<Rightarrow> rstr option" where
  "config_view c = (case conf_flash c of None \<Rightarrow> Map.empty | Some fl \<Rightarrow> flash_items fl (flash_state fl))"

definition config_inv :: "'f configuration \<Rightarrow> bool" where
  "config_inv c = (case conf_flash c of None \<Rightarrow> False | Some fl \<Rightarrow> flash_lawful fl)"

lemma config_cases:
  assumes "config_inv c"
  obtains fl where "conf_flash c = Some fl" "flash_lawful fl" "config_view c = flash_items fl (flash_state fl)"
  using assms by (auto simp: config_inv_def config_view_def split: option.splits)

lemma flash_lawful_upd [simp]: "flash_lawful (fl\<lparr>flash_state := st\<rparr>) = flash_lawful fl"
  by (simp add: flash_lawful_def cong: sum.case_cong)

lemma key_and_buf_eq: "key_and_buf k = (if length k \<le> 32 then Inr k else Inl ItemTooBig)"
  by (simp add: key_and_buf_def fixed_try_into_eq STR_KEY_LEN_def)

lemma config_fetch_law:
  assumes "config_inv c"
  shows "\<exists>c'. config_fetch c k = Some (c', if length k \<le> 32 then Inr (config_view c k) else Inl ItemTooBig)
     \<and> config_inv c' \<and> config_view c' = config_view c"
  using assms
proof (cases rule: config_cases)
  case (1 fl)
  obtain st r where f: "fetch_item fl (flash_state fl) k = (st, r)" by fastforce
  with 1(2) have "flash_items fl st = flash_items fl (flash_state fl)" "r = Inr (flash_items fl (flash_state fl) k)"
    unfolding flash_lawful_def by (metis fst_conv snd_conv)+
  with 1 f assms show ?thesis
    by (auto simp: config_fetch_def key_and_buf_eq with_flash_def config_inv_def config_view_def)
qed

lemma config_store_law:
  assumes "config_inv c"
  shows "\<exists>c' r. config_store c k v = Some (c', r) \<and> config_inv c'
     \<and> config_view c' = (case r of Inr _ \<Rightarrow> (config_view c)(k \<mapsto> v) | Inl _ \<Rightarrow> config_view c)
     \<and> (32 < length k \<longrightarrow> r = Inl ItemTooBig)"
  using assms
proof (cases rule: config_cases)
  case (1 fl)
  obtain st r where f: "store_item fl (flash_state fl) k v = (st, r)" by fastforce
  with 1(2) have "flash_items fl st =
      (case r of Inr _ \<Rightarrow> (flash_items fl (flash_state fl))(k \<mapsto> v) | Inl _ \<Rightarrow> flash_items fl (flash_state fl))"
    unfolding flash_lawful_def by (metis fst_conv snd_conv)
  with 1 f assms show ?thesis
    by (auto simp: config_store_def key_and_buf_eq with_flash_def config_inv_def config_view_def split: sum.splits)
qed

lemma config_remove_law:
  assumes "config_inv c"
  shows "\<exists>c' r. config_remove c k = Some (c', r) \<and> config_inv c'
     \<and> config_view c' = (case r of Inr _ \<Rightarrow> (config_view c)(k := None) | Inl _ \<Rightarrow> config_view c)"
  using assms
proof (cases rule: config_cases)
  case (1 fl)
  obtain st r where f: "remove_item fl (flash_state fl) k = (st, r)" by fastforce
  with 1(2) have "flash_items fl st =
      (case r of Inr _ \<Rightarrow> (flash_items fl (flash_state fl))(k := None) | Inl _ \<Rightarrow> flash_items fl (flash_state fl))"
    unfolding flash_lawful_def by (metis fst_conv snd_conv)
  with 1 f assms show ?thesis
    by (auto simp: config_remove_def key_and_buf_eq with_flash_def config_inv_def config_view_def split: sum.splits)
qed

interpretation conf: kv_store config_view config_inv config_fetch config_store config_remove
  by unfold_locales (rule config_fetch_law config_store_law config_remove_law; assumption)+

text \<open>A flash that keeps its items in a map and never fails.\<close>

definition map_flash :: "(rstr \<Rightarrow> rstr option) \<Rightarrow> (rstr \<Rightarrow> rstr option) flash" where
  "map_flash m = \<lparr>flash_state = m,
     fetch_item = (\<lambda>st k. (st, Inr (st k))),
     store_item = (\<lambda>st k v. (st(k \<mapsto> v), Inr ())),
     remove_item = (\<lambda>st k. (st(k := None), Inr ())),
     erase_all = (\<lambda>st. (Map.empty, Inr ())),
     fetch_all_items = (\<lambda>st. (st, Inr [])),
     flash_items = (\<lambda>st. st)\<rparr>"

lemma map_flash_lawful: "flash_lawful (map_flash m)"
  by (simp add: flash_lawful_def map_flash_def)

lemma config_inv_map_flash: "config_inv (assign_flash configuration_default (map_flash m))"
  by (simp add: config_inv_def assign_flash_def map_flash_lawful)

text \<open>The configuration store is faithful: after a write that succeeds, reading a key gives
  the value written if it is that key and what was there before otherwise; after a removal
  that succeeds the key is gone; a key longer than 32 bytes is refused by every operation.\<close>

theorem config_store_fetch:
  assumes "config_inv c" and "config_store c k v = Some (c1, Inr ())" and "length j \<le> 32"
  shows "(\<exists>c2. config_fetch c1 j = Some (c2, Inr (if j = k then Some v else config_view c j)))
    \<and> length k \<le> 32
    \<and> (\<forall>c3. config_remove c1 k = Some (c3, Inr ()) \<longrightarrow>
         (\<exists>c4. config_fetch c3 k = Some (c4, Inr None)))"
proof -
  have k: "length k \<le> 32"
    using conf.put_law [OF assms(1), of k v] assms(2) by (cases "length k \<le> 32") auto
  have "config_inv c1" using conf.put_law [OF assms(1), of k v] assms(2) by auto
  then show ?thesis
    using conf.fetch_after_put [OF assms] conf.fetch_after_del [of c1 k] k by auto
qed

theorem config_store_fetch_witness:
  "\<exists>c2. config_fetch (assign_flash configuration_default (map_flash [''wifi_ssid'' \<mapsto> ''home'']))
     ''wifi_ssid'' = Some (c2, Inr (Some ''home''))"
proof -
  let ?c = "assign_flash configuration_default (map_flash Map.empty)"
  have s: "config_store ?c ''wifi_ssid'' ''home'' = Some (assign_flash configuration_default
      (map_flash [''wifi_ssid'' \<mapsto> ''home'']), Inr ())"
    by (simp add: config_store_def key_and_buf_eq with_flash_def assign_flash_def map_flash_def)
  show ?thesis
    using config_store_fetch [OF config_inv_map_flash s, of "''wifi_ssid''"] by auto
qed

end
