(* ===== verification/MicStore.thy ===== *)
theory MicStore
  imports MicConfig Config "HOL-Library.Sublist"
begin

text \<open>
  The microphone's settings in the configuration store (\<open>src/mic.rs\<close>): reading the three
  \<open>ptt_*\<close> keys, repairing the stale ones with writes that may fail, and what the console and
  the recorder are told about the result. \<open>dbg\<close> is the \<open>Debug\<close> text of a storage error.
  Messages are what \<open>ptt_fail\<close> logs and shows.
\<close>

section \<open>Operations\<close>

definition store_setting ::
    "'f configuration \<Rightarrow> rstr \<Rightarrow> rstr \<Rightarrow> ('f configuration \<times> (storage_error + unit)) option" where
  "store_setting c key v =
     (case fixed_try_into STR_VALUE_LEN v of
        Inl e \<Rightarrow> Some (c, Inl e)
      | Inr v' \<Rightarrow> config_store c key v')"

text \<open>\<open>fetch(key).await.ok().flatten()\<close>: an error reads as unset.\<close>

definition fetch_setting :: "'f configuration \<Rightarrow> rstr \<Rightarrow> ('f configuration \<times> rstr option) option" where
  "fetch_setting c key =
     map_option (\<lambda>(c', r). (c', case r of Inl _ \<Rightarrow> None | Inr v \<Rightarrow> v)) (config_fetch c key)"

definition repair_clock_pair ::
    "'f configuration \<Rightarrow> rstr option \<Rightarrow> clock_pair_fix option \<Rightarrow>
     ('f configuration \<times> (rstr \<times> storage_error) list) option" where
  "repair_clock_pair c rate clock_pair =
     (case clock_pair of
        None \<Rightarrow> Some (c, [])
      | Some p \<Rightarrow> do {
          (c1, r1) \<leftarrow> store_setting c RATE_KEY (pair_rate p);
          case r1 of
            Inl e \<Rightarrow> Some (c1, [(RATE_KEY, e)])
          | Inr _ \<Rightarrow> do {
              (c2, r2) \<leftarrow> store_setting c1 BITS_KEY (pair_bits p);
              case r2 of
                Inr _ \<Rightarrow> Some (c2, [])
              | Inl e \<Rightarrow>
                  (case rate of
                     None \<Rightarrow> Some (c2, [(BITS_KEY, e)])
                   | Some original \<Rightarrow> do {
                       (c3, _) \<leftarrow> store_setting c2 RATE_KEY original;
                       Some (c3, [(BITS_KEY, e)])
                     })
            }
        })"

fun store_fixes ::
    "'f configuration \<Rightarrow> (rstr \<times> storage_error) list \<Rightarrow> stored_value_fix list \<Rightarrow>
     ('f configuration \<times> (rstr \<times> storage_error) list) option" where
  "store_fixes c errs [] = Some (c, errs)"
| "store_fixes c errs (f # fixes) = do {
     (c', r) \<leftarrow> store_setting c (fix_key f) (fix_value f);
     store_fixes c' (case r of Inl e \<Rightarrow> errs @ [(fix_key f, e)] | Inr _ \<Rightarrow> errs) fixes
   }"

record unreconciled_key =
  uk_key :: rstr
  uk_stored :: rstr

definition unreconciled_of_fix ::
    "rstr option \<Rightarrow> rstr option \<Rightarrow> rstr option \<Rightarrow> stored_value_fix \<Rightarrow> unreconciled_key" where
  "unreconciled_of_fix bits rate edge f =
     \<lparr>uk_key = fix_key f,
      uk_stored = unwrap_or
        (if fix_key f = BITS_KEY then bits
         else if fix_key f = RATE_KEY then rate
         else if fix_key f = EDGE_KEY then edge
         else None) (fix_value f)\<rparr>"

definition unreconciled_of_pair :: "rstr option \<Rightarrow> rstr option \<Rightarrow> clock_pair_fix option \<Rightarrow> unreconciled_key list" where
  "unreconciled_of_pair bits rate clock_pair =
     (case clock_pair of
        None \<Rightarrow> []
      | Some p \<Rightarrow> [\<lparr>uk_key = BITS_KEY, uk_stored = unwrap_or bits (pair_bits p)\<rparr>,
                   \<lparr>uk_key = RATE_KEY, uk_stored = unwrap_or rate (pair_rate p)\<rparr>])"

definition reconcile_message :: "(storage_error \<Rightarrow> rstr) \<Rightarrow> (rstr \<times> storage_error) list \<Rightarrow> unreconciled_key \<Rightarrow> rstr" where
  "reconcile_message dbg errs u =
     (case find (\<lambda>(k, _). k = uk_key u) errs of
        Some (_, e) \<Rightarrow> ''failed to reconcile '' @ uk_key u @ '' ('' @ dbg e @ '') - store still holds ''
                        @ uk_stored u @ ''; console reports flag it''
      | None \<Rightarrow> uk_key u @ '' store is unreconciled (still holds '' @ uk_stored u
                 @ ''); console reports flag it'')"

record store_outcome =
  outcome_stored :: mic_settings
  outcome_resolved :: resolved_settings
  unreconciled :: "unreconciled_key list"

definition read_and_reconcile ::
    "(storage_error \<Rightarrow> rstr) \<Rightarrow> 'f configuration \<Rightarrow> ('f configuration \<times> store_outcome \<times> rstr list) option" where
  "read_and_reconcile dbg c = do {
     (c, bits) \<leftarrow> fetch_setting c BITS_KEY;
     (c, rate) \<leftarrow> fetch_setting c RATE_KEY;
     (c, edge) \<leftarrow> fetch_setting c EDGE_KEY;
     (_, fixes, clock_pair) \<leftarrow> reconcile bits rate edge;
     (c, errs) \<leftarrow> repair_clock_pair c rate clock_pair;
     (c, errs) \<leftarrow> store_fixes c errs fixes;
     (c, bits) \<leftarrow> fetch_setting c BITS_KEY;
     (c, rate) \<leftarrow> fetch_setting c RATE_KEY;
     (c, edge) \<leftarrow> fetch_setting c EDGE_KEY;
     (resolved, remaining, remaining_pair) \<leftarrow> reconcile bits rate edge;
     let us = map (unreconciled_of_fix bits rate edge) remaining
              @ unreconciled_of_pair bits rate remaining_pair;
     Some (c, \<lparr>outcome_stored = raw resolved, outcome_resolved = resolved, unreconciled = us\<rparr>,
           map (reconcile_message dbg errs) us)
   }"

definition load_settings ::
    "(storage_error \<Rightarrow> rstr) \<Rightarrow> 'f configuration \<Rightarrow> ('f configuration \<times> mic_settings \<times> rstr list) option" where
  "load_settings dbg c = do {
     (c, outcome, msgs) \<leftarrow> read_and_reconcile dbg c;
     let r = outcome_resolved outcome;
     Some (c, settings r,
       msgs @ (if fell_back r then [''stored mic clock settings out of range, using defaults''] else []))
   }"

definition validate_config_setting ::
    "(storage_error \<Rightarrow> rstr) \<Rightarrow> 'f configuration \<Rightarrow> rstr \<Rightarrow> rstr \<Rightarrow>
     ('f configuration \<times> (rstr + unit) \<times> rstr list) option" where
  "validate_config_setting dbg c key v = do {
     (c, outcome, msgs) \<leftarrow> read_and_reconcile dbg c;
     Some (c, validate_setting_with_store (outcome_stored outcome) (settings (outcome_resolved outcome)) key v, msgs)
   }"

definition mic_effective_setting ::
    "(storage_error \<Rightarrow> rstr) \<Rightarrow> 'f configuration \<Rightarrow> rstr \<Rightarrow>
     ('f configuration \<times> rstr option \<times> rstr list) option" where
  "mic_effective_setting dbg c key = do {
     (c, outcome, msgs) \<leftarrow> read_and_reconcile dbg c;
     let stale = map_option uk_stored (find (\<lambda>u. uk_key u = key) (unreconciled outcome));
     Some (c, report_setting key (settings (outcome_resolved outcome)) stale, msgs)
   }"

section \<open>The store under failing writes\<close>

lemma fetch_setting_eq:
  assumes "config_inv c" and "length key \<le> 32"
  obtains c' where "fetch_setting c key = Some (c', config_view c key)" "config_inv c'"
    "config_view c' = config_view c"
proof -
  obtain c' where "config_fetch c key = Some (c', Inr (config_view c key))" "config_inv c'"
    "config_view c' = config_view c"
    using conf.fetch_short [OF assms] by blast
  then show thesis by (intro that [of c']) (simp_all add: fetch_setting_def)
qed

lemma ptt_keys_short [simp]: "length BITS_KEY \<le> 32" "length RATE_KEY \<le> 32" "length EDGE_KEY \<le> 32"
  by (simp_all add: BITS_KEY_def RATE_KEY_def EDGE_KEY_def)

text \<open>A write of a setting happens or changes nothing.\<close>

lemma store_setting_cases:
  assumes "config_inv c"
  obtains (stored) c' where "store_setting c key v = Some (c', Inr ())" "config_inv c'"
      "config_view c' = (config_view c)(key \<mapsto> v)"
    | (refused) c' e where "store_setting c key v = Some (c', Inl e)" "config_inv c'"
      "config_view c' = config_view c"
proof (cases "length v \<le> STR_VALUE_LEN")
  case True
  show thesis
    using conf.put_cases [OF assms, of key v] True that
    by (auto simp: store_setting_def fixed_try_into_eq)
next
  case False
  with assms show thesis using refused [of c ItemTooBig]
    by (simp add: store_setting_def fixed_try_into_eq)
qed

text \<open>The writes that land are a subsequence of those asked for.\<close>

lemma store_fixes_view:
  assumes "config_inv c"
  shows "\<exists>c' errs' fs. store_fixes c errs fxs = Some (c', errs @ errs') \<and> config_inv c'
    \<and> subseq fs fxs \<and> config_view c' = foldl apply_fix (config_view c) fs
    \<and> (errs' = [] \<longrightarrow> fs = fxs)"
  using assms
proof (induction fxs arbitrary: c errs)
  case Nil
  then show ?case by auto
next
  case (Cons f fxs)
  from Cons.prems show ?case
  proof (cases rule: store_setting_cases [of c "fix_key f" "fix_value f"])
    case (stored c1)
    obtain c' errs' fs where "store_fixes c1 errs fxs = Some (c', errs @ errs')" "config_inv c'"
      "subseq fs fxs" "config_view c' = foldl apply_fix (config_view c1) fs" "errs' = [] \<longrightarrow> fs = fxs"
      using Cons.IH [OF stored(2), of errs] by blast
    with stored show ?thesis
      by (intro exI [of _ c'] exI [of _ errs'] exI [of _ "f # fs"]) (simp add: apply_fix_def [of _ f])
  next
    case (refused c1 e)
    obtain c' errs' fs where "store_fixes c1 (errs @ [(fix_key f, e)]) fxs = Some (c', (errs @ [(fix_key f, e)]) @ errs')"
      "config_inv c'" "subseq fs fxs" "config_view c' = foldl apply_fix (config_view c1) fs"
      using Cons.IH [OF refused(2), of "errs @ [(fix_key f, e)]"] by blast
    with refused show ?thesis
      by (intro exI [of _ c'] exI [of _ "(fix_key f, e) # errs'"] exI [of _ fs]) (simp add: list_emb_Cons)
  qed
qed

text \<open>The clock pair is written whole, rate only (when its restoration fails too), or not at all.\<close>

lemma repair_clock_pair_view:
  assumes "config_inv c" and "pair \<noteq> None \<longrightarrow> rate \<noteq> None \<and> config_view c RATE_KEY = rate"
  shows "\<exists>c' errs. repair_clock_pair c rate pair = Some (c', errs) \<and> config_inv c'
    \<and> (config_view c' = config_view c \<and> (errs = [] \<longrightarrow> pair = None)
       \<or> (\<exists>p. pair = Some p \<and> errs \<noteq> [] \<and> config_view c' = (config_view c)(RATE_KEY \<mapsto> pair_rate p))
       \<or> (\<exists>p. pair = Some p \<and> config_view c' = (config_view c)(RATE_KEY \<mapsto> pair_rate p, BITS_KEY \<mapsto> pair_bits p)))"
proof (cases pair)
  case None
  with assms show ?thesis by (simp add: repair_clock_pair_def)
next
  case (Some p)
  with assms(2) obtain original where rate: "rate = Some original" "config_view c RATE_KEY = Some original" by auto
  from assms(1) show ?thesis
  proof (cases rule: store_setting_cases [of c RATE_KEY "pair_rate p"])
    case (refused c1 e)
    with Some show ?thesis by (simp add: repair_clock_pair_def)
  next
    case first: (stored c1)
    from first(2) show ?thesis
    proof (cases rule: store_setting_cases [of c1 BITS_KEY "pair_bits p"])
      case (stored c2)
      with Some first show ?thesis by (simp add: repair_clock_pair_def)
    next
      case second: (refused c2 e)
      from second(2) show ?thesis
      proof (cases rule: store_setting_cases [of c2 RATE_KEY original])
        case (stored c3)
        then have "config_view c3 = config_view c"
          using first second rate(2) by (auto simp: fun_eq_iff)
        with Some first second stored rate show ?thesis by (simp add: repair_clock_pair_def)
      next
        case (refused c3 e3)
        with Some first second rate show ?thesis by (simp add: repair_clock_pair_def)
      qed
    qed
  qed
qed

lemma foldl_apply_fix_cases:
  "foldl apply_fix m fs k = m k \<or> (\<exists>f\<in>set fs. fix_key f = k \<and> foldl apply_fix m fs k = Some (fix_value f))"
  by (induction fs rule: rev_induct) (auto simp: apply_fix_def)

lemma subseq_set: "subseq xs ys \<Longrightarrow> set xs \<subseteq> set ys"
  by (auto elim: list_emb_set)

text \<open>Every state a repair may end in resolves to the settings in effect before.\<close>

lemma repaired_settings:
  fixes b r ed :: "rstr option"
  defines "e \<equiv> settings (resolve b r ed)"
  defines "bs \<equiv> stale b parse_u32 (mic_bits e)" and "rs \<equiv> stale r parse_u32 (mic_rate e)"
  defines "sb \<equiv> show_nat (unat (mic_bits e))" and "sr \<equiv> show_nat (unat (mic_rate e))"
  assumes pair: "b' = b \<and> r' = r \<or> bs \<and> b' = Some sb \<and> r' = (if rs then Some sr else r) \<or> rs \<and> b' = b \<and> r' = Some sr"
    and edge: "ed' = ed \<or> ed' = Some (show_nat (if edge_flip e then 1 else 0))"
  shows "settings (resolve b' r' ed') = e"
proof -
  have e: "e = settings (resolve b r ed)" by (simp add: e_def)
  have valid: "mic_settings_valid (mic_bits e) (mic_rate e)"
    by (simp add: e resolve_settings_valid)
  have ed: "unwrap_or (Option.bind ed' parse_bool) DEFAULT_EDGE_FLIP = edge_flip e"
    using edge resolve_reads_edge [OF e] by (elim disjE) (simp_all only: bind.bind_lunit parse_bool_show unwrap_or_simps)
  have bits: "unwrap_or (Option.bind (Some sb) parse_u32) DEFAULT_BITS = mic_bits e"
    and rate: "unwrap_or (Option.bind (Some sr) parse_u32) DEFAULT_RATE_HZ = mic_rate e"
    by (simp_all add: sb_def sr_def)
  from pair show ?thesis
  proof (elim disjE conjE)
    assume "b' = b" "r' = r"
    with ed show ?thesis
      by (intro mic_settings.equality) (auto simp: e resolve_def Let_def)
  next
    assume *: "bs" "b' = Some sb" "r' = (if rs then Some sr else r)"
    have "unwrap_or (Option.bind r' parse_u32) DEFAULT_RATE_HZ = mic_rate e"
      using * rate resolve_reads_rate [OF e] by (simp add: rs_def del: bind.bind_lunit)
    with * valid bits ed show ?thesis by (intro resolve_readable) simp_all
  next
    assume *: "rs" "b' = b" "r' = Some sr"
    show ?thesis
    proof (cases bs)
      case True
      with * ed show ?thesis
        using resolve_rate_first [OF e] by (simp add: bs_def rs_def sr_def)
    next
      case False
      with * valid rate ed resolve_reads_bits [OF e] show ?thesis
        by (intro resolve_readable) (simp_all add: bs_def)
    qed
  qed
qed

text \<open>A key is stale when the store holds a value for it that does not read as the effective one.\<close>

definition stale_key :: "ptt_store \<Rightarrow> rstr \<Rightarrow> bool" where
  "stale_key m k =
     (let e = settings (resolve_store m)
      in k = BITS_KEY \<and> stale (m BITS_KEY) parse_u32 (mic_bits e)
       \<or> k = RATE_KEY \<and> stale (m RATE_KEY) parse_u32 (mic_rate e)
       \<or> k = EDGE_KEY \<and> stale (m EDGE_KEY) parse_bool (edge_flip e))"

lemma reconcile_store_eq:
  "reconcile (m BITS_KEY) (m RATE_KEY) (m EDGE_KEY) = Some (resolve_store m,
     repairs_of (settings (resolve_store m)) (stale_key m BITS_KEY) (stale_key m RATE_KEY) (stale_key m EDGE_KEY))"
  using reconcile_eq [of "settings (resolve_store m)" "m BITS_KEY" "m RATE_KEY" "m EDGE_KEY"]
  by (simp add: resolve_store_def stale_key_def Let_def)

lemma stale_key_Some: "stale_key m k \<Longrightarrow> \<exists>v. m k = Some v"
  by (auto simp: stale_key_def stale_def Let_def)

lemma stale_key_owns: "stale_key m k \<Longrightarrow> owns k"
  by (auto simp: stale_key_def owns_def Let_def)

text \<open>The keys reported are the stale ones, with the values the store holds.\<close>

lemma unreconciled_are_stale:
  assumes "repairs_of e (stale_key m BITS_KEY) (stale_key m RATE_KEY) (stale_key m EDGE_KEY) = (remaining, pair)"
  shows "set (map (unreconciled_of_fix (m BITS_KEY) (m RATE_KEY) (m EDGE_KEY)) remaining
       @ unreconciled_of_pair (m BITS_KEY) (m RATE_KEY) pair)
     = {\<lparr>uk_key = k, uk_stored = v\<rparr> | k v. stale_key m k \<and> m k = Some v}"
proof -
  have own: "stale_key m k \<Longrightarrow> k = BITS_KEY \<or> k = RATE_KEY \<or> k = EDGE_KEY" for k
    using stale_key_owns by (auto simp: owns_def)
  have "{\<lparr>uk_key = k, uk_stored = v\<rparr> | k v. stale_key m k \<and> m k = Some v}
    = (\<lambda>k. \<lparr>uk_key = k, uk_stored = the (m k)\<rparr>) ` {k \<in> {BITS_KEY, RATE_KEY, EDGE_KEY}. stale_key m k}"
    (is "?L = ?f ` ?K")
  proof (intro equalityI subsetI)
    fix u assume "u \<in> ?L"
    then obtain k v where u: "u = \<lparr>uk_key = k, uk_stored = v\<rparr>" "stale_key m k" "m k = Some v" by blast
    then have "u = ?f k" "k \<in> ?K" using own [of k] by simp_all
    then show "u \<in> ?f ` ?K" by (rule image_eqI)
  next
    fix u assume "u \<in> ?f ` ?K"
    then obtain k where "u = ?f k" "stale_key m k" by blast
    moreover from stale_key_Some [OF this(2)] obtain v where "m k = Some v" by blast
    ultimately show "u \<in> ?L" by simp
  qed
  moreover have "set remaining = (if stale_key m BITS_KEY \<and> \<not> stale_key m RATE_KEY then {\<lparr>fix_key = BITS_KEY, fix_value = show_nat (unat (mic_bits e))\<rparr>} else {})
    \<union> (if stale_key m RATE_KEY \<and> \<not> stale_key m BITS_KEY then {\<lparr>fix_key = RATE_KEY, fix_value = show_nat (unat (mic_rate e))\<rparr>} else {})
    \<union> (if stale_key m EDGE_KEY then {\<lparr>fix_key = EDGE_KEY, fix_value = show_nat (if edge_flip e then 1 else 0)\<rparr>} else {})"
    using assms by (auto simp: repairs_of_def split: if_splits)
  moreover have "pair = (if stale_key m BITS_KEY \<and> stale_key m RATE_KEY
     then Some \<lparr>pair_bits = show_nat (unat (mic_bits e)), pair_rate = show_nat (unat (mic_rate e))\<rparr> else None)"
    using assms by (simp add: repairs_of_def)
  moreover have "{k \<in> {a, b, c'}. P k} = (if P a then {a} else {}) \<union> (if P b then {b} else {}) \<union> (if P c' then {c'} else {})"
    for a b c' and P :: "rstr \<Rightarrow> bool" by auto
  ultimately show ?thesis
    using stale_key_Some [of m BITS_KEY] stale_key_Some [of m RATE_KEY] stale_key_Some [of m EDGE_KEY]
    by (cases "stale_key m BITS_KEY"; cases "stale_key m RATE_KEY"; cases "stale_key m EDGE_KEY")
       (auto simp: unreconciled_of_fix_def unreconciled_of_pair_def unwrap_or_def)
qed

text \<open>The store after the repairs, whichever of the writes failed.\<close>

lemma repairs_preserve:
  fixes m :: ptt_store
  defines "e \<equiv> settings (resolve_store m)"
  assumes fp: "repairs_of e (stale_key m BITS_KEY) (stale_key m RATE_KEY) (stale_key m EDGE_KEY) = (fxs, pair)"
    and m1: "m1 = m \<or> (\<exists>p. pair = Some p \<and> m1 = m(RATE_KEY \<mapsto> pair_rate p))
      \<or> (\<exists>p. pair = Some p \<and> m1 = m(RATE_KEY \<mapsto> pair_rate p, BITS_KEY \<mapsto> pair_bits p))"
    and fs: "set fs \<subseteq> set fxs" and m2: "m2 = foldl apply_fix m1 fs"
  shows "settings (resolve_store m2) = e \<and> (\<forall>k. \<not> owns k \<longrightarrow> m2 k = m k)"
proof -
  let ?bs = "stale_key m BITS_KEY" and ?rs = "stale_key m RATE_KEY"
  have fx: "f \<in> set fxs \<Longrightarrow>
      fix_key f = BITS_KEY \<and> ?bs \<and> \<not> ?rs \<and> fix_value f = show_nat (unat (mic_bits e))
    \<or> fix_key f = RATE_KEY \<and> ?rs \<and> \<not> ?bs \<and> fix_value f = show_nat (unat (mic_rate e))
    \<or> fix_key f = EDGE_KEY \<and> fix_value f = show_nat (if edge_flip e then 1 else 0)" for f
    using fp by (auto simp: repairs_of_def split: if_splits)
  have pr: "pair = Some p \<Longrightarrow> ?bs \<and> ?rs \<and> pair_bits p = show_nat (unat (mic_bits e))
      \<and> pair_rate p = show_nat (unat (mic_rate e))" for p
    using fp by (auto simp: repairs_of_def split: if_splits)
  have fb: "f \<in> set fs \<Longrightarrow> fix_key f = BITS_KEY \<Longrightarrow> ?bs \<and> \<not> ?rs \<and> fix_value f = show_nat (unat (mic_bits e))"
    and fr: "f \<in> set fs \<Longrightarrow> fix_key f = RATE_KEY \<Longrightarrow> ?rs \<and> \<not> ?bs \<and> fix_value f = show_nat (unat (mic_rate e))"
    and fe: "f \<in> set fs \<Longrightarrow> fix_key f = EDGE_KEY \<Longrightarrow> fix_value f = show_nat (if edge_flip e then 1 else 0)"
    and fo: "f \<in> set fs \<Longrightarrow> owns (fix_key f)" for f
    using fx [of f] fs by (auto simp: owns_def)
  have key: "m2 k = m1 k \<or> (\<exists>f\<in>set fs. fix_key f = k \<and> m2 k = Some (fix_value f))" for k
    unfolding m2 by (rule foldl_apply_fix_cases)
  have other: "\<not> owns k \<longrightarrow> m2 k = m k" for k
    using key [of k] fo m1 by (auto simp: owns_def)
  have edge: "m2 EDGE_KEY = m EDGE_KEY \<or> m2 EDGE_KEY = Some (show_nat (if edge_flip e then 1 else 0))"
    using key [of EDGE_KEY] fe m1 by auto
  have bits: "m2 BITS_KEY = m1 BITS_KEY \<or> ?bs \<and> \<not> ?rs \<and> m2 BITS_KEY = Some (show_nat (unat (mic_bits e)))"
    using key [of BITS_KEY] fb by metis
  have rate: "m2 RATE_KEY = m1 RATE_KEY \<or> ?rs \<and> \<not> ?bs \<and> m2 RATE_KEY = Some (show_nat (unat (mic_rate e)))"
    using key [of RATE_KEY] fr by metis
  have pair: "m2 BITS_KEY = m BITS_KEY \<and> m2 RATE_KEY = m RATE_KEY
    \<or> ?bs \<and> m2 BITS_KEY = Some (show_nat (unat (mic_bits e)))
        \<and> m2 RATE_KEY = (if ?rs then Some (show_nat (unat (mic_rate e))) else m RATE_KEY)
    \<or> ?rs \<and> m2 BITS_KEY = m BITS_KEY \<and> m2 RATE_KEY = Some (show_nat (unat (mic_rate e)))"
    using m1 bits rate pr by auto
  have st: "settings (resolve (m BITS_KEY) (m RATE_KEY) (m EDGE_KEY)) = e"
    "stale (m BITS_KEY) parse_u32 (mic_bits e) = ?bs" "stale (m RATE_KEY) parse_u32 (mic_rate e) = ?rs"
    by (simp_all add: e_def resolve_store_def stale_key_def Let_def)
  have "settings (resolve (m2 BITS_KEY) (m2 RATE_KEY) (m2 EDGE_KEY)) = e"
    using repaired_settings [of "m2 BITS_KEY" "m BITS_KEY" "m2 RATE_KEY" "m RATE_KEY" "m EDGE_KEY" "m2 EDGE_KEY"]
      pair edge by (simp only: st)
  with other show ?thesis by (simp add: resolve_store_def)
qed

lemma read_and_reconcile_spec:
  assumes "config_inv c"
  shows "\<exists>c' out msgs. read_and_reconcile dbg c = Some (c', out, msgs) \<and> config_inv c'
    \<and> settings (resolve_store (config_view c')) = settings (resolve_store (config_view c))
    \<and> (\<forall>k. \<not> owns k \<longrightarrow> config_view c' k = config_view c k)
    \<and> outcome_resolved out = resolve_store (config_view c')
    \<and> outcome_stored out = raw (resolve_store (config_view c'))
    \<and> set (unreconciled out) = {\<lparr>uk_key = k, uk_stored = v\<rparr> | k v. stale_key (config_view c') k \<and> config_view c' k = Some v}
    \<and> length msgs = length (unreconciled out)"
proof -
  let ?m = "config_view c"
  obtain c1 where f1: "fetch_setting c BITS_KEY = Some (c1, ?m BITS_KEY)" "config_inv c1" "config_view c1 = ?m"
    using fetch_setting_eq [OF assms ptt_keys_short(1)] by metis
  obtain c2 where f2: "fetch_setting c1 RATE_KEY = Some (c2, ?m RATE_KEY)" "config_inv c2" "config_view c2 = ?m"
    using fetch_setting_eq [OF f1(2) ptt_keys_short(2)] f1(3) by metis
  obtain c3 where f3: "fetch_setting c2 EDGE_KEY = Some (c3, ?m EDGE_KEY)" "config_inv c3" "config_view c3 = ?m"
    using fetch_setting_eq [OF f2(2) ptt_keys_short(3)] f2(3) by metis
  obtain fxs pair where fp: "repairs_of (settings (resolve_store ?m)) (stale_key ?m BITS_KEY)
      (stale_key ?m RATE_KEY) (stale_key ?m EDGE_KEY) = (fxs, pair)" by fastforce
  have "pair \<noteq> None \<longrightarrow> ?m RATE_KEY \<noteq> None"
    using fp stale_key_Some [of ?m RATE_KEY] by (auto simp: repairs_of_def split: if_splits)
  then obtain c4 errs where w1: "repair_clock_pair c3 (?m RATE_KEY) pair = Some (c4, errs)" "config_inv c4"
    and v1: "config_view c4 = ?m \<or> (\<exists>p. pair = Some p \<and> config_view c4 = ?m(RATE_KEY \<mapsto> pair_rate p))
      \<or> (\<exists>p. pair = Some p \<and> config_view c4 = ?m(RATE_KEY \<mapsto> pair_rate p, BITS_KEY \<mapsto> pair_bits p))"
    using repair_clock_pair_view [OF f3(2), of pair "?m RATE_KEY"] f3(3) by metis
  obtain c5 errs' fs where w2: "store_fixes c4 errs fxs = Some (c5, errs @ errs')" "config_inv c5"
    and v2: "subseq fs fxs" "config_view c5 = foldl apply_fix (config_view c4) fs"
    using store_fixes_view [OF w1(2)] by blast
  let ?m' = "config_view c5"
  obtain c6 where g1: "fetch_setting c5 BITS_KEY = Some (c6, ?m' BITS_KEY)" "config_inv c6" "config_view c6 = ?m'"
    using fetch_setting_eq [OF w2(2) ptt_keys_short(1)] by metis
  obtain c7 where g2: "fetch_setting c6 RATE_KEY = Some (c7, ?m' RATE_KEY)" "config_inv c7" "config_view c7 = ?m'"
    using fetch_setting_eq [OF g1(2) ptt_keys_short(2)] g1(3) by metis
  obtain c8 where g3: "fetch_setting c7 EDGE_KEY = Some (c8, ?m' EDGE_KEY)" "config_inv c8" "config_view c8 = ?m'"
    using fetch_setting_eq [OF g2(2) ptt_keys_short(3)] g2(3) by metis
  obtain rem rpair where rp: "repairs_of (settings (resolve_store ?m')) (stale_key ?m' BITS_KEY)
      (stale_key ?m' RATE_KEY) (stale_key ?m' EDGE_KEY) = (rem, rpair)" by fastforce
  let ?us = "map (unreconciled_of_fix (?m' BITS_KEY) (?m' RATE_KEY) (?m' EDGE_KEY)) rem
    @ unreconciled_of_pair (?m' BITS_KEY) (?m' RATE_KEY) rpair"
  have run: "read_and_reconcile dbg c = Some (c8, \<lparr>outcome_stored = raw (resolve_store ?m'),
      outcome_resolved = resolve_store ?m', unreconciled = ?us\<rparr>, map (reconcile_message dbg (errs @ errs')) ?us)"
    using f1(1) f2(1) f3(1) w1(1) w2(1) g1(1) g2(1) g3(1)
    by (simp add: read_and_reconcile_def reconcile_store_eq fp rp Let_def del: map_append)
  show ?thesis
    unfolding run using repairs_preserve [OF fp v1 subseq_set [OF v2(1)] v2(2)] g3 unreconciled_are_stale [OF rp]
    by simp
qed





end
