(* ===== verification/Capture.thy ===== *)
theory Capture
  imports DmaRing MicConfig
begin

text \<open>
  One poll of the capture task (\<open>src/mic.rs\<close>, \<open>capture_task\<close>): how it notices that the DMA
  lapped it, and how it copies whole frames from the DMA ring into the chunk it is filling.
  The ring memory is the list of its words; an index outside the ring or the chunk is
  \<^term>\<open>None\<close>.
\<close>

section \<open>State and operations\<close>

definition SAMPLES_PER_CHUNK :: nat where "SAMPLES_PER_CHUNK = unat DEFAULT_RATE_HZ div 40"
definition DMA_RING_WORDS :: nat where "DMA_RING_WORDS = 2048"
definition DMA_RING_BITS :: nat where "DMA_RING_BITS = 13"
definition DMA_RING_MARGIN :: nat where "DMA_RING_MARGIN = 2"

record capture_local =
  cap_settings :: mic_settings
  read_index :: nat
  filled :: nat
  chunk :: "u32 list"
  overrun_noticed :: bool
  words_per_ms :: nat

text \<open>The locals of a recording that begins; the chunk buffer is the task's and persists.\<close>

definition capture_begin :: "mic_settings \<Rightarrow> u32 list \<Rightarrow> capture_local" where
  "capture_begin s buf =
     \<lparr>cap_settings = s, read_index = 0, filled = 0, chunk = buf, overrun_noticed = False,
      words_per_ms = max (unat (mic_rate s) * 2 div 1000) 1\<rparr>"

definition even_floor :: "nat \<Rightarrow> nat" where
  "even_floor n = n - n mod 2"

text \<open>\<open>late_us\<close> is the time since the previous poll in microseconds; the flag tells that the
  overrun is to be reported.\<close>

definition capture_resync :: "nat \<Rightarrow> nat \<Rightarrow> capture_local \<Rightarrow> capture_local \<times> bool" where
  "capture_resync write_index late_us l =
     (if late_us div 1000 * words_per_ms l > DMA_RING_WORDS then
        (l\<lparr>overrun_noticed := True,
           read_index := even_floor ((write_index + DMA_RING_WORDS - DMA_RING_MARGIN) mod DMA_RING_WORDS),
           filled := 0\<rparr>, \<not> overrun_noticed l)
      else (l, False))"

fun copy_segment :: "u32 list \<Rightarrow> nat \<Rightarrow> nat \<Rightarrow> nat \<Rightarrow> u32 list \<Rightarrow> u32 list option" where
  "copy_segment dma start 0 pos buf = Some buf"
| "copy_segment dma start (Suc n) pos buf =
     (if pos < length buf \<and> start < length dma
      then copy_segment dma (Suc start) n (Suc pos) (buf[pos := dma ! start]) else None)"

definition capture_drain :: "nat \<Rightarrow> u32 list \<Rightarrow> capture_local \<Rightarrow> capture_local option" where
  "capture_drain write_index dma l = do {
     available \<leftarrow> available_words write_index (read_index l) DMA_RING_WORDS;
     room \<leftarrow> (if filled l \<le> SAMPLES_PER_CHUNK * 2 then Some (SAMPLES_PER_CHUNK * 2 - filled l) else None);
     let n = even_floor (min (sat_sub available DMA_RING_MARGIN) room);
     if 0 < n then do {
       ((s1, n1), (s2, n2)) \<leftarrow> segments (read_index l) n DMA_RING_WORDS;
       buf \<leftarrow> copy_segment dma s1 n1 (filled l) (chunk l);
       buf \<leftarrow> copy_segment dma s2 n2 (filled l + n1) buf;
       Some (l\<lparr>read_index := (read_index l + n) mod DMA_RING_WORDS, filled := filled l + n, chunk := buf\<rparr>)
     }
     else Some l
   }"

definition capture_poll ::
    "nat \<Rightarrow> nat \<Rightarrow> u32 list \<Rightarrow> capture_local \<Rightarrow> (capture_local \<times> bool) option" where
  "capture_poll write_index late_us dma l =
     (let (l1, notice) = capture_resync write_index late_us l
      in map_option (\<lambda>l2. (l2, notice)) (capture_drain write_index dma l1))"

text \<open>The samples of a full chunk.\<close>

definition chunk_pcm :: "capture_local \<Rightarrow> i16 list" where
  "chunk_pcm l = extract_left_channel_pcm (chunk l) (replicate SAMPLES_PER_CHUNK 0) (mic_bits (cap_settings l))"

section \<open>A poll stays in bounds and keeps the channels apart\<close>

definition capture_inv :: "capture_local \<Rightarrow> bool" where
  "capture_inv l \<longleftrightarrow> read_index l < 2048 \<and> even (read_index l) \<and> filled l \<le> 800 \<and> even (filled l)
     \<and> length (chunk l) = 800 \<and> 0 < words_per_ms l"

lemma SAMPLES_PER_CHUNK_eq [simp]: "SAMPLES_PER_CHUNK = 400"
  by (simp add: SAMPLES_PER_CHUNK_def DEFAULT_RATE_HZ_def)

lemma even_floor_even [simp]: "even (even_floor n)"
  by (simp add: even_floor_def)

lemma even_floor_le: "even_floor n \<le> n"
  by (simp add: even_floor_def)

lemma even_floor_id: "even n \<Longrightarrow> even_floor n = n"
  by (simp add: even_floor_def even_iff_mod_2_eq_zero)

lemma copy_segment_eq:
  assumes "start + n \<le> length dma" and "pos + n \<le> length buf"
  shows "copy_segment dma start n pos buf =
    Some (take pos buf @ map ((!) dma) [start..<start + n] @ drop (pos + n) buf)"
  using assms
proof (induction n arbitrary: start pos buf)
  case 0
  then show ?case by simp
next
  case (Suc n)
  have "copy_segment dma (Suc start) n (Suc pos) (buf[pos := dma ! start]) =
      Some (take (Suc pos) (buf[pos := dma ! start]) @ map ((!) dma) [Suc start..<Suc start + n]
        @ drop (Suc pos + n) (buf[pos := dma ! start]))"
    using Suc.prems by (intro Suc.IH) simp_all
  moreover have "take (Suc pos) (buf[pos := dma ! start]) = take pos buf @ [dma ! start]"
    using Suc.prems by (simp add: take_Suc_conv_app_nth)
  moreover have "[start..<start + Suc n] = start # [Suc start..<Suc start + n]"
    by (simp add: upt_conv_Cons)
  ultimately show ?case using Suc.prems by simp
qed

text \<open>What a drain copies: the next words of the ring, in order, to the end of what is filled.\<close>

lemma capture_drain_eq:
  assumes "capture_inv l" and "w < 2048" and "length dma = 2048"
  defines "n \<equiv> even_floor (min ((w + 2048 - read_index l) mod 2048 - 2) (800 - filled l))"
  shows "capture_drain w dma l = Some (l\<lparr>read_index := (read_index l + n) mod 2048, filled := filled l + n,
     chunk := take (filled l) (chunk l) @ map ((!) dma) (ring_run (read_index l) n 2048)
       @ drop (filled l + n) (chunk l)\<rparr>)"
proof -
  let ?r = "read_index l" and ?f = "filled l"
  have inv: "?r < 2048" "?f \<le> 800" "length (chunk l) = 800" using assms(1) by (auto simp: capture_inv_def)
  have avail: "available_words w ?r 2048 = Some ((w + 2048 - ?r) mod 2048)"
    using inv by (simp add: available_words_def)
  have n_le: "n \<le> 800 - ?f"
    using even_floor_le [of "min ((w + 2048 - ?r) mod 2048 - 2) (800 - ?f)"] by (simp add: n_def)
  then have n_2048: "n \<le> 2048" by linarith
  show ?thesis
  proof (cases "n = 0")
    case True
    with inv have "l = l\<lparr>read_index := (?r + n) mod 2048, filled := ?f + n,
      chunk := take ?f (chunk l) @ map ((!) dma) (ring_run ?r n 2048) @ drop (?f + n) (chunk l)\<rparr>"
      by (simp add: ring_run_def)
    with True avail inv show ?thesis
      by (simp add: capture_drain_def DMA_RING_WORDS_def DMA_RING_MARGIN_def Let_def flip: n_def)
  next
    case False
    define k where "k = min n (2048 - ?r)"
    have seg: "segments ?r n 2048 = Some ((?r, k), (0, n - k))"
      using False inv by (simp add: segments_def k_def Let_def)
    have k: "k \<le> n" "?r + k \<le> 2048" "n - k \<le> 2048" using inv n_2048 by (auto simp: k_def)
    let ?b1 = "take ?f (chunk l) @ map ((!) dma) [?r..<?r + k] @ drop (?f + k) (chunk l)"
    have c1: "copy_segment dma ?r k ?f (chunk l) = Some ?b1"
      using k inv n_le assms(3) by (intro copy_segment_eq) auto
    have c2: "copy_segment dma 0 (n - k) (?f + k) ?b1 =
        Some (take (?f + k) ?b1 @ map ((!) dma) [0..<0 + (n - k)] @ drop (?f + k + (n - k)) ?b1)"
      using k inv n_le assms(3) by (intro copy_segment_eq) auto
    have split: "ring_run ?r n 2048 = [?r..<?r + k] @ [0..<n - k]"
      using ring_run_split [of ?r 2048 n] inv n_2048 by (simp add: k_def)
    have b: "take (?f + k) ?b1 @ map ((!) dma) [0..<0 + (n - k)] @ drop (?f + k + (n - k)) ?b1
      = take ?f (chunk l) @ map ((!) dma) (ring_run ?r n 2048) @ drop (?f + n) (chunk l)"
      using k inv n_le by (simp add: split add.commute)
    show ?thesis
      using False avail inv seg c1 c2 [unfolded b]
      by (simp add: capture_drain_def DMA_RING_WORDS_def DMA_RING_MARGIN_def Let_def flip: n_def)
  qed
qed

lemma capture_inv_resync:
  assumes "capture_inv l" and "w < 2048"
  shows "capture_inv (fst (capture_resync w late_us l))"
  using assms even_floor_le [of "(w + 2046) mod 2048"]
  by (auto simp: capture_inv_def capture_resync_def DMA_RING_WORDS_def DMA_RING_MARGIN_def
      intro: le_less_trans [OF even_floor_le])

lemma capture_inv_begin: "length buf = 800 \<Longrightarrow> capture_inv (capture_begin s buf)"
  by (simp add: capture_inv_def capture_begin_def)

lemma capture_poll_inv:
  assumes "capture_inv l" and "w < 2048" and "length dma = 2048"
  obtains l' notice where "capture_poll w late_us dma l = Some (l', notice)" "capture_inv l'"
proof -
  obtain l1 notice where r: "capture_resync w late_us l = (l1, notice)" by fastforce
  have inv: "capture_inv l1" using capture_inv_resync [OF assms(1,2), of late_us] r by simp
  define n where "n = even_floor (min ((w + 2048 - read_index l1) mod 2048 - 2) (800 - filled l1))"
  let ?l = "l1\<lparr>read_index := (read_index l1 + n) mod 2048, filled := filled l1 + n,
     chunk := take (filled l1) (chunk l1) @ map ((!) dma) (ring_run (read_index l1) n 2048)
       @ drop (filled l1 + n) (chunk l1)\<rparr>"
  have "n \<le> 800 - filled l1" "even n"
    using even_floor_le [of "min ((w + 2048 - read_index l1) mod 2048 - 2) (800 - filled l1)"]
    by (simp_all add: n_def)
  moreover have "length (ring_run (read_index l1) n 2048) = n" by (simp add: ring_run_def)
  moreover have "even (x mod 2048) = even x" for x :: nat
    by (simp add: even_iff_mod_2_eq_zero mod_mod_cancel)
  ultimately have "capture_inv ?l" using inv by (auto simp: capture_inv_def)
  moreover have "capture_poll w late_us dma l = Some (?l, notice)"
    using capture_drain_eq [OF inv assms(2,3)] r by (simp add: capture_poll_def n_def)
  ultimately show thesis using that by blast
qed

text \<open>C25: A poll of the capture task never leaves the DMA ring or its chunk, whatever the DMA's
  position: it appends a whole number of left/right frames, the words next in the ring in the
  order the DMA wrote them, stays clear of the two words behind the write head, and puts
  every word at a chunk position of the same parity as its ring position - so the left slots
  stay the even positions of the chunk across wraps, laps and chunk boundaries.\<close>

theorem capture_poll_in_bounds:
  assumes "capture_inv l" and "write_index < 2048" and "length dma = 2048"
    and "capture_resync write_index late_us l = (l1, notice)"
  shows "\<exists>n. capture_poll write_index late_us dma l = Some (l1\<lparr>
        read_index := (read_index l1 + n) mod 2048, filled := filled l1 + n,
        chunk := take (filled l1) (chunk l1) @ map ((!) dma) (ring_run (read_index l1) n 2048)
                   @ drop (filled l1 + n) (chunk l1)\<rparr>, notice)
    \<and> even n \<and> filled l1 + n \<le> 800
    \<and> (n \<noteq> 0 \<longrightarrow> n + 2 \<le> (write_index + 2048 - read_index l1) mod 2048)
    \<and> (\<forall>i < n. even (filled l1 + i) = even ((read_index l1 + i) mod 2048))
    \<and> capture_inv (fst (the (capture_poll write_index late_us dma l)))"
proof -
  have inv: "capture_inv l1" using capture_inv_resync [OF assms(1,2), of late_us] assms(4) by simp
  let ?m = "min ((write_index + 2048 - read_index l1) mod 2048 - 2) (800 - filled l1)"
  define n where "n = even_floor ?m"
  have poll: "capture_poll write_index late_us dma l = Some (l1\<lparr>
        read_index := (read_index l1 + n) mod 2048, filled := filled l1 + n,
        chunk := take (filled l1) (chunk l1) @ map ((!) dma) (ring_run (read_index l1) n 2048)
                   @ drop (filled l1 + n) (chunk l1)\<rparr>, notice)"
    using capture_drain_eq [OF inv assms(2,3)] assms(4) by (simp add: capture_poll_def n_def)
  have n: "n \<le> ?m" "even n" by (simp_all add: n_def even_floor_le del: min.bounded_iff)
  have parity: "even (x mod 2048) = even x" for x :: nat
    by (simp add: even_iff_mod_2_eq_zero mod_mod_cancel)
  have "length (ring_run (read_index l1) n 2048) = n" by (simp add: ring_run_def)
  with poll n inv show ?thesis
    by (intro exI [of _ n]) (auto simp: capture_inv_def parity)
qed

theorem capture_poll_in_bounds_witness:
  "\<exists>n. filled (fst (the (capture_poll 10 5000 (replicate 2048 0) (capture_begin default_mic_settings (replicate 800 0))))) = n
     \<and> even n \<and> n \<le> 800"
proof -
  let ?l = "capture_begin default_mic_settings (replicate 800 0)"
  have "capture_resync 10 5000 ?l = (?l, False)"
    by (simp add: capture_resync_def capture_begin_def default_mic_settings_def DEFAULT_RATE_HZ_def DMA_RING_WORDS_def)
  with capture_poll_in_bounds [of ?l 10 "replicate 2048 0" 5000 ?l False] capture_inv_begin [of "replicate 800 0" default_mic_settings]
  show ?thesis by (auto simp: capture_begin_def)
qed

section \<open>An overrun that goes unnoticed\<close>

text \<open>The check for a lapped reader looks only at the time since the last poll. Three polls of a
  recording at the default rate, at 800, 2080 and 3360 words written (25, 65 and 105 ms: no two
  of them further apart than 40 of the ring's 64 ms), see no overrun, although before the last
  one 2560 words were unread, 512 more than the ring holds; the reader takes words of the
  next lap for the missing ones and nothing is reported.\<close>

theorem overrun_goes_unnoticed:
  assumes "length dma1 = 2048" and "length dma2 = 2048" and "length dma3 = 2048" and "length buf = 800"
  shows "\<exists>l1 l2 l3. capture_poll (800 mod 2048) 25000 dma1 (capture_begin default_mic_settings buf) = Some (l1, False)
    \<and> filled l1 = 798
    \<and> capture_poll (2080 mod 2048) 40000 dma2 l1 = Some (l2, False) \<and> filled l2 = 800
    \<and> capture_poll (3360 mod 2048) 40000 dma3 (l2\<lparr>filled := 0\<rparr>) = Some (l3, False)
    \<and> 3360 - (filled l2) > 2048 \<and> filled l3 = 510
    \<and> take 510 (chunk l3) = map ((!) dma3) [800..<1310]"
proof -
  let ?l0 = "capture_begin default_mic_settings buf"
  have l0: "capture_inv ?l0" using assms(4) by (rule capture_inv_begin)
  obtain l1 where p1: "capture_poll 800 25000 dma1 ?l0 = Some (l1, False)"
    and l1: "read_index l1 = 798" "filled l1 = 798" "words_per_ms l1 = 32" "length (chunk l1) = 800"
    using capture_drain_eq [OF l0 _ assms(1), of 800] assms(4)
    by (simp add: capture_poll_def capture_resync_def capture_begin_def default_mic_settings_def
        DEFAULT_RATE_HZ_def DMA_RING_WORDS_def even_floor_def ring_run_def)
  have i1: "capture_inv l1" using l1 by (simp add: capture_inv_def)
  obtain l2 where p2: "capture_poll 32 40000 dma2 l1 = Some (l2, False)"
    and l2: "read_index l2 = 800" "filled l2 = 800" "words_per_ms l2 = 32" "length (chunk l2) = 800"
    using capture_drain_eq [OF i1 _ assms(2), of 32] l1
    by (simp add: capture_poll_def capture_resync_def DMA_RING_WORDS_def even_floor_def ring_run_def)
  have i2: "capture_inv (l2\<lparr>filled := 0\<rparr>)" using l2 by (simp add: capture_inv_def)
  have run: "ring_run 800 510 2048 = [800..<1310]"
    using ring_run_split [of 800 2048 510] by simp
  obtain l3 where "capture_poll 1312 40000 dma3 (l2\<lparr>filled := 0\<rparr>) = Some (l3, False)"
    "filled l3 = 510" "take 510 (chunk l3) = map ((!) dma3) [800..<1310]"
    using capture_drain_eq [OF i2 _ assms(3), of 1312] l2
    by (simp add: capture_poll_def capture_resync_def DMA_RING_WORDS_def even_floor_def run)
  with p1 p2 l1 l2 show ?thesis by auto
qed

theorem overrun_goes_unnoticed_witness:
  "\<exists>l1. capture_poll (800 mod 2048) 25000 (replicate 2048 1) (capture_begin default_mic_settings (replicate 800 0)) = Some (l1, False)"
  using overrun_goes_unnoticed [of "replicate 2048 1" "replicate 2048 2" "replicate 2048 3" "replicate 800 0"]
  by auto

end
