(* ===== verification/PttTasks.thy ===== *)
theory PttTasks
  imports AudioRing Capture "HOL-Library.Sublist"
begin

text \<open>
  Push-to-talk as the firmware runs it (\<open>src/mic.rs\<close>): the key handlers, the capture task and
  the upload task, which share the generation counters, the signals and the audio ring. The
  executor is cooperative, so the code between two awaits is one step; \<open>capture_pc\<close> and
  \<open>upload_pc\<close> name the awaits a task can be suspended at. What the tasks ask of the screen and
  the log is recorded as \<open>screen_call\<close>s. \<open>captured\<close>, \<open>sent\<close> and \<open>presses\<close> are ghost fields: the
  audio deposited per generation, what went into the session's audio channel, and the number
  of recordings armed. The environment supplies DMA positions, clock readings, and whether
  the channel takes a frame.
\<close>

section \<open>State\<close>

definition RING_SAMPLES :: nat where "RING_SAMPLES = 2048"

datatype screen_call = Note rstr | ShowNotice rstr | ShowOverlay rstr | ClearOverlay

datatype channel_event = Audio u32 "i16 list" | EndMark u32

fun event_gen :: "channel_event \<Rightarrow> u32" where
  "event_gen (Audio g xs) = g"
| "event_gen (EndMark g) = g"

datatype key_pc = KeyIdle | KeyArmed

datatype capture_pc = CapIdle | CapLoad u32 | CapLoop u32 capture_local | CapLock u32 capture_local

datatype upload_pc =
    UpCheck u32 | UpSleep u32 | UpServe u32 | UpDrain u32 bool | UpSend u32 "i16 list"
  | UpWait u32 bool | UpEnd u32 bool

record ptt =
  pcm_ring :: audio_ring
  current_gen :: u32
  ended_gen :: u32
  recording :: u32
  overflow_notice_gen :: u32
  cap_notice_gen :: u32
  dma_overrun_notice_gen :: u32
  ptt_level :: nat
  start_signal :: bool
  data_ready :: bool
  stream_ended :: bool
  upload_start_signal :: bool
  key_at :: key_pc
  capture_at :: capture_pc
  capture_buf :: "u32 list"
  upload_at :: upload_pc
  upload_buf :: "i16 list"
  audio_up :: bool
  session_up :: bool
  screen_calls :: "screen_call list"
  captured :: "u32 \<Rightarrow> i16 list"
  sent :: "channel_event list"
  presses :: nat

definition ptt_init :: ptt where
  "ptt_init =
     \<lparr>pcm_ring = ring_new RING_SAMPLES, current_gen = 0, ended_gen = 0, recording = 0,
      overflow_notice_gen = 0, cap_notice_gen = 0, dma_overrun_notice_gen = 0, ptt_level = 0,
      start_signal = False, data_ready = False, stream_ended = False, upload_start_signal = False,
      key_at = KeyIdle, capture_at = CapIdle, capture_buf = replicate (SAMPLES_PER_CHUNK * 2) 0,
      upload_at = UpCheck 1, upload_buf = [], audio_up = False, session_up = False,
      screen_calls = [], captured = (\<lambda>_. []), sent = [], presses = 0\<rparr>"

definition add_calls :: "screen_call list \<Rightarrow> ptt \<Rightarrow> ptt" where
  "add_calls cs s = s\<lparr>screen_calls := screen_calls s @ cs\<rparr>"

text \<open>\<open>ptt_fail\<close> (net.rs) logs and shows the same text.\<close>

definition ptt_fail :: "rstr \<Rightarrow> ptt \<Rightarrow> ptt" where
  "ptt_fail m = add_calls [Note m, ShowNotice m]"

section \<open>The keys\<close>

definition start_recording :: "ptt \<Rightarrow> ptt" where
  "start_recording s =
     (if recording s = 0 then
        if \<not> audio_up s then
          (let m = (if session_up s then ''ptt unavailable: the session'' @ [CHR 0x27] @ ''s audio channel is not running''
                    else ''no ssh session: not recording'')
           in add_calls [Note m, ShowNotice m] s)
        else
          (let g = current_gen s + 1
           in s\<lparr>current_gen := g, recording := g, key_at := KeyArmed, presses := presses s + 1\<rparr>)
      else s)"

text \<open>The rest of \<open>start_recording\<close>, once it has the screen.\<close>

definition start_signals :: "ptt \<Rightarrow> ptt" where
  "start_signals s =
     (add_calls [ShowOverlay ''recording...''] s)\<lparr>start_signal := True, upload_start_signal := True, key_at := KeyIdle\<rparr>"

definition is_recording :: "ptt \<Rightarrow> bool" where
  "is_recording s \<longleftrightarrow> recording s \<noteq> 0"

definition stop_recording :: "ptt \<Rightarrow> ptt" where
  "stop_recording s = (if recording s \<noteq> 0 then add_calls [ClearOverlay] (s\<lparr>recording := 0\<rparr>) else s)"

section \<open>The capture task\<close>

definition capture_wake :: "ptt \<Rightarrow> ptt" where
  "capture_wake s = s\<lparr>start_signal := False, capture_at := CapLoad (current_gen s)\<rparr>"

definition capture_start :: "mic_settings \<Rightarrow> u32 \<Rightarrow> ptt \<Rightarrow> ptt" where
  "capture_start cfg g s = s\<lparr>capture_at := CapLoop g (capture_begin cfg (capture_buf s))\<rparr>"

definition capture_finish :: "u32 \<Rightarrow> capture_local \<Rightarrow> ptt \<Rightarrow> ptt" where
  "capture_finish g l s =
     s\<lparr>ptt_level := 0, ended_gen := max (ended_gen s) g, stream_ended := True,
       capture_at := CapIdle, capture_buf := chunk l\<rparr>"

text \<open>The end of one pass: the duration cap, or the ticker.\<close>

definition capture_tick :: "bool \<Rightarrow> u32 \<Rightarrow> capture_local \<Rightarrow> ptt \<Rightarrow> ptt" where
  "capture_tick capped g l s =
     (if capped then
        capture_finish g l (s\<lparr>cap_notice_gen := g, recording := (if recording s = g then 0 else recording s)\<rparr>)
      else s\<lparr>capture_at := CapLoop g l\<rparr>)"

definition capture_pass ::
    "nat \<Rightarrow> nat \<Rightarrow> u32 list \<Rightarrow> bool \<Rightarrow> u32 \<Rightarrow> capture_local \<Rightarrow> ptt \<Rightarrow> ptt option" where
  "capture_pass write_index late_us dma capped g l s =
     (if recording s = g \<and> current_gen s = g then do {
        (l', notice) \<leftarrow> capture_poll write_index late_us dma l;
        let s1 = (if notice then s\<lparr>dma_overrun_notice_gen := g\<rparr> else s);
        Some (if filled l' = SAMPLES_PER_CHUNK * 2 then s1\<lparr>capture_at := CapLock g l'\<rparr>
              else capture_tick capped g l' s1)
      }
      else Some (capture_finish g l s))"

text \<open>The chunk goes into the ring once its lock is free.\<close>

definition capture_deposit :: "bool \<Rightarrow> u32 \<Rightarrow> capture_local \<Rightarrow> ptt \<Rightarrow> ptt" where
  "capture_deposit capped g l s =
     (let pcm = chunk_pcm l;
          (ring, result) = ring_write (pcm_ring s) g pcm
      in capture_tick capped g (l\<lparr>filled := 0\<rparr>)
           (s\<lparr>pcm_ring := ring,
              overflow_notice_gen := (if first_drop result then g else overflow_notice_gen s),
              data_ready := True,
              captured := (captured s)(g := captured s g @ pcm)\<rparr>))"

section \<open>The upload task\<close>

definition meter_level :: "i16 list \<Rightarrow> nat" where
  "meter_level xs = ac_rms_level xs"

definition emit_pending_notices :: "ptt \<Rightarrow> ptt" where
  "emit_pending_notices s =
     (let s1 = (if overflow_notice_gen s \<noteq> 0
                then ptt_fail (''upload can'' @ [CHR 0x27] @ ''t keep up, dropping oldest audio'') s else s)\<lparr>overflow_notice_gen := 0\<rparr>;
          s2 = (if dma_overrun_notice_gen s1 \<noteq> 0
                then ptt_fail ''capture ring overran, dropping some audio'' s1 else s1)\<lparr>dma_overrun_notice_gen := 0\<rparr>;
          capped = cap_notice_gen s2;
          s3 = s2\<lparr>cap_notice_gen := 0\<rparr>;
          m = ''recording exceeded 60s cap, stopping''
      in if capped \<noteq> 0 then
           add_calls ([Note m] @ (if current_gen s3 = capped then [ClearOverlay, ShowNotice m] else [])) s3
         else s3)"

definition upload_check :: "u32 \<Rightarrow> ptt \<Rightarrow> ptt" where
  "upload_check n s =
     (if current_gen s < n then s\<lparr>upload_at := UpSleep n\<rparr>
      else (emit_pending_notices s)\<lparr>upload_at := UpServe n\<rparr>)"

definition upload_wake_start :: "u32 \<Rightarrow> ptt \<Rightarrow> ptt" where
  "upload_wake_start n s = s\<lparr>upload_start_signal := False, upload_at := UpCheck n\<rparr>"

text \<open>The entry of \<open>serve_utterance\<close>.\<close>

definition upload_serve :: "u32 \<Rightarrow> ptt \<Rightarrow> ptt" where
  "upload_serve n s =
     (emit_pending_notices s)\<lparr>upload_at := UpDrain n (audio_up s), upload_buf := replicate SAMPLES_PER_CHUNK 0\<rparr>"

definition upload_drain :: "u32 \<Rightarrow> bool \<Rightarrow> ptt \<Rightarrow> ptt" where
  "upload_drain n ssh s =
     (let (ring, k, buf) = ring_read (pcm_ring s) n (upload_buf s);
          s1 = s\<lparr>pcm_ring := ring, upload_buf := buf\<rparr>
      in if k = 0 then
           (if utterance_ended (current_gen s1) (ended_gen s1) n then s1\<lparr>upload_at := UpEnd n ssh\<rparr>
            else s1\<lparr>upload_at := UpWait n ssh\<rparr>)
         else
           (let s2 = s1\<lparr>ptt_level := meter_level (take k buf)\<rparr>
            in if ssh then s2\<lparr>upload_at := UpSend n (take k buf)\<rparr> else s2\<lparr>upload_at := UpDrain n ssh\<rparr>))"

text \<open>\<open>ok\<close> is what \<open>ssh_audio_send\<close> answers.\<close>

definition upload_send :: "bool \<Rightarrow> u32 \<Rightarrow> i16 list \<Rightarrow> ptt \<Rightarrow> ptt" where
  "upload_send ok n xs s =
     (if ok then s\<lparr>sent := sent s @ [Audio n xs], upload_at := UpDrain n True\<rparr>
      else (ptt_fail ''ssh audio channel unavailable, dropping rest'' s)\<lparr>upload_at := UpDrain n False\<rparr>)"

text \<open>\<open>select\<close> polls \<open>DATA_READY\<close> first and consumes only the signal that woke it.\<close>

definition upload_wake :: "u32 \<Rightarrow> bool \<Rightarrow> ptt \<Rightarrow> ptt" where
  "upload_wake n ssh s =
     (emit_pending_notices (if data_ready s then s\<lparr>data_ready := False\<rparr> else s\<lparr>stream_ended := False\<rparr>))
       \<lparr>upload_at := UpDrain n ssh\<rparr>"

definition upload_end :: "bool \<Rightarrow> u32 \<Rightarrow> bool \<Rightarrow> ptt \<Rightarrow> ptt" where
  "upload_end ok n ssh s =
     (let s1 = emit_pending_notices s;
          s2 = (if ssh then
                  if ok then s1\<lparr>sent := sent s1 @ [EndMark n]\<rparr>
                  else ptt_fail ''ssh audio channel unavailable, dropping utterance end'' s1
                else s1)
      in s2\<lparr>upload_at := UpCheck (n + 1)\<rparr>)"

section \<open>The system\<close>

inductive upload_step :: "ptt \<Rightarrow> ptt \<Rightarrow> bool" where
  up_check: "upload_at s = UpCheck n \<Longrightarrow> upload_step s (upload_check n s)"
| up_wake_start: "upload_at s = UpSleep n \<Longrightarrow> upload_start_signal s \<Longrightarrow> upload_step s (upload_wake_start n s)"
| up_serve: "upload_at s = UpServe n \<Longrightarrow> upload_step s (upload_serve n s)"
| up_drain: "upload_at s = UpDrain n ssh \<Longrightarrow> upload_step s (upload_drain n ssh s)"
| up_send: "upload_at s = UpSend n xs \<Longrightarrow> upload_step s (upload_send ok n xs s)"
| up_wake: "upload_at s = UpWait n ssh \<Longrightarrow> data_ready s \<or> stream_ended s \<Longrightarrow> upload_step s (upload_wake n ssh s)"
| up_end: "upload_at s = UpEnd n ssh \<Longrightarrow> upload_step s (upload_end ok n ssh s)"

inductive capture_step :: "ptt \<Rightarrow> ptt \<Rightarrow> bool" where
  cap_wake: "capture_at s = CapIdle \<Longrightarrow> start_signal s \<Longrightarrow> capture_step s (capture_wake s)"
| cap_start: "capture_at s = CapLoad g \<Longrightarrow> capture_step s (capture_start cfg g s)"
| cap_pass: "capture_at s = CapLoop g l \<Longrightarrow> w < DMA_RING_WORDS \<Longrightarrow> length dma = DMA_RING_WORDS \<Longrightarrow>
    capture_pass w late dma capped g l s = Some s' \<Longrightarrow> capture_step s s'"
| cap_deposit: "capture_at s = CapLock g l \<Longrightarrow> capture_step s (capture_deposit capped g l s)"

inductive key_step :: "ptt \<Rightarrow> ptt \<Rightarrow> bool" where
  key_press: "key_at s = KeyIdle \<Longrightarrow> key_step s (start_recording s)"
| key_signal: "key_at s = KeyArmed \<Longrightarrow> key_step s (start_signals s)"
| key_release: "key_at s = KeyIdle \<Longrightarrow> key_step s (stop_recording s)"

inductive ptt_step :: "ptt \<Rightarrow> ptt \<Rightarrow> bool" where
  by_key: "key_step s s' \<Longrightarrow> ptt_step s s'"
| by_capture: "capture_step s s' \<Longrightarrow> ptt_step s s'"
| by_upload: "upload_step s s' \<Longrightarrow> ptt_step s s'"
| by_session: "ptt_step s (s\<lparr>audio_up := b, session_up := b'\<rparr>)"

inductive ptt_reachable :: "ptt \<Rightarrow> bool" where
  at_boot: "ptt_reachable ptt_init"
| by_step: "ptt_reachable s \<Longrightarrow> ptt_step s s' \<Longrightarrow> ptt_reachable s'"

section \<open>Counters and events\<close>

inductive_cases key_stepE: "key_step s s'"
inductive_cases capture_stepE: "capture_step s s'"
inductive_cases upload_stepE: "upload_step s s'"
inductive_cases ptt_stepE: "ptt_step s s'"

fun cap_gen :: "capture_pc \<Rightarrow> u32 option" where
  "cap_gen CapIdle = None"
| "cap_gen (CapLoad g) = Some g"
| "cap_gen (CapLoop g l) = Some g"
| "cap_gen (CapLock g l) = Some g"

definition counters_inv :: "ptt \<Rightarrow> bool" where
  "counters_inv s \<longleftrightarrow> ring_inv (pcm_ring s) \<and> newest_generation (pcm_ring s) \<le> current_gen s
     \<and> unat (current_gen s) = presses s \<and> ended_gen s \<le> current_gen s
     \<and> (recording s = 0 \<or> recording s = current_gen s \<and> ended_gen s \<noteq> current_gen s)
     \<and> (key_at s = KeyArmed \<or> start_signal s \<longrightarrow> current_gen s \<noteq> 0)
     \<and> (\<forall>g. cap_gen (capture_at s) = Some g \<longrightarrow> g \<noteq> 0 \<and> newest_generation (pcm_ring s) \<le> g \<and> g \<le> current_gen s)
     \<and> (key_at s = KeyArmed \<or> start_signal s \<or> cap_gen (capture_at s) = Some (current_gen s)
        \<or> ended_gen s = current_gen s)"

lemma emit_frame [simp]:
  "pcm_ring (emit_pending_notices s) = pcm_ring s"
  "current_gen (emit_pending_notices s) = current_gen s"
  "ended_gen (emit_pending_notices s) = ended_gen s"
  "recording (emit_pending_notices s) = recording s"
  "ptt_level (emit_pending_notices s) = ptt_level s"
  "start_signal (emit_pending_notices s) = start_signal s"
  "data_ready (emit_pending_notices s) = data_ready s"
  "stream_ended (emit_pending_notices s) = stream_ended s"
  "upload_start_signal (emit_pending_notices s) = upload_start_signal s"
  "key_at (emit_pending_notices s) = key_at s"
  "capture_at (emit_pending_notices s) = capture_at s"
  "capture_buf (emit_pending_notices s) = capture_buf s"
  "upload_at (emit_pending_notices s) = upload_at s"
  "upload_buf (emit_pending_notices s) = upload_buf s"
  "captured (emit_pending_notices s) = captured s"
  "sent (emit_pending_notices s) = sent s"
  "presses (emit_pending_notices s) = presses s"
  by (simp_all add: emit_pending_notices_def ptt_fail_def add_calls_def Let_def)

lemma unat_succ: "unat (w :: u32) < 2 ^ 32 - 1 \<Longrightarrow> unat (w + 1) = unat w + 1"
  by (simp add: unat_word_ariths)

lemma counters_press:
  assumes "counters_inv s" and "presses (start_recording s) < 2 ^ 32 - 1"
  shows "counters_inv (start_recording s)"
proof (cases "recording s = 0 \<and> audio_up s")
  case True
  then have s': "start_recording s = s\<lparr>current_gen := current_gen s + 1, recording := current_gen s + 1, key_at := KeyArmed, presses := presses s + 1\<rparr>"
    by (simp add: start_recording_def Let_def)
  with assms have "unat (current_gen s + 1) = unat (current_gen s) + 1"
    by (intro unat_succ) (simp add: counters_inv_def)
  with assms(1) show ?thesis
    unfolding counters_inv_def s' by (auto simp: word_le_nat_alt word_unat_eq_iff)
next
  case False
  with assms(1) show ?thesis
    by (auto simp: start_recording_def counters_inv_def Let_def add_calls_def)
qed

lemma counters_key:
  assumes "key_step s s'" and "counters_inv s" and "presses s' < 2 ^ 32 - 1"
  shows "counters_inv s'"
  using assms(1)
proof cases
  case key_press
  with assms(2,3) show ?thesis by (simp add: counters_press)
next
  case key_signal
  with assms(2) show ?thesis by (auto simp: start_signals_def counters_inv_def add_calls_def)
next
  case key_release
  with assms(2) show ?thesis by (auto simp: stop_recording_def counters_inv_def add_calls_def)
qed

lemma counters_finish:
  assumes "counters_inv s" and "cap_gen (capture_at s) = Some g" and "recording s \<noteq> g"
  shows "counters_inv (capture_finish g l s)"
  using assms by (auto simp: counters_inv_def capture_finish_def max_def)

lemma counters_tick:
  assumes "counters_inv s" and "cap_gen (capture_at s) = Some g"
  shows "counters_inv (capture_tick capped g l s)"
proof (cases capped)
  case True
  let ?s = "s\<lparr>cap_notice_gen := g, recording := (if recording s = g then 0 else recording s)\<rparr>"
  have "counters_inv ?s" using assms(1) by (simp add: counters_inv_def)
  moreover have "g \<noteq> 0" using assms by (simp add: counters_inv_def)
  ultimately have "counters_inv (capture_finish g l ?s)"
    using assms(2) by (intro counters_finish) simp_all
  with True show ?thesis by (simp add: capture_tick_def)
next
  case False
  with assms show ?thesis by (simp add: capture_tick_def counters_inv_def)
qed

text \<open>The ring after a deposit of a chunk the ring does not refuse.\<close>

lemma ring_write_facts:
  assumes "ring_inv r" and "newest_generation r \<le> g"
  shows "ring_inv (fst (ring_write r g xs))" and "newest_generation (fst (ring_write r g xs)) = g"
    and "ring_capacity (fst (ring_write r g xs)) = ring_capacity r"
    and "\<exists>lost. lost @ audio.pending h (fst (ring_write r g xs)) = audio.pending h r @ (if h = g then xs else [])"
  using assms audio.write_inv audio.write_newest audio.write_cap audio.write_pending_end
  by (auto simp: not_less)

lemma ring_read_facts:
  assumes "ring_inv r" and "ring_read r g out = (r', k, out')"
  shows "ring_inv r'" and "newest_generation r' = newest_generation r"
    and "length out' = length out" and "ring_len r' + k \<le> ring_len r"
proof -
  let ?q = "dropWhile (\<lambda>x. fst x < g) (ring_items r)"
  show "ring_inv r'" "newest_generation r' = newest_generation r"
    using assms audio.read_inv [of r g out] audio.read_newest [of r g out] by simp_all
  have spec: "k = min (length out) (length (takeWhile (\<lambda>x. fst x = g) ?q))"
    "ring_items r' = drop k ?q" "out' = map snd (take k ?q) @ drop k out"
    using ring_read_correct [OF ring_inv_shape [OF assms(1)], where g = g and out = out] assms(2)
    by simp_all
  have k: "k \<le> length out" "k \<le> length ?q"
    using spec(1) length_takeWhile_le [of "\<lambda>x. fst x = g" ?q] by linarith+
  show "length out' = length out" unfolding spec(3) using k by simp
  have "length (ring_items r') + k = length ?q" using spec(2) k(2) by simp
  moreover have "length ?q \<le> length (ring_items r)" by (rule length_dropWhile_le)
  ultimately show "ring_len r' + k \<le> ring_len r" by simp
qed

lemma capture_pass_cases:
  assumes "capture_pass w late_us dma capped g l s = Some s'"
  obtains (over) "\<not> (recording s = g \<and> current_gen s = g)" "s' = capture_finish g l s"
    | (polled) l' notice s1 where "recording s = g" "current_gen s = g"
        "capture_poll w late_us dma l = Some (l', notice)"
        "s1 = (if notice then s\<lparr>dma_overrun_notice_gen := g\<rparr> else s)"
        "s' = (if filled l' = SAMPLES_PER_CHUNK * 2 then s1\<lparr>capture_at := CapLock g l'\<rparr>
               else capture_tick capped g l' s1)"
proof (cases "recording s = g \<and> current_gen s = g")
  case False
  with assms show thesis by (intro over) (auto simp: capture_pass_def split: if_splits)
next
  case True
  then obtain l' notice where "capture_poll w late_us dma l = Some (l', notice)"
    using assms by (auto simp: capture_pass_def bind_eq_Some_conv)
  with True assms show thesis
    by (intro polled [of l' notice "if notice then s\<lparr>dma_overrun_notice_gen := g\<rparr> else s"])
       (simp_all add: capture_pass_def Let_def)
qed

lemma counters_deposit:
  assumes "counters_inv s" and "capture_at s = CapLock g l"
  shows "counters_inv (capture_deposit capped g l s)"
proof -
  obtain ring res where w: "ring_write (pcm_ring s) g (chunk_pcm l) = (ring, res)" by fastforce
  have "ring_inv (pcm_ring s)" "newest_generation (pcm_ring s) \<le> g" "g \<le> current_gen s"
    using assms by (simp_all add: counters_inv_def)
  then have "ring_inv ring" "newest_generation ring = g" "g \<le> current_gen s"
    using ring_write_facts(1,2) [where r = "pcm_ring s" and g = g and xs = "chunk_pcm l"] w by simp_all
  with assms have "counters_inv (s\<lparr>pcm_ring := ring,
      overflow_notice_gen := (if first_drop res then g else overflow_notice_gen s),
      data_ready := True, captured := (captured s)(g := captured s g @ chunk_pcm l)\<rparr>)"
    by (simp add: counters_inv_def)
  with assms(2) w show ?thesis
    by (simp add: capture_deposit_def Let_def counters_tick)
qed

lemma counters_capture:
  assumes "capture_step s s'" and "counters_inv s"
  shows "counters_inv s'"
  using assms(1)
proof cases
  case cap_wake
  with assms(2) show ?thesis by (auto simp: capture_wake_def counters_inv_def)
next
  case (cap_start g cfg)
  with assms(2) show ?thesis by (simp add: capture_start_def counters_inv_def)
next
  case (cap_pass g l w dma late_us capped)
  from cap_pass(4) show ?thesis
  proof (cases rule: capture_pass_cases)
    case over
    have "recording s \<noteq> g" using over(1) assms(2) cap_pass(1) by (auto simp: counters_inv_def)
    with over(2) assms(2) cap_pass(1) show ?thesis by (simp add: counters_finish)
  next
    case (polled l' notice s1)
    have "counters_inv s1" "cap_gen (capture_at s1) = Some g"
      using assms(2) cap_pass(1) polled(4) by (simp_all add: counters_inv_def)
    moreover from this have "counters_inv (s1\<lparr>capture_at := CapLock g l'\<rparr>)"
      by (simp add: counters_inv_def)
    ultimately show ?thesis using polled(5) by (simp add: counters_tick)
  qed
next
  case (cap_deposit g l capped)
  with assms(2) show ?thesis by (simp add: counters_deposit)
qed

lemmas upload_defs = upload_check_def upload_wake_start_def upload_serve_def upload_drain_def
  upload_send_def upload_wake_def upload_end_def ptt_fail_def add_calls_def

lemma upload_frame:
  assumes "upload_step s s'"
  shows "current_gen s' = current_gen s \<and> ended_gen s' = ended_gen s \<and> recording s' = recording s
    \<and> start_signal s' = start_signal s \<and> key_at s' = key_at s \<and> capture_at s' = capture_at s
    \<and> captured s' = captured s \<and> presses s' = presses s \<and> capture_buf s' = capture_buf s"
  using assms by cases (simp_all add: upload_defs Let_def split: prod.split)

text \<open>Only a drain reads the ring.\<close>

lemma upload_ring:
  assumes "upload_step s s'"
  shows "pcm_ring s' = (case upload_at s of
      UpDrain n ssh \<Rightarrow> fst (ring_read (pcm_ring s) n (upload_buf s)) | _ \<Rightarrow> pcm_ring s)"
  using assms by cases (simp_all add: upload_defs Let_def split: prod.split)

lemma counters_upload:
  assumes "upload_step s s'" and "counters_inv s"
  shows "counters_inv s'"
proof -
  have inv: "ring_inv (pcm_ring s)" using assms(2) by (simp add: counters_inv_def)
  have "ring_inv (pcm_ring s') \<and> newest_generation (pcm_ring s') = newest_generation (pcm_ring s)"
    unfolding upload_ring [OF assms(1)] using inv audio.read_inv [OF inv] audio.read_newest [OF inv]
    by (simp split: upload_pc.splits)
  with assms(2) upload_frame [OF assms(1)] show ?thesis by (simp add: counters_inv_def)
qed

lemma presses_mono: "ptt_step s s' \<Longrightarrow> presses s \<le> presses s'"
proof (induction rule: ptt_step.induct)
  case (by_key s s')
  then show ?case
    by cases (auto simp: start_recording_def start_signals_def stop_recording_def add_calls_def Let_def)
next
  case (by_capture s s')
  then show ?case
  proof cases
    case (cap_pass g l w dma late_us capped)
    from cap_pass(4) show ?thesis
      by (cases rule: capture_pass_cases) (auto simp: capture_finish_def capture_tick_def)
  qed (auto simp: capture_wake_def capture_start_def capture_deposit_def capture_tick_def capture_finish_def
      Let_def split: prod.splits)
next
  case (by_upload s s')
  then show ?case using upload_frame by simp
next
  case (by_session s b b')
  then show ?case by simp
qed

text \<open>The generation counter does not wrap before \<open>2 ^ 32 - 1\<close> recordings.\<close>

lemma reachable_counters:
  assumes "ptt_reachable s" and "presses s < 2 ^ 32 - 1"
  shows "counters_inv s"
  using assms
proof (induction rule: ptt_reachable.induct)
  case at_boot
  have "ring_inv (ring_new 2048)" "newest_generation (ring_new 2048) = 0"
    by (simp add: ring_inv_new) (simp add: ring_new_def)
  then show ?case by (simp add: ptt_init_def counters_inv_def RING_SAMPLES_def)
next
  case (by_step s s')
  then have inv: "counters_inv s" using presses_mono [OF by_step(2)] by simp
  from by_step(2) show ?case
  proof cases
    case by_key
    with inv by_step(4) show ?thesis by (simp add: counters_key)
  next
    case by_capture
    with inv show ?thesis by (simp add: counters_capture)
  next
    case by_upload
    with inv show ?thesis by (simp add: counters_upload)
  next
    case by_session
    with inv show ?thesis by (simp add: counters_inv_def)
  qed
qed

section \<open>The capture task never panics\<close>

definition capture_ok :: "ptt \<Rightarrow> bool" where
  "capture_ok s \<longleftrightarrow> length (capture_buf s) = 800
     \<and> (\<forall>g l. capture_at s = CapLoop g l \<or> capture_at s = CapLock g l \<longrightarrow> capture_inv l)"

lemma capture_ok_finish: "capture_ok s \<Longrightarrow> capture_inv l \<Longrightarrow> capture_ok (capture_finish g l s)"
  by (simp add: capture_ok_def capture_finish_def capture_inv_def)

lemma capture_ok_tick: "capture_ok s \<Longrightarrow> capture_inv l \<Longrightarrow> capture_ok (capture_tick capped g l s)"
  by (auto simp: capture_tick_def capture_ok_def capture_finish_def capture_inv_def)

lemma reachable_capture_ok: "ptt_reachable s \<Longrightarrow> capture_ok s"
proof (induction rule: ptt_reachable.induct)
  case at_boot
  then show ?case by (simp add: ptt_init_def capture_ok_def)
next
  case (by_step s s')
  from by_step(2) show ?case
  proof cases
    case by_key
    then show ?thesis using by_step.IH
      by cases (auto simp: capture_ok_def start_recording_def start_signals_def stop_recording_def add_calls_def Let_def)
  next
    case by_capture
    then show ?thesis
    proof cases
      case (cap_pass g l w dma late_us capped)
      have inv: "capture_inv l" using cap_pass(1) by_step.IH by (auto simp: capture_ok_def)
      from cap_pass(4) show ?thesis
      proof (cases rule: capture_pass_cases)
        case over
        with inv by_step.IH show ?thesis by (simp add: capture_ok_finish)
      next
        case (polled l' notice s1)
        have "capture_inv l'"
          using capture_poll_inv [OF inv, of w dma late_us] cap_pass(2,3) polled(3)
          by (auto simp: DMA_RING_WORDS_def)
        moreover have "capture_ok s1" using by_step.IH polled(4) by (simp add: capture_ok_def)
        moreover from calculation have "capture_ok (s1\<lparr>capture_at := CapLock g l'\<rparr>)"
          by (simp add: capture_ok_def)
        ultimately show ?thesis using polled(5) by (simp add: capture_ok_tick)
      qed
    next
      case (cap_deposit g l capped)
      then have inv: "capture_inv (l\<lparr>filled := 0\<rparr>)" using by_step.IH by (auto simp: capture_ok_def capture_inv_def)
      obtain ring res where "ring_write (pcm_ring s) g (chunk_pcm l) = (ring, res)" by fastforce
      moreover have "capture_ok (s\<lparr>pcm_ring := ring,
          overflow_notice_gen := (if first_drop res then g else overflow_notice_gen s), data_ready := True,
          captured := (captured s)(g := captured s g @ chunk_pcm l)\<rparr>)"
        using by_step.IH by (simp add: capture_ok_def)
      ultimately show ?thesis
        using cap_deposit inv by (simp only: capture_deposit_def Let_def prod.case) (rule capture_ok_tick)
    qed (use by_step.IH in \<open>auto simp: capture_ok_def capture_wake_def capture_start_def intro: capture_inv_begin\<close>)
  next
    case by_upload
    with by_step.IH upload_frame show ?thesis by (simp add: capture_ok_def)
  next
    case by_session
    with by_step.IH show ?thesis by (simp add: capture_ok_def)
  qed
qed

section \<open>The upload task's invariant\<close>

fun up_gen :: "upload_pc \<Rightarrow> u32" where
  "up_gen (UpCheck n) = n" | "up_gen (UpSleep n) = n" | "up_gen (UpServe n) = n"
| "up_gen (UpDrain n ssh) = n" | "up_gen (UpSend n xs) = n" | "up_gen (UpWait n ssh) = n"
| "up_gen (UpEnd n ssh) = n"

fun up_serving :: "upload_pc \<Rightarrow> bool" where
  "up_serving (UpCheck n) = False" | "up_serving (UpSleep n) = False" | "up_serving _ = True"

fun up_draining :: "upload_pc \<Rightarrow> bool" where
  "up_draining (UpDrain n ssh) = True" | "up_draining (UpSend n xs) = True"
| "up_draining (UpWait n ssh) = True" | "up_draining _ = False"

definition upload_ok :: "ptt \<Rightarrow> bool" where
  "upload_ok s \<longleftrightarrow> up_gen (upload_at s) \<noteq> 0 \<and> unat (up_gen (upload_at s)) \<le> presses s + 1
     \<and> (up_serving (upload_at s) \<longrightarrow> up_gen (upload_at s) \<le> current_gen s)
     \<and> (\<forall>n. upload_at s = UpSleep n \<longrightarrow> upload_start_signal s \<or> key_at s = KeyArmed \<or> current_gen s < n)
     \<and> (\<forall>n ssh. upload_at s = UpWait n ssh \<longrightarrow>
          (data_ready s \<or> audio.pending n (pcm_ring s) = []) \<and> (stream_ended s \<or> ended_gen s < n))
     \<and> (up_draining (upload_at s) \<longrightarrow> upload_buf s \<noteq> [])"

lemma capture_frame:
  assumes "capture_step s s'"
  shows "upload_at s' = upload_at s \<and> upload_buf s' = upload_buf s \<and> key_at s' = key_at s
    \<and> current_gen s' = current_gen s \<and> presses s' = presses s \<and> sent s' = sent s
    \<and> upload_start_signal s' = upload_start_signal s
    \<and> (data_ready s \<longrightarrow> data_ready s') \<and> (stream_ended s \<longrightarrow> stream_ended s')
    \<and> (ended_gen s' = ended_gen s \<or> stream_ended s')
    \<and> (pcm_ring s' = pcm_ring s \<and> captured s' = captured s \<or> data_ready s')"
  using assms
proof cases
  case (cap_pass g l w dma late_us capped)
  from cap_pass(4) show ?thesis
    by (cases rule: capture_pass_cases) (simp_all add: capture_finish_def capture_tick_def)
qed (simp_all add: capture_wake_def capture_start_def capture_deposit_def capture_tick_def capture_finish_def
      Let_def split: prod.split)

lemma upload_ok_upload:
  assumes "upload_step s s'" and "counters_inv s" and "upload_ok s" and "presses s < 2 ^ 32 - 1"
  shows "upload_ok s'"
  using assms(1)
proof cases
  case (up_check n)
  with assms show ?thesis
    by (cases "current_gen s < n") (simp_all add: upload_check_def upload_ok_def not_less)
next
  case (up_wake_start n)
  with assms show ?thesis by (simp add: upload_wake_start_def upload_ok_def)
next
  case (up_serve n)
  with assms show ?thesis by (simp add: upload_serve_def upload_ok_def)
next
  case (up_drain n ssh)
  obtain ring k buf where r: "ring_read (pcm_ring s) n (upload_buf s) = (ring, k, buf)"
    by (metis prod_cases3)
  have inv: "ring_inv (pcm_ring s)" using assms(2) by (simp add: counters_inv_def)
  have buf: "buf \<noteq> []" using ring_read_facts(3) [OF inv r] up_drain assms(3) by (auto simp: upload_ok_def)
  have empty: "audio.pending n ring = []" if "k = 0"
  proof -
    have "ring_read (pcm_ring s) n (upload_buf s) = (ring, 0, buf)" using r that by simp
    moreover have "upload_buf s \<noteq> []" using up_drain assms(3) by (simp add: upload_ok_def)
    ultimately have "audio.pending n (pcm_ring s) = []" using audio.read_empty [OF inv] by blast
    then show ?thesis using audio.read_pending_suffix [OF inv r, of n] by simp
  qed
  show ?thesis
  proof (cases "k = 0")
    case True
    with up_drain r buf assms(3) empty show ?thesis
      by (auto simp: upload_drain_def upload_ok_def utterance_ended_def Let_def not_le)
  next
    case False
    with up_drain r buf assms(3) show ?thesis
      by (cases ssh) (simp_all add: upload_drain_def upload_ok_def Let_def)
  qed
next
  case (up_send n xs ok)
  with assms(3) show ?thesis by (cases ok) (simp_all add: upload_send_def upload_ok_def ptt_fail_def add_calls_def)
next
  case (up_wake n ssh)
  with assms(3) show ?thesis by (simp add: upload_wake_def upload_ok_def)
next
  case (up_end n ssh ok)
  have "unat n \<le> presses s"
    using up_end assms(2,3) by (simp add: upload_ok_def counters_inv_def word_le_nat_alt)
  with assms(4) have "unat (n + 1) = unat n + 1" by (intro unat_succ) simp
  moreover from this have "n + 1 \<noteq> 0" by (metis add_is_0 one_neq_zero unat_0)
  ultimately have "n + 1 \<noteq> 0 \<and> unat (n + 1) \<le> presses s + 1" using \<open>unat n \<le> presses s\<close> by simp
  with up_end show ?thesis
    by (simp add: upload_end_def upload_ok_def Let_def ptt_fail_def add_calls_def)
qed

lemma upload_ok_capture:
  assumes "capture_step s s'" and "upload_ok s"
  shows "upload_ok s'"
proof -
  note f = capture_frame [OF assms(1)]
  have eq: "upload_at s' = upload_at s" "upload_buf s' = upload_buf s" "key_at s' = key_at s"
    "current_gen s' = current_gen s" "presses s' = presses s" "upload_start_signal s' = upload_start_signal s"
    using f by simp_all
  have wait: "(data_ready s' \<or> audio.pending n (pcm_ring s') = []) \<and> (stream_ended s' \<or> ended_gen s' < n)"
    if "upload_at s = UpWait n ssh" for n ssh
  proof -
    have "data_ready s \<or> audio.pending n (pcm_ring s) = []" "stream_ended s \<or> ended_gen s < n"
      using assms(2) that by (auto simp: upload_ok_def)
    moreover have "data_ready s \<longrightarrow> data_ready s'" "stream_ended s \<longrightarrow> stream_ended s'"
      "ended_gen s' = ended_gen s \<or> stream_ended s'" "pcm_ring s' = pcm_ring s \<or> data_ready s'"
      using f by blast+
    ultimately show ?thesis by metis
  qed
  show ?thesis using assms(2) wait by (simp add: upload_ok_def eq)
qed

lemma upload_ok_key:
  assumes "key_step s s'" and "counters_inv s" and "counters_inv s'" and "upload_ok s"
  shows "upload_ok s'"
  using assms(1)
proof cases
  case key_press
  have "current_gen s \<le> current_gen s'" "presses s \<le> presses s'"
    using assms(2,3) presses_mono [OF by_key [OF assms(1)]] by (simp_all add: counters_inv_def word_le_nat_alt)
  with key_press assms(4) show ?thesis
    by (auto simp: start_recording_def upload_ok_def Let_def add_calls_def)
next
  case key_signal
  with assms(4) show ?thesis by (simp add: start_signals_def upload_ok_def add_calls_def)
next
  case key_release
  with assms(4) show ?thesis by (simp add: stop_recording_def upload_ok_def add_calls_def)
qed

lemma reachable_upload_ok:
  assumes "ptt_reachable s" and "presses s < 2 ^ 32 - 1"
  shows "upload_ok s"
  using assms
proof (induction rule: ptt_reachable.induct)
  case at_boot
  then show ?case by (simp add: ptt_init_def upload_ok_def)
next
  case (by_step s s')
  have less: "presses s < 2 ^ 32 - 1" using presses_mono [OF by_step(2)] by_step(4) by simp
  have inv: "counters_inv s" "counters_inv s'"
    using reachable_counters [OF by_step(1) less]
      reachable_counters [OF ptt_reachable.by_step [OF by_step(1,2)] by_step(4)] by simp_all
  from by_step(2) show ?case
  proof cases
    case by_key
    then show ?thesis using inv by_step.IH [OF less] by (rule upload_ok_key)
  next
    case by_capture
    then show ?thesis using by_step.IH [OF less] by (rule upload_ok_capture)
  next
    case by_upload
    then show ?thesis using inv(1) by_step.IH [OF less] less by (rule upload_ok_upload)
  next
    case by_session
    with by_step.IH [OF less] show ?thesis by (simp add: upload_ok_def)
  qed
qed

section \<open>What reaches the channel\<close>

definition audio_of :: "u32 \<Rightarrow> channel_event list \<Rightarrow> i16 list" where
  "audio_of g evs = concat (map (\<lambda>e. case e of Audio h xs \<Rightarrow> if h = g then xs else [] | EndMark h \<Rightarrow> []) evs)"

fun in_flight :: "u32 \<Rightarrow> upload_pc \<Rightarrow> i16 list" where
  "in_flight g (UpSend n xs) = (if n = g then xs else [])"
| "in_flight g _ = []"

definition audio_ok :: "ptt \<Rightarrow> bool" where
  "audio_ok s \<longleftrightarrow> (\<forall>g. subseq (audio_of g (sent s) @ in_flight g (upload_at s) @ audio.pending g (pcm_ring s)) (captured s g))"

lemma audio_of_append [simp]: "audio_of g (xs @ ys) = audio_of g xs @ audio_of g ys"
  by (simp add: audio_of_def)

lemma audio_of_single [simp]:
  "audio_of g [Audio h xs] = (if h = g then xs else [])" "audio_of g [EndMark h] = []"
  by (simp_all add: audio_of_def)

lemma audio_of_Nil [simp]: "audio_of g [] = []"
  by (simp add: audio_of_def)

lemma subseq_drop_middle: "subseq (a @ b @ c) d \<Longrightarrow> subseq (a @ c) d"
  by (meson list_emb_append2 subseq_append_iff subseq_order.order_refl subseq_order.order_trans subseq_append')

lemma audio_ok_deposit:
  assumes "counters_inv s" and "capture_at s = CapLock g l" and "audio_ok s"
  shows "audio_ok (capture_deposit capped g l s)"
proof -
  let ?xs = "chunk_pcm l" and ?r = "pcm_ring s"
  obtain ring res where w: "ring_write ?r g ?xs = (ring, res)" by fastforce
  have pre: "ring_inv ?r" "newest_generation ?r \<le> g" using assms(1,2) by (simp_all add: counters_inv_def)
  have key: "subseq (audio_of h (sent s) @ in_flight h (upload_at s) @ audio.pending h ring)
      (captured s h @ (if h = g then ?xs else []))" for h
  proof -
    obtain lost where "lost @ audio.pending h ring = audio.pending h ?r @ (if h = g then ?xs else [])"
      using ring_write_facts(4) [OF pre, of h ?xs] w by auto
    then have "subseq (audio.pending h ring) (audio.pending h ?r @ (if h = g then ?xs else []))"
      by (metis list_emb_append2 subseq_order.order_refl)
    then have a: "subseq ((audio_of h (sent s) @ in_flight h (upload_at s)) @ audio.pending h ring)
        ((audio_of h (sent s) @ in_flight h (upload_at s)) @ audio.pending h ?r @ (if h = g then ?xs else []))"
      by (rule subseq_append' [THEN iffD2])
    have b: "subseq (((audio_of h (sent s) @ in_flight h (upload_at s)) @ audio.pending h ?r) @ (if h = g then ?xs else []))
        (captured s h @ (if h = g then ?xs else []))"
      using assms(3) by (intro list_emb_append_mono) (simp_all add: audio_ok_def)
    show ?thesis using subseq_order.order_trans [OF a [unfolded append_assoc] b [unfolded append_assoc]] .
  qed
  have other: "subseq (audio_of h (sent s) @ in_flight h (upload_at s) @ audio.pending h ring) (captured s h)"
    if "h \<noteq> g" for h
    using key [of h] that by simp
  show ?thesis using key [of g] other
    by (simp add: capture_deposit_def w Let_def audio_ok_def capture_tick_def capture_finish_def)
qed

lemma audio_ok_drain:
  assumes "counters_inv s" and "upload_at s = UpDrain n ssh" and "audio_ok s"
  shows "audio_ok (upload_drain n ssh s)"
proof -
  obtain ring k buf where r: "ring_read (pcm_ring s) n (upload_buf s) = (ring, k, buf)"
    by (metis prod_cases3)
  have inv: "ring_inv (pcm_ring s)" using assms(1) by (simp add: counters_inv_def)
  have old: "subseq (audio_of h (sent s) @ audio.pending h (pcm_ring s)) (captured s h)" for h
    using assms(2,3) by (simp add: audio_ok_def)
  have taken: "take k buf @ audio.pending n ring = audio.pending n (pcm_ring s)"
    using audio.read_pending [OF inv r] .
  have rest: "subseq (audio_of h (sent s) @ audio.pending h ring) (captured s h)" for h
  proof -
    obtain gone where "audio.pending h (pcm_ring s) = gone @ audio.pending h ring"
      using audio.read_pending_suffix [OF inv r] by blast
    with old [of h] show ?thesis by (auto intro: subseq_drop_middle)
  qed
  have "subseq (audio_of h (sent s) @ (if n = h then take k buf else []) @ audio.pending h ring) (captured s h)" for h
    using old [of h] rest [of h] taken by (cases "n = h") simp_all
  with rest r show ?thesis
    by (auto simp: upload_drain_def audio_ok_def Let_def)
qed

lemma reachable_audio_ok:
  assumes "ptt_reachable s" and "presses s < 2 ^ 32 - 1"
  shows "audio_ok s"
  using assms
proof (induction rule: ptt_reachable.induct)
  case at_boot
  have "ring_items (ring_new n) = []" for n by (simp add: ring_items_def ring_new_def)
  then show ?case
    by (simp add: ptt_init_def audio_ok_def audio.pending_def pending_of_def)
next
  case (by_step s s')
  have less: "presses s < 2 ^ 32 - 1" using presses_mono [OF by_step(2)] by_step(4) by simp
  note inv = reachable_counters [OF by_step(1) less] and IH = by_step.IH [OF less]
  from by_step(2) show ?case
  proof cases
    case by_key
    then show ?thesis using IH
      by cases (auto simp: audio_ok_def start_recording_def start_signals_def stop_recording_def add_calls_def Let_def)
  next
    case by_capture
    then show ?thesis
    proof cases
      case (cap_pass g l w dma late_us capped)
      from cap_pass(4) show ?thesis using IH
        by (cases rule: capture_pass_cases) (simp_all add: audio_ok_def capture_finish_def capture_tick_def)
    next
      case (cap_deposit g l capped)
      with inv IH show ?thesis by (simp add: audio_ok_deposit)
    qed (use IH in \<open>simp_all add: audio_ok_def capture_wake_def capture_start_def\<close>)
  next
    case by_upload
    then show ?thesis
    proof cases
      case (up_drain n ssh)
      with inv IH show ?thesis by (simp add: audio_ok_drain)
    next
      case (up_send n xs ok)
      have "subseq (audio_of g (sent s) @ (if n = g then xs else []) @ audio.pending g (pcm_ring s)) (captured s g)" for g
        using IH up_send by (simp add: audio_ok_def)
      moreover from this have "subseq (audio_of g (sent s) @ audio.pending g (pcm_ring s)) (captured s g)" for g
        by (rule subseq_drop_middle)
      ultimately show ?thesis using up_send
        by (cases ok) (simp_all add: audio_ok_def upload_send_def ptt_fail_def add_calls_def)
    qed (use IH in \<open>auto simp: audio_ok_def upload_defs Let_def\<close>)
  next
    case by_session
    with IH show ?thesis by (simp add: audio_ok_def)
  qed
qed

section \<open>The order of what reaches the channel\<close>

fun is_audio :: "channel_event \<Rightarrow> bool" where
  "is_audio (Audio g xs) = True" | "is_audio (EndMark g) = False"

text \<open>Audio before the end mark of its generation, and every generation before the next.\<close>

definition event_before :: "channel_event \<Rightarrow> channel_event \<Rightarrow> bool" where
  "event_before a b \<longleftrightarrow> event_gen a < event_gen b \<or> event_gen a = event_gen b \<and> is_audio a"

definition order_ok :: "ptt \<Rightarrow> bool" where
  "order_ok s \<longleftrightarrow> sorted_wrt event_before (sent s)
     \<and> (\<forall>e \<in> set (sent s). event_gen e < up_gen (upload_at s)
          \<or> up_serving (upload_at s) \<and> event_gen e = up_gen (upload_at s) \<and> is_audio e)
     \<and> (\<forall>g. captured s g \<noteq> [] \<longrightarrow> g \<noteq> 0 \<and> g \<le> current_gen s)"

lemma order_ok_upload:
  assumes "upload_step s s'" and "counters_inv s" and "upload_ok s" and "presses s < 2 ^ 32 - 1" and "order_ok s"
  shows "order_ok s'"
  using assms(1)
proof cases
  case (up_check n)
  with assms(5) show ?thesis
    by (cases "current_gen s < n") (simp_all add: upload_check_def order_ok_def)
next
  case (up_drain n ssh)
  obtain ring k buf where "ring_read (pcm_ring s) n (upload_buf s) = (ring, k, buf)"
    by (metis prod_cases3)
  with up_drain assms(5) show ?thesis
    by (cases "k = 0"; cases ssh) (simp_all add: upload_drain_def order_ok_def Let_def)
next
  case (up_send n xs ok)
  with assms(5) show ?thesis
    by (cases ok) (auto simp: upload_send_def order_ok_def sorted_wrt_append event_before_def ptt_fail_def add_calls_def)
next
  case (up_end n ssh ok)
  have "unat n \<le> presses s"
    using up_end assms(2,3) by (simp add: upload_ok_def counters_inv_def word_le_nat_alt)
  with assms(4) have "unat (n + 1) = unat n + 1" by (intro unat_succ) simp
  then have n: "n < n + 1" "m < n \<Longrightarrow> m < n + 1" "n \<le> n + 1" for m
    by (simp_all add: word_less_nat_alt word_le_nat_alt)
  have "\<forall>e \<in> set (sent s). event_gen e < n \<or> event_gen e = n \<and> is_audio e"
    using assms(5) up_end by (simp add: order_ok_def)
  with up_end assms(5) n show ?thesis
    by (auto simp: upload_end_def order_ok_def Let_def sorted_wrt_append event_before_def ptt_fail_def add_calls_def)
qed (use assms(5) in \<open>simp_all add: order_ok_def upload_defs\<close>)

lemma order_ok_capture:
  assumes "capture_step s s'" and "counters_inv s" and "order_ok s"
  shows "order_ok s'"
proof -
  have "\<forall>g. captured s' g \<noteq> [] \<longrightarrow> g \<noteq> 0 \<and> g \<le> current_gen s"
    using assms(1)
  proof cases
    case (cap_pass g l w dma late_us capped)
    from cap_pass(4) show ?thesis using assms(3)
      by (cases rule: capture_pass_cases) (simp_all add: order_ok_def capture_finish_def capture_tick_def)
  next
    case (cap_deposit g l capped)
    then have "g \<noteq> 0" "g \<le> current_gen s" using assms(2) by (simp_all add: counters_inv_def)
    with cap_deposit assms(3) show ?thesis
      by (simp add: order_ok_def capture_deposit_def capture_tick_def capture_finish_def Let_def split: prod.split)
  qed (use assms(3) in \<open>simp_all add: order_ok_def capture_wake_def capture_start_def\<close>)
  with capture_frame [OF assms(1)] assms(3) show ?thesis by (simp add: order_ok_def)
qed

lemma reachable_order_ok:
  assumes "ptt_reachable s" and "presses s < 2 ^ 32 - 1"
  shows "order_ok s"
  using assms
proof (induction rule: ptt_reachable.induct)
  case at_boot
  then show ?case by (simp add: ptt_init_def order_ok_def)
next
  case (by_step s s')
  have less: "presses s < 2 ^ 32 - 1" using presses_mono [OF by_step(2)] by_step(4) by simp
  note inv = reachable_counters [OF by_step(1) less] and IH = by_step.IH [OF less]
    and up = reachable_upload_ok [OF by_step(1) less]
  have inv': "counters_inv s'"
    by (rule reachable_counters [OF ptt_reachable.by_step [OF by_step(1,2)] by_step(4)])
  from by_step(2) show ?case
  proof cases
    case by_key
    then show ?thesis
    proof cases
      case key_press
      have "current_gen s \<le> current_gen s'"
        using inv inv' presses_mono [OF by_step(2)] by (simp add: counters_inv_def word_le_nat_alt)
      with key_press IH show ?thesis
        by (auto simp: start_recording_def order_ok_def Let_def add_calls_def intro: order_trans)
    qed (use IH in \<open>simp_all add: order_ok_def start_signals_def stop_recording_def add_calls_def\<close>)
  next
    case by_capture
    then show ?thesis using inv IH by (rule order_ok_capture)
  next
    case by_upload
    then show ?thesis using inv up less IH by (rule order_ok_upload)
  next
    case by_session
    with IH show ?thesis by (simp add: order_ok_def)
  qed
qed

section \<open>Progress of the upload task\<close>

fun up_phase :: "upload_pc \<Rightarrow> nat" where
  "up_phase (UpCheck n) = 6" | "up_phase (UpSleep n) = 0" | "up_phase (UpServe n) = 5"
| "up_phase (UpDrain n ssh) = 3" | "up_phase (UpSend n xs) = 4" | "up_phase (UpWait n ssh) = 1"
| "up_phase (UpEnd n ssh) = 1"

definition signals :: "ptt \<Rightarrow> nat" where
  "signals s = of_bool (upload_start_signal s) + of_bool (data_ready s) + of_bool (stream_ended s)"

definition upload_work :: "ptt \<Rightarrow> nat \<times> nat" where
  "upload_work s = (unat (current_gen s) + 1 - unat (up_gen (upload_at s)),
     4 * ring_len (pcm_ring s) + 7 * signals s + up_phase (upload_at s))"

lemma upload_work_decreases:
  assumes "upload_step s s'" and "counters_inv s" and "upload_ok s" and "presses s < 2 ^ 32 - 1"
  shows "(upload_work s', upload_work s) \<in> less_than <*lex*> less_than"
  using assms(1)
proof cases
  case (up_check n)
  then show ?thesis
    by (cases "current_gen s < n") (simp_all add: upload_check_def upload_work_def signals_def)
next
  case (up_drain n ssh)
  obtain ring k buf where r: "ring_read (pcm_ring s) n (upload_buf s) = (ring, k, buf)"
    by (metis prod_cases3)
  have inv: "ring_inv (pcm_ring s)" using assms(2) by (simp add: counters_inv_def)
  from ring_read_facts(4) [OF inv r] up_drain r show ?thesis
    by (cases "k = 0"; cases ssh) (auto simp: upload_drain_def upload_work_def signals_def Let_def)
next
  case (up_send n xs ok)
  then show ?thesis
    by (cases ok) (simp_all add: upload_send_def upload_work_def signals_def ptt_fail_def add_calls_def)
next
  case (up_end n ssh ok)
  have n: "unat n \<le> presses s" "n \<le> current_gen s"
    using up_end assms(2,3) by (simp_all add: upload_ok_def counters_inv_def word_le_nat_alt)
  with assms(4) have "unat (n + 1) = unat n + 1" by (intro unat_succ) simp
  moreover have "unat (current_gen s) - unat n < Suc (unat (current_gen s)) - unat n"
    using n(2) by (simp add: word_le_nat_alt)
  ultimately show ?thesis using up_end
    by (simp add: upload_end_def upload_work_def Let_def ptt_fail_def add_calls_def)
qed (auto simp: upload_wake_start_def upload_serve_def upload_wake_def upload_work_def signals_def)

text \<open>At rest with the keys and the capture quiet, everything armed has been served.\<close>

lemma upload_at_rest:
  assumes "counters_inv s" and "upload_ok s" and "presses s < 2 ^ 32 - 1"
    and "key_at s = KeyIdle" and "capture_at s = CapIdle" and "\<not> start_signal s"
    and "\<nexists>s'. upload_step s s'"
  shows "upload_at s = UpSleep (current_gen s + 1)"
proof (cases "upload_at s")
  case (UpSleep n)
  then have "\<not> upload_start_signal s" using assms(7) up_wake_start by blast
  with UpSleep assms(2,4) have lt: "current_gen s < n" "unat n \<le> presses s + 1" by (auto simp: upload_ok_def)
  have "unat (current_gen s) = presses s" using assms(1) by (simp add: counters_inv_def)
  moreover have "unat (current_gen s + 1) = unat (current_gen s) + 1"
    using assms(3) calculation by (intro unat_succ) simp
  ultimately have "n = current_gen s + 1" using lt by (simp add: word_less_nat_alt word_unat_eq_iff)
  with UpSleep show ?thesis by simp
next
  case (UpWait n ssh)
  then have quiet: "\<not> data_ready s" "\<not> stream_ended s" using assms(7) up_wake by blast+
  with UpWait assms(2) have "ended_gen s < n" "n \<le> current_gen s" by (auto simp: upload_ok_def)
  moreover have "ended_gen s = current_gen s" using assms(1,4,5,6) by (simp add: counters_inv_def)
  ultimately show ?thesis by simp
next
  case (UpCheck n)
  with assms(7) show ?thesis using upload_step.up_check by blast
next
  case (UpServe n)
  with assms(7) show ?thesis using upload_step.up_serve by blast
next
  case (UpDrain n ssh)
  with assms(7) show ?thesis using upload_step.up_drain by blast
next
  case (UpSend n xs)
  with assms(7) show ?thesis using upload_step.up_send by blast
next
  case (UpEnd n ssh)
  with assms(7) show ?thesis using upload_step.up_end by blast
qed

section \<open>What push-to-talk guarantees\<close>

lemma reachable_all:
  assumes "ptt_reachable s" and "presses s < 2 ^ 32 - 1"
  shows "counters_inv s \<and> upload_ok s \<and> audio_ok s \<and> order_ok s \<and> capture_ok s"
  using assms reachable_counters reachable_upload_ok reachable_audio_ok reachable_order_ok reachable_capture_ok
  by blast

lemma upload_keeps_reachable:
  "upload_step\<^sup>*\<^sup>* s s' \<Longrightarrow> ptt_reachable s \<Longrightarrow> ptt_reachable s' \<and> current_gen s' = current_gen s
     \<and> presses s' = presses s \<and> key_at s' = key_at s \<and> capture_at s' = capture_at s
     \<and> start_signal s' = start_signal s"
proof (induction rule: rtranclp_induct)
  case (step s' s'')
  then have "ptt_reachable s''" by (blast intro: ptt_reachable.by_step by_upload)
  with step upload_frame [OF step(2)] show ?case by simp
qed simp

lemma end_marks_unique:
  "sorted_wrt event_before evs \<Longrightarrow> length (filter (\<lambda>e. e = EndMark g) evs) \<le> 1"
proof (induction evs)
  case (Cons a evs)
  show ?case
  proof (cases "a = EndMark g")
    case True
    with Cons.prems have "filter (\<lambda>e. e = EndMark g) evs = []"
      by (auto simp: filter_empty_conv event_before_def)
    with True show ?thesis by simp
  next
    case False
    with Cons show ?thesis by simp
  qed
qed simp

text \<open>C1: In every interleaving of the keys, the capture task, the upload task and the session,
  what is sent of an utterance is a subsequence of the samples captured for it - no sample is
  duplicated, reordered, or taken from another utterance; the channel sees the utterances in
  the order they were armed, each one's audio before its end mark and at most one end mark
  each; and only armed utterances are captured.\<close>

theorem ptt_audio_in_order:
  assumes "ptt_reachable s" and "presses s < 2 ^ 32 - 1"
  shows "(\<forall>g. subseq (audio_of g (sent s)) (captured s g))
    \<and> sorted_wrt event_before (sent s)
    \<and> (\<forall>g. length (filter (\<lambda>e. e = EndMark g) (sent s)) \<le> 1)
    \<and> (\<forall>g. captured s g \<noteq> [] \<longrightarrow> g \<noteq> 0 \<and> g \<le> current_gen s)"
proof -
  have "subseq (audio_of g (sent s) @ (in_flight g (upload_at s) @ audio.pending g (pcm_ring s)) @ []) (captured s g)" for g
    using reachable_all [OF assms] by (simp add: audio_ok_def)
  then have "subseq (audio_of g (sent s)) (captured s g)" for g
    using subseq_drop_middle by (metis append_Nil2)
  moreover have "sorted_wrt event_before (sent s)"
    using reachable_all [OF assms] by (simp add: order_ok_def)
  moreover from this have "length (filter (\<lambda>e. e = EndMark g) (sent s)) \<le> 1" for g
    by (rule end_marks_unique)
  moreover have "\<forall>g. captured s g \<noteq> [] \<longrightarrow> g \<noteq> 0 \<and> g \<le> current_gen s"
    using reachable_all [OF assms] by (simp add: order_ok_def)
  ultimately show ?thesis by blast
qed

theorem ptt_audio_in_order_witness:
  "sorted_wrt event_before (sent (start_recording (ptt_init\<lparr>audio_up := True, session_up := True\<rparr>)))"
proof -
  let ?s = "ptt_init\<lparr>audio_up := True, session_up := True\<rparr>"
  have "ptt_reachable ?s" by (rule by_step [OF at_boot by_session])
  moreover have "key_at ?s = KeyIdle" by (simp add: ptt_init_def)
  ultimately have "ptt_reachable (start_recording ?s)"
    using by_step by_key key_press by blast
  moreover have "presses (start_recording ?s) < 2 ^ 32 - 1"
    by (simp add: start_recording_def ptt_init_def Let_def)
  ultimately show ?thesis using ptt_audio_in_order [of "start_recording ?s"] by blast
qed

text \<open>C2: No task sleeps through its work: when the upload task waits for more audio and neither of
  its signals is set, nothing of its utterance is left in the ring and the event that ends the
  utterance is still to come; when it waits for a recording to start, none is armed that is
  not about to be announced; and a pass of the capture loop never fails.\<close>

theorem no_lost_wakeup:
  assumes "ptt_reachable s" and "presses s < 2 ^ 32 - 1"
  shows "(\<forall>n ssh. upload_at s = UpWait n ssh \<and> \<not> data_ready s \<and> \<not> stream_ended s \<longrightarrow>
        audio.pending n (pcm_ring s) = [] \<and> \<not> ended_gen s \<ge> n
        \<and> (key_at s = KeyArmed \<or> start_signal s \<or> capture_at s \<noteq> CapIdle))
    \<and> (\<forall>n. upload_at s = UpSleep n \<and> \<not> upload_start_signal s \<longrightarrow> key_at s = KeyArmed \<or> current_gen s < n)
    \<and> (recording s \<noteq> 0 \<longrightarrow> key_at s = KeyArmed \<or> start_signal s \<or> cap_gen (capture_at s) = Some (recording s))
    \<and> (\<forall>g l w late_us dma capped. capture_at s = CapLoop g l \<and> w < DMA_RING_WORDS \<and> length dma = DMA_RING_WORDS \<longrightarrow>
        capture_pass w late_us dma capped g l s \<noteq> None)"
proof -
  have inv: "counters_inv s" "upload_ok s" "capture_ok s" using reachable_all [OF assms] by simp_all
  have event: "key_at s = KeyArmed \<or> start_signal s \<or> cap_gen (capture_at s) = Some (current_gen s)"
    if "ended_gen s \<noteq> current_gen s" using inv(1) that by (auto simp: counters_inv_def)
  have wait: "audio.pending n (pcm_ring s) = [] \<and> ended_gen s < n \<and> n \<le> current_gen s"
    if "upload_at s = UpWait n ssh" "\<not> data_ready s" "\<not> stream_ended s" for n ssh
    using inv(2) that by (auto simp: upload_ok_def)
  have pass: "capture_pass w late_us dma capped g l s \<noteq> None"
    if "capture_at s = CapLoop g l" "w < 2048" "length dma = 2048" for g l w late_us dma capped
  proof -
    have "capture_inv l" using inv(3) that(1) by (auto simp: capture_ok_def)
    note poll = capture_poll_inv [OF this that(2,3), of late_us]
    obtain l' notice where "capture_poll w late_us dma l = Some (l', notice)"
      by (rule poll)
    then show ?thesis by (simp add: capture_pass_def Let_def)
  qed
  have asleep: "upload_at s = UpSleep n \<and> \<not> upload_start_signal s \<Longrightarrow> key_at s = KeyArmed \<or> current_gen s < n" for n
    using inv(2) by (auto simp: upload_ok_def)
  have rec: "recording s \<noteq> 0 \<Longrightarrow> key_at s = KeyArmed \<or> start_signal s \<or> cap_gen (capture_at s) = Some (recording s)"
  proof -
    assume "recording s \<noteq> 0"
    then have "recording s = current_gen s" "ended_gen s \<noteq> current_gen s"
      using inv(1) unfolding counters_inv_def by blast+
    with event show ?thesis by simp
  qed
  have coming: "key_at s = KeyArmed \<or> start_signal s \<or> capture_at s \<noteq> CapIdle"
    if "upload_at s = UpWait n ssh" "\<not> data_ready s" "\<not> stream_ended s" for n ssh
  proof -
    have "ended_gen s \<noteq> current_gen s" using wait [OF that] by auto
    then show ?thesis using event by auto
  qed
  show ?thesis
  proof (intro conjI)
    show "\<forall>n ssh. upload_at s = UpWait n ssh \<and> \<not> data_ready s \<and> \<not> stream_ended s \<longrightarrow>
        audio.pending n (pcm_ring s) = [] \<and> \<not> ended_gen s \<ge> n
        \<and> (key_at s = KeyArmed \<or> start_signal s \<or> capture_at s \<noteq> CapIdle)"
      using wait coming by (simp add: not_le)
  qed (use asleep rec pass in \<open>simp_all add: DMA_RING_WORDS_def\<close>)
qed

theorem no_lost_wakeup_witness:
  "recording (start_recording (ptt_init\<lparr>audio_up := True, session_up := True\<rparr>)) = 1
   \<and> key_at (start_recording (ptt_init\<lparr>audio_up := True, session_up := True\<rparr>)) = KeyArmed"
proof -
  let ?s = "ptt_init\<lparr>audio_up := True, session_up := True\<rparr>"
  have "ptt_reachable ?s" by (rule by_step [OF at_boot by_session])
  moreover have "key_at ?s = KeyIdle" by (simp add: ptt_init_def)
  ultimately have "ptt_reachable (start_recording ?s)"
    using by_step by_key key_press by blast
  moreover have "presses (start_recording ?s) < 2 ^ 32 - 1"
    by (simp add: start_recording_def ptt_init_def Let_def)
  ultimately show ?thesis using no_lost_wakeup [of "start_recording ?s"]
    by (auto simp: start_recording_def ptt_init_def Let_def)
qed

text \<open>C5: The upload task always comes to rest: from a reachable state no infinite run of upload
  steps exists, whatever the channel answers.\<close>

theorem upload_terminates:
  "wf {(s', s). ptt_reachable s \<and> presses s < 2 ^ 32 - 1 \<and> upload_step s s'}"
proof (rule wf_subset)
  show "wf (inv_image (less_than <*lex*> less_than) upload_work)" by blast
  show "{(s', s). ptt_reachable s \<and> presses s < 2 ^ 32 - 1 \<and> upload_step s s'}
      \<subseteq> inv_image (less_than <*lex*> less_than) upload_work"
    using reachable_all upload_work_decreases by (auto simp: inv_image_def)
qed

text \<open>The same fact, for the progress proof below.\<close>

lemma upload_reaches_rest:
  assumes "ptt_reachable s" and "presses s < 2 ^ 32 - 1"
  shows "\<exists>s'. upload_step\<^sup>*\<^sup>* s s' \<and> (\<nexists>s''. upload_step s' s'')"
  using assms
proof (induction "upload_work s" arbitrary: s rule: wf_induct_rule [OF wf_lex_prod [OF wf_less_than wf_less_than]])
  case 1
  show ?case
  proof (cases "\<exists>s'. upload_step s s'")
    case True
    then obtain s' where s': "upload_step s s'" by blast
    have "(upload_work s', upload_work s) \<in> less_than <*lex*> less_than"
      using upload_work_decreases [OF s'] reachable_all [OF 1(2,3)] 1(3) by simp
    moreover have "ptt_reachable s'" "presses s' < 2 ^ 32 - 1"
      using 1(2,3) s' upload_frame [OF s'] by (auto intro: ptt_reachable.by_step by_upload)
    ultimately show ?thesis using 1(1) s' by (meson converse_rtranclp_into_rtranclp)
  next
    case False
    then show ?thesis by blast
  qed
qed

text \<open>C4: Every utterance is served to its end: once the keys and the capture are quiet, however
  the session behaves, the upload task can always come to rest, and whenever it is at rest it
  has served every armed utterance and waits for the next one.\<close>

theorem upload_serves_everything:
  assumes "ptt_reachable s" and "presses s < 2 ^ 32 - 1"
    and "key_at s = KeyIdle" and "capture_at s = CapIdle" and "\<not> start_signal s"
  shows "(\<exists>s'. upload_step\<^sup>*\<^sup>* s s' \<and> (\<nexists>s''. upload_step s' s''))
    \<and> (\<forall>s'. upload_step\<^sup>*\<^sup>* s s' \<and> (\<nexists>s''. upload_step s' s'') \<longrightarrow> upload_at s' = UpSleep (current_gen s + 1))"
proof -
  have "upload_at s' = UpSleep (current_gen s + 1)"
    if run: "upload_step\<^sup>*\<^sup>* s s'" and "\<nexists>s''. upload_step s' s''" for s'
  proof -
    have k: "ptt_reachable s'" "current_gen s' = current_gen s" "presses s' = presses s" "key_at s' = KeyIdle"
      "capture_at s' = CapIdle" "\<not> start_signal s'"
      using upload_keeps_reachable [OF run assms(1)] assms(3-5) by simp_all
    then have "presses s' < 2 ^ 32 - 1" using assms(2) by simp
    with reachable_all [OF k(1) this] upload_at_rest [of s'] k that(2) show ?thesis by simp
  qed
  with upload_reaches_rest [OF assms(1,2)] show ?thesis by blast
qed

theorem upload_serves_everything_witness:
  "\<exists>s'. upload_step\<^sup>*\<^sup>* ptt_init s' \<and> upload_at s' = UpSleep 1"
  using upload_serves_everything [OF at_boot] by (auto simp: ptt_init_def)

end
