(* ===== verification/Clock.thy ===== *)
theory Clock
  imports RustStd
begin

text \<open>
  \<open>src/time.rs\<close>: the wall clock kept as a Unix time and the instant it was taken at, its
  update from NTP, the RFC 3339 text, the timestamp given to the SD card's file system, and the
  interval of the NTP poll. The calendar (\<open>chrono\<close>) is outside: a date and time of day are
  given by their fields.
\<close>

section \<open>Unix time\<close>

record unix_time =
  seconds :: u64
  useconds :: u32

definition unix_default :: unix_time where
  "unix_default = \<lparr>seconds = 0, useconds = 0\<rparr>"

record the_time =
  unix :: unix_time
  instant :: nat

definition the_time_new :: "nat \<Rightarrow> the_time" where
  "the_time_new now = \<lparr>unix = unix_default, instant = now\<rparr>"

text \<open>The loop that carries whole seconds out of the microseconds.\<close>

function carry_useconds :: "u64 \<Rightarrow> u32 \<Rightarrow> u64 \<times> u32" where
  "carry_useconds s u = (if u > 1000000 then carry_useconds (s + 1) (u - 1000000) else (s, u))"
  by pat_completeness auto

lemma unat_carry: "u > (1000000 :: u32) \<Longrightarrow> unat (u - 1000000) = unat u - 1000000"
  by (subst unat_sub) (simp_all add: word_le_nat_alt word_less_nat_alt)

termination carry_useconds
  by (relation "measure (\<lambda>(s, u). unat u)") (simp_all add: unat_carry word_less_nat_alt)

declare carry_useconds.simps [simp del]

text \<open>\<open>locked\<close> is the clock when its lock is free; the current instant is in microseconds.\<close>

definition unix_now :: "the_time option \<Rightarrow> nat \<Rightarrow> unix_time" where
  "unix_now locked now_us =
     (case locked of
        None \<Rightarrow> unix_default
      | Some t \<Rightarrow>
          let elapsed = sat_sub now_us (instant t);
              s = saturating_add (seconds (unix t)) (of_nat (elapsed div 1000000));
              remainder = elapsed - elapsed div 1000000 * 1000000;
              u = saturating_add (useconds (unix t)) (of_nat remainder);
              (s', u') = carry_useconds s u
          in \<lparr>seconds = s', useconds = u'\<rparr>)"

text \<open>\<open>DateTime::from_timestamp\<close> takes a nanosecond part of a second or more only in a leap second,
  that is when the seconds end a minute; \<open>as_chrono\<close> panics (\<^term>\<open>None\<close>) otherwise.
  The product is in 32-bit arithmetic.\<close>

definition as_chrono :: "unix_time \<Rightarrow> (u64 \<times> nat) option" where
  "as_chrono t =
     (let nanos = unat (useconds t * 1000)
      in if nanos < 1000000000 \<or> nanos < 2000000000 \<and> unat (seconds t) mod 60 = 59
         then Some (seconds t, nanos) else None)"

text \<open>\<open>sec_fraction() * 1_000_000 / u32::MAX\<close>, in release arithmetic: the product wraps.\<close>

definition update_from_ntp :: "nat \<Rightarrow> u32 \<Rightarrow> u32 \<Rightarrow> the_time" where
  "update_from_ntp now ntp_sec sec_fraction =
     \<lparr>unix = \<lparr>seconds = ucast ntp_sec, useconds = sec_fraction * 1000000 div (- 1)\<rparr>, instant = now\<rparr>"

section \<open>Text and timestamps\<close>

text \<open>Zero-padded decimal fields.\<close>

definition pad_nat :: "nat \<Rightarrow> nat \<Rightarrow> rstr" where
  "pad_nat w n = replicate (w - length (show_nat n)) CHR ''0'' @ show_nat n"

definition signed_year :: "int \<Rightarrow> rstr" where
  "signed_year y = (if 0 \<le> y then ''+'' else ''-'') @ pad_nat 4 (nat \<bar>y\<bar>)"

record civil =
  cv_year :: int
  cv_month :: nat
  cv_day :: nat
  cv_hour :: nat
  cv_min :: nat
  cv_sec :: nat
  cv_nano :: nat

definition rfc3339 :: "civil \<Rightarrow> rstr" where
  "rfc3339 c =
     (let year = (if 0 \<le> cv_year c \<and> cv_year c \<le> 9999 then pad_nat 4 (nat (cv_year c)) else signed_year (cv_year c));
          sec = (if 1000000000 \<le> cv_nano c then cv_sec c + 1 else cv_sec c)
      in year @ ''-'' @ pad_nat 2 (cv_month c) @ ''-'' @ pad_nat 2 (cv_day c) @ ''T''
         @ pad_nat 2 (cv_hour c) @ '':'' @ pad_nat 2 (cv_min c) @ '':'' @ pad_nat 2 sec @ ''Z'')"

record sd_timestamp =
  year_since_1970 :: u8
  zero_indexed_month :: u8
  zero_indexed_day :: u8
  ts_hours :: u8
  ts_minutes :: u8
  ts_seconds :: u8

definition get_timestamp :: "civil \<Rightarrow> sd_timestamp" where
  "get_timestamp c =
     \<lparr>year_since_1970 = of_int (cv_year c - 1970), zero_indexed_month = of_nat (cv_month c - 1),
      zero_indexed_day = of_nat (cv_day c - 1), ts_hours = of_nat (cv_hour c),
      ts_minutes = of_nat (cv_min c), ts_seconds = of_nat (cv_sec c)\<rparr>"

definition time_command :: "civil \<Rightarrow> rstr" where
  "time_command c = ''The time is '' @ rfc3339 c @ [CHR 0x0d, CHR 0x0a]"

section \<open>The NTP poll\<close>

text \<open>One round: the first server that answers gives the offset, in microseconds.\<close>

datatype ntp_answer = NtpError | NtpTime u32 u32 int

fun first_answer :: "ntp_answer list \<Rightarrow> (u32 \<times> u32 \<times> int) option" where
  "first_answer [] = None"
| "first_answer (NtpError # as) = first_answer as"
| "first_answer (NtpTime s f off # as) = Some (s, f, off)"

definition sync_round :: "nat \<Rightarrow> ntp_answer list \<Rightarrow> the_time \<times> nat \<Rightarrow> the_time \<times> nat" where
  "sync_round now answers st =
     (case st of (clock, interval) \<Rightarrow>
        case first_answer answers of
          Some (s, f, off) \<Rightarrow>
            (update_from_ntp now s f, if nat \<bar>off\<bar> < 1000000 then min (interval * 2) 1024 else 15)
        | None \<Rightarrow> (clock, max (interval div 2) 15))"

section \<open>What the clock guarantees\<close>

lemma carry_useconds_eq:
  assumes "unat u \<le> 2000000"
  shows "carry_useconds s u = (if unat u \<le> 1000000 then (s, u) else (s + 1, u - 1000000))"
proof (cases "u > 1000000")
  case True
  then have "unat (u - 1000000) \<le> 1000000" using assms by (simp add: unat_carry)
  then have "\<not> u - 1000000 > 1000000" by (simp add: word_less_nat_alt)
  with True show ?thesis
    by (subst carry_useconds.simps) (simp add: carry_useconds.simps word_less_nat_alt)
next
  case False
  then show ?thesis by (subst carry_useconds.simps) (simp add: word_less_nat_alt)
qed

text \<open>C26: Reading the clock is exact: from a clock whose microseconds are below a second the reading is
  its Unix time plus the time elapsed since, to the microsecond, as long as the seconds do not
  reach the end of the 64-bit range; the microseconds come out at most a million - a whole
  million when stored and elapsed parts add up to exactly one second.\<close>

theorem unix_now_exact:
  assumes "unat (useconds (unix t)) < 1000000" and "instant t \<le> now_us"
    and "unat (seconds (unix t)) + (now_us - instant t) div 1000000 < 2 ^ 64 - 1"
  defines "r \<equiv> unix_now (Some t) now_us"
  shows "unat (seconds r) * 1000000 + unat (useconds r)
      = unat (seconds (unix t)) * 1000000 + unat (useconds (unix t)) + (now_us - instant t)
    \<and> unat (useconds r) \<le> 1000000
    \<and> (unat (useconds r) = 1000000 \<longleftrightarrow> unat (useconds (unix t)) + (now_us - instant t) mod 1000000 = 1000000)"
proof -
  define e where "e = now_us - instant t"
  let ?s = "seconds (unix t)" and ?u = "useconds (unix t)"
  have rem: "e - e div 1000000 * 1000000 = e mod 1000000" by (simp add: minus_div_mult_eq_mod)
  have es: "unat (of_nat (e div 1000000) :: u64) = e div 1000000"
    using assms(3) by (intro unat_of_nat_small) (simp add: e_def)
  have eu: "unat (of_nat (e mod 1000000) :: u32) = e mod 1000000"
    by (intro unat_of_nat_small) (simp add: less_trans [OF pos_mod_bound])
  have s: "unat (saturating_add ?s (of_nat (e div 1000000))) = unat ?s + e div 1000000"
    using assms(3) [folded e_def] by (simp add: unat_saturating_add es)
  have lt: "e mod 1000000 < 1000000" by simp
  have u: "unat (saturating_add ?u (of_nat (e mod 1000000))) = unat ?u + e mod 1000000"
    using assms(1) lt by (simp add: unat_saturating_add eu)
  define S where "S = saturating_add ?s (of_nat (e div 1000000))"
  define U where "U = saturating_add ?u (of_nat (e mod 1000000))"
  have r: "r = (let (s', u') = carry_useconds S U in \<lparr>seconds = s', useconds = u'\<rparr>)"
    by (simp only: r_def unix_now_def option.case Let_def sat_sub_eq e_def [symmetric] rem S_def U_def)
  have bound: "unat U \<le> 2000000" using u assms(1) lt by (simp add: U_def)
  have total: "e = e div 1000000 * 1000000 + e mod 1000000" by simp
  show ?thesis
  proof (cases "unat U \<le> 1000000")
    case True
    then have "r = \<lparr>seconds = S, useconds = U\<rparr>" using r carry_useconds_eq [OF bound, of S] by simp
    with True s u total show ?thesis by (simp add: S_def U_def e_def [symmetric])
  next
    case False
    then have "r = \<lparr>seconds = S + 1, useconds = U - 1000000\<rparr>" using r carry_useconds_eq [OF bound, of S] by simp
    moreover have "unat (U - 1000000) = unat U - 1000000"
      using False by (intro unat_carry) (simp add: word_less_nat_alt)
    moreover have "unat (S + 1) = unat S + 1"
      using s assms(3) by (simp add: unat_word_ariths S_def e_def)
    moreover have "unat ?u + e mod 1000000 - 1000000 < 1000000" using assms(1) lt by linarith
    ultimately show ?thesis using False s u total
      by (simp add: S_def U_def e_def [symmetric])
  qed
qed

theorem unix_now_exact_witness:
  "unat (seconds (unix_now (Some \<lparr>unix = \<lparr>seconds = 100, useconds = 0\<rparr>, instant = 5\<rparr>) 2000007)) * 1000000
     + unat (useconds (unix_now (Some \<lparr>unix = \<lparr>seconds = 100, useconds = 0\<rparr>, instant = 5\<rparr>) 2000007)) = 102000002"
  using unix_now_exact [of "\<lparr>unix = \<lparr>seconds = 100, useconds = 0\<rparr>, instant = 5\<rparr>" 2000007] by simp

text \<open>The fraction of a second an NTP server reports is lost: the product with a million wraps at
  32 bits before the division, whatever the fraction, so the clock is always set to a whole
  second and lags by up to one.\<close>

theorem ntp_fraction_lost: "useconds (unix (update_from_ntp now ntp_sec sec_fraction)) = 0"
proof -
  let ?p = "sec_fraction * 1000000"
  have "unat ?p mod 2 = 0"
  proof -
    have "unat ?p = unat sec_fraction * 1000000 mod 2 ^ 32" by (simp add: unat_word_ariths)
    then have "unat ?p mod 2 = unat sec_fraction * 1000000 mod 2"
      using mod_mod_cancel [of 2 "2 ^ 32" "unat sec_fraction * 1000000"] by simp
    then show ?thesis by (simp add: mult.commute)
  qed
  moreover have "unat (- 1 :: u32) = 4294967295" using unat_minus_one_word_all [where ?'a = 32] by simp
  ultimately have "unat ?p < unat (- 1 :: u32)" using unat_u32_bound [of ?p] by presburger
  then have "unat ?p div unat (- 1 :: u32) = 0" by simp
  then have "?p div (- 1) = 0" by (simp only: word_unat_eq_iff unat_div_distrib unat_0)
  then show ?thesis by (simp add: update_from_ntp_def)
qed

text \<open>However the servers answer, the interval between two NTP polls stays between 15 and 1024
  seconds; it never shrinks while the clock agrees, and returns to 15 after a jump of a second
  or more.\<close>

theorem sync_interval_bounds:
  assumes "15 \<le> interval" and "interval \<le> 1024"
  shows "15 \<le> snd (sync_round now answers (clock, interval)) \<and> snd (sync_round now answers (clock, interval)) \<le> 1024
    \<and> (\<forall>s f off. first_answer answers = Some (s, f, off) \<longrightarrow>
         (if \<bar>off\<bar> < 1000000 then interval \<le> snd (sync_round now answers (clock, interval))
          else snd (sync_round now answers (clock, interval)) = 15))
    \<and> (first_answer answers = None \<longrightarrow> fst (sync_round now answers (clock, interval)) = clock)"
  using assms by (auto simp: sync_round_def split: option.splits prod.splits)

theorem sync_interval_bounds_witness:
  "15 \<le> snd (sync_round 0 [NtpError, NtpTime 5 0 3] (the_time_new 0, 600))"
  using sync_interval_bounds [of 600 0 "[NtpError, NtpTime 5 0 3]" "the_time_new 0"] by simp

end
