(* ===== verification/DualHeap.thy ===== *)
theory DualHeap
  imports RustStd
begin

text \<open>
  \<open>src/heap.rs\<close>: the allocator over a RAM region and a PSRAM region. The two heaps
  (\<open>embedded_alloc\<close>) are outside: their operations are fields of \<open>heap_ops\<close>, and an address
  a heap gives out is taken to lie inside the region it was initialised with. Addresses are
  32-bit.
\<close>

definition HEAP_SIZE :: nat where "HEAP_SIZE = 64 * 1024"

record region =
  reg_start :: u32
  reg_size :: u32

definition region_default :: region where
  "region_default = \<lparr>reg_start = 0, reg_size = 0\<rparr>"

definition region_new :: "u32 \<Rightarrow> u32 \<Rightarrow> region" where
  "region_new start sz = \<lparr>reg_start = start, reg_size = sz\<rparr>"

definition region_load :: "region \<Rightarrow> u32 \<times> u32" where
  "region_load r = (reg_start r, reg_size r)"

text \<open>As written: the end is loaded from \<open>start\<close>.\<close>

definition region_contains :: "region \<Rightarrow> u32 \<Rightarrow> bool" where
  "region_contains r address =
     (let start = reg_start r; end' = reg_start r
      in start \<le> address \<and> address < start + end')"

section \<open>The allocator\<close>

record 'h heap_ops =
  heap_empty :: 'h
  heap_init :: "'h \<Rightarrow> u32 \<Rightarrow> u32 \<Rightarrow> 'h"
  heap_alloc :: "'h \<Rightarrow> nat \<times> nat \<Rightarrow> 'h \<times> u32"
  heap_dealloc :: "'h \<Rightarrow> u32 \<Rightarrow> nat \<times> nat \<Rightarrow> 'h"
  heap_used :: "'h \<Rightarrow> nat"
  heap_free :: "'h \<Rightarrow> nat"

record 'h dual_heap =
  primary :: 'h
  primary_region :: region
  secondary :: 'h

definition dual_empty :: "'h heap_ops \<Rightarrow> 'h dual_heap" where
  "dual_empty ops = \<lparr>primary = heap_empty ops, primary_region = region_default, secondary = heap_empty ops\<rparr>"

definition add_primary :: "'h heap_ops \<Rightarrow> region \<Rightarrow> 'h dual_heap \<Rightarrow> 'h dual_heap" where
  "add_primary ops r d =
     (let (start, sz) = region_load r
      in d\<lparr>primary := heap_init ops (primary d) start sz,
           primary_region := \<lparr>reg_start = start, reg_size = sz\<rparr>\<rparr>)"

definition add_secondary :: "'h heap_ops \<Rightarrow> region \<Rightarrow> 'h dual_heap \<Rightarrow> 'h dual_heap" where
  "add_secondary ops r d =
     (let (start, sz) = region_load r in d\<lparr>secondary := heap_init ops (secondary d) start sz\<rparr>)"

definition dual_used :: "'h heap_ops \<Rightarrow> 'h dual_heap \<Rightarrow> nat" where
  "dual_used ops d = heap_used ops (primary d) + heap_used ops (secondary d)"

definition dual_free :: "'h heap_ops \<Rightarrow> 'h dual_heap \<Rightarrow> nat" where
  "dual_free ops d = heap_free ops (primary d) + heap_free ops (secondary d)"

text \<open>A null pointer is address 0.\<close>

definition dual_alloc :: "'h heap_ops \<Rightarrow> nat \<times> nat \<Rightarrow> 'h dual_heap \<Rightarrow> 'h dual_heap \<times> u32" where
  "dual_alloc ops layout d =
     (let (p, ptr) = heap_alloc ops (primary d) layout; d1 = d\<lparr>primary := p\<rparr>
      in if ptr \<noteq> 0 then (d1, ptr)
         else let (s, ptr) = heap_alloc ops (secondary d1) layout in (d1\<lparr>secondary := s\<rparr>, ptr))"

definition dual_dealloc :: "'h heap_ops \<Rightarrow> u32 \<Rightarrow> nat \<times> nat \<Rightarrow> 'h dual_heap \<Rightarrow> 'h dual_heap" where
  "dual_dealloc ops ptr layout d =
     (if region_contains (primary_region d) ptr then d\<lparr>primary := heap_dealloc ops (primary d) ptr layout\<rparr>
      else d\<lparr>secondary := heap_dealloc ops (secondary d) ptr layout\<rparr>)"

definition init_heap :: "'h heap_ops \<Rightarrow> u32 \<Rightarrow> 'h dual_heap \<Rightarrow> 'h dual_heap" where
  "init_heap ops heap_mem d = add_primary ops (region_new heap_mem (of_nat HEAP_SIZE)) d"

definition init_qmi_psram_heap :: "'h heap_ops \<Rightarrow> u32 \<Rightarrow> 'h dual_heap \<Rightarrow> 'h dual_heap" where
  "init_qmi_psram_heap ops sz d = add_secondary ops (region_new 0x11000000 sz) d"

section \<open>Reporting\<close>

definition pad_left :: "nat \<Rightarrow> rstr \<Rightarrow> rstr" where
  "pad_left w s = replicate (w - length s) CHR '' '' @ s"

definition pad_right :: "nat \<Rightarrow> rstr \<Rightarrow> rstr" where
  "pad_right w s = s @ replicate (w - length s) CHR '' ''"

definition heap_line :: "rstr \<Rightarrow> nat \<Rightarrow> nat \<Rightarrow> rstr" where
  "heap_line name used free =
     pad_right 10 name @ '' '' @ pad_left 10 (show_nat (used + free)) @ '' '' @ pad_left 10 (show_nat used)
       @ '' '' @ pad_left 10 (show_nat free) @ [CHR 0x0d, CHR 0x0a]"

definition free_command :: "'h heap_ops \<Rightarrow> 'h dual_heap \<Rightarrow> rstr" where
  "free_command ops d =
     pad_right 10 [] @ '' '' @ pad_left 10 ''TOTAL'' @ '' '' @ pad_left 10 ''USED'' @ '' '' @ pad_left 10 ''FREE''
       @ [CHR 0x0d, CHR 0x0a]
     @ heap_line ''RAM'' (heap_used ops (primary d)) (heap_free ops (primary d))
     @ heap_line ''PSRAM (QMI)'' (heap_used ops (secondary d)) (heap_free ops (secondary d))"

section \<open>Where a block is freed\<close>

text \<open>Addresses of the chip: the heap's memory is a static in SRAM, PSRAM is mapped below it.\<close>

definition in_region :: "u32 \<Rightarrow> u32 \<Rightarrow> u32 \<Rightarrow> bool" where
  "in_region start sz address \<longleftrightarrow> unat start \<le> unat address \<and> unat address < unat start + unat sz"

text \<open>C27: On this chip's address map every block is freed to the heap it came from, although the
  bound of the primary region is computed wrongly: with the heap's memory in SRAM (at
  \<open>0x20000000\<close> or above, 64 KiB of it, below \<open>0x40000000\<close>) and the PSRAM window of at most 16 MiB
  below it, an address the RAM heap gave out is freed to the RAM heap and one the PSRAM heap
  gave out to the PSRAM heap, and neither free touches the other heap.\<close>

theorem dealloc_routes_to_owner:
  assumes "0x20000000 \<le> unat heap_mem" and "unat heap_mem < 0x40000000" and "unat psram_size \<le> 0x1000000"
    and "primary_region d = region_new heap_mem (of_nat HEAP_SIZE)"
  shows "(in_region heap_mem (of_nat HEAP_SIZE) ptr \<longrightarrow>
      dual_dealloc ops ptr layout d = d\<lparr>primary := heap_dealloc ops (primary d) ptr layout\<rparr>)
    \<and> (in_region 0x11000000 psram_size ptr \<longrightarrow>
      dual_dealloc ops ptr layout d = d\<lparr>secondary := heap_dealloc ops (secondary d) ptr layout\<rparr>)"
proof -
  have sum: "unat (heap_mem + heap_mem) = unat heap_mem + unat heap_mem"
    using assms(2) by (intro unat_add_lem [THEN iffD1]) simp
  have c: "region_contains (primary_region d) ptr \<longleftrightarrow> unat heap_mem \<le> unat ptr \<and> unat ptr < unat heap_mem + unat heap_mem"
    by (simp only: assms(4) region_contains_def region_new_def Let_def word_le_nat_alt word_less_nat_alt sum region.simps)
  show ?thesis
    using assms(1,3) by (auto simp: dual_dealloc_def c in_region_def HEAP_SIZE_def)
qed

theorem dealloc_routes_to_owner_witness:
  "\<forall>(ops :: unit heap_ops) l. dual_dealloc ops 0x20000010 l (init_heap ops 0x20000000 (dual_empty ops))
   = (init_heap ops 0x20000000 (dual_empty ops))\<lparr>primary := heap_dealloc ops (primary (init_heap ops 0x20000000 (dual_empty ops))) 0x20000010 l\<rparr>"
proof (intro allI)
  fix ops :: "unit heap_ops" and l
  show "dual_dealloc ops 0x20000010 l (init_heap ops 0x20000000 (dual_empty ops))
   = (init_heap ops 0x20000000 (dual_empty ops))\<lparr>primary := heap_dealloc ops (primary (init_heap ops 0x20000000 (dual_empty ops))) 0x20000010 l\<rparr>"
    using dealloc_routes_to_owner [where heap_mem = "0x20000000" and psram_size = 0
        and d = "init_heap ops 0x20000000 (dual_empty ops)" and ptr = "0x20000010" and ops = ops and layout = l]
    by (simp add: init_heap_def add_primary_def region_load_def region_new_def in_region_def HEAP_SIZE_def)
qed

text \<open>The region test itself does not test the region: it ignores the size and takes the start
  for it, so for a region smaller than its start address it accepts the first address past
  its end, and for a larger one it rejects addresses inside.\<close>

theorem region_contains_wrong:
  assumes "unat start + unat start < 2 ^ 32" and "unat start + unat sz < 2 ^ 32"
  shows "(unat sz < unat start \<longrightarrow>
      region_contains (region_new start sz) (start + sz) \<and> \<not> in_region start sz (start + sz))
    \<and> (unat start < unat sz \<longrightarrow>
      \<not> region_contains (region_new start sz) (start + start) \<and> in_region start sz (start + start))"
  using assms unat_add_lem [THEN iffD1, of start start] unat_add_lem [THEN iffD1, of start sz]
  by (simp add: region_contains_def region_new_def in_region_def word_le_nat_alt word_less_nat_alt)

theorem region_contains_wrong_witness:
  "region_contains (region_new 0x20000000 0x10000) 0x20010000 \<and> \<not> in_region 0x20000000 0x10000 0x20010000"
  using region_contains_wrong [of "0x20000000" "0x10000"] by simp

end
