(* ===== verification/Keyboard.thy ===== *)
theory Keyboard
  imports KeyDispatch
begin

text \<open>
  \<open>src/keyboard.rs\<close>: decoding of the co-processor's reports, the tracking of modifier keys, the
  battery byte that can replace a report, and the reader task's dispatch of a report to
  push-to-talk, the shortcuts, or the current process. The I2C bus is outside: a read is its
  two bytes or \<^term>\<open>None\<close> for an error.
\<close>

section \<open>Keys and reports\<close>

datatype key_state = KsIdle | KsPressed | KsHold | KsReleased

definition key_state_of :: "u8 \<Rightarrow> key_state" where
  "key_state_of s =
     (if s = 1 then KsPressed else if s = 2 then KsHold else if s = 3 then KsReleased else KsIdle)"

datatype key =
    KNone | KJoyUp | KJoyDown | KJoyLeft | KJoyRight | KJoyCenter
  | KButtonLeft1 | KButtonRight1 | KButtonLeft2 | KButtonRight2
  | KBackSpace | KTab | KEnter
  | KModAlt | KModShiftLeft | KModShiftRight | KModSymbol | KModControl
  | KEscape | KUp | KDown | KLeft | KRight | KBreak | KInsert | KHome | KDel | KEnd
  | KPageUp | KPageDown | KCapsLock
  | KF1 | KF2 | KF3 | KF4 | KF5 | KF6 | KF7 | KF8 | KF9 | KF10
  | KPower | KChar rchar | KOther u8

definition key_codes :: "(nat \<times> key) list" where
  "key_codes =
     [(0, KNone), (1, KJoyUp), (2, KJoyDown), (3, KJoyLeft), (4, KJoyRight), (5, KJoyCenter),
      (6, KButtonLeft1), (7, KButtonRight1), (8, KBackSpace), (9, KTab), (0x0a, KEnter),
      (0x11, KButtonLeft2), (0x12, KButtonRight2),
      (0xa1, KModAlt), (0xa2, KModShiftLeft), (0xa3, KModShiftRight), (0xa4, KModSymbol), (0xa5, KModControl),
      (0xb1, KEscape), (0xb4, KLeft), (0xb5, KUp), (0xb6, KDown), (0xb7, KRight),
      (0xd0, KBreak), (0xd1, KInsert), (0xd2, KHome), (0xd4, KDel), (0xd5, KEnd), (0xd6, KPageUp), (0xd7, KPageDown),
      (0xc1, KCapsLock),
      (0x81, KF1), (0x82, KF2), (0x83, KF3), (0x84, KF4), (0x85, KF5), (0x86, KF6), (0x87, KF7), (0x88, KF8),
      (0x89, KF9), (0x90, KF10), (0x91, KPower)]"

text \<open>\<open>char::from_u32\<close> accepts every value of a byte.\<close>

definition key_of :: "u8 \<Rightarrow> key" where
  "key_of k = (case map_of key_codes (unat k) of Some x \<Rightarrow> x | None \<Rightarrow> KChar (unat k))"

definition MOD_NONE :: u8 where "MOD_NONE = 0"
definition MOD_CTRL :: u8 where "MOD_CTRL = 1"
definition MOD_ALT :: u8 where "MOD_ALT = 2"
definition MOD_LSHIFT :: u8 where "MOD_LSHIFT = 4"
definition MOD_RSHIFT :: u8 where "MOD_RSHIFT = 8"
definition MOD_SYM :: u8 where "MOD_SYM = 16"

record key_report =
  rep_state :: key_state
  rep_key :: key
  rep_modifiers :: u8

record keyboard_state =
  last_key :: "key_state \<times> key"
  modifiers :: u8

definition keyboard_default :: keyboard_state where
  "keyboard_default = \<lparr>last_key = (KsIdle, KNone), modifiers = MOD_NONE\<rparr>"

definition modifier_flag :: "key \<Rightarrow> u8 option" where
  "modifier_flag k =
     (case k of
        KModAlt \<Rightarrow> Some MOD_ALT
      | KModControl \<Rightarrow> Some MOD_CTRL
      | KModShiftLeft \<Rightarrow> Some MOD_LSHIFT
      | KModShiftRight \<Rightarrow> Some MOD_RSHIFT
      | KModSymbol \<Rightarrow> Some MOD_SYM
      | _ \<Rightarrow> None)"

text \<open>\<open>Modifiers::set\<close>.\<close>

definition set_modifier :: "u8 \<Rightarrow> u8 \<Rightarrow> bool \<Rightarrow> u8" where
  "set_modifier ms flag on = (if on then ms OR flag else ms AND NOT flag)"

section \<open>Reading the co-processor\<close>

definition REG_ID_BAT :: u8 where "REG_ID_BAT = 0x0b"
definition REG_ID_BKL :: u8 where "REG_ID_BKL = 0x05"
definition REG_ID_BK2 :: u8 where "REG_ID_BK2 = 0x0a"
definition REG_ID_FIF :: u8 where "REG_ID_FIF = 0x09"
definition REG_WRITE :: u8 where "REG_WRITE = push_bit 7 1"

text \<open>The bytes of a register write.\<close>

definition write_reg :: "u8 \<Rightarrow> u8 \<Rightarrow> u8 list" where
  "write_reg reg v = [reg OR REG_WRITE, v]"

definition read_reg :: "(u8 \<times> u8) option \<Rightarrow> u8 option" where
  "read_reg buf = map_option snd buf"

definition set_lcd_backlight :: "u8 \<Rightarrow> u8 list" where
  "set_lcd_backlight level = write_reg REG_ID_BKL level"

definition set_keyboard_backlight :: "u8 \<Rightarrow> u8 list" where
  "set_keyboard_backlight level = write_reg REG_ID_BK2 level"

text \<open>The battery percentage after the read, and the decoded report.\<close>

definition read_keyboard :: "u8 \<Rightarrow> (u8 \<times> u8) option \<Rightarrow> u8 \<times> (key_state \<times> key) option" where
  "read_keyboard battery buf =
     (case buf of
        None \<Rightarrow> (battery, None)
      | Some (b0, b1) \<Rightarrow>
          if b0 = REG_ID_BAT then (b1, Some (key_state_of 0, key_of 0))
          else (battery, Some (key_state_of b0, key_of b1)))"

definition process_key :: "keyboard_state \<Rightarrow> (key_state \<times> key) option \<Rightarrow> keyboard_state \<times> key_report option" where
  "process_key kb r =
     (case r of
        None \<Rightarrow> (kb, None)
      | Some (s, k) \<Rightarrow>
          if (s, k) = last_key kb then (kb, None)
          else
            let kb1 = kb\<lparr>last_key := (s, k)\<rparr> in
            if s = KsIdle \<and> k = KNone then (kb1, None)
            else
              let kb2 = (if s = KsHold \<or> s = KsReleased then
                           (case modifier_flag k of
                              Some flag \<Rightarrow> kb1\<lparr>modifiers := set_modifier (modifiers kb1) flag (s = KsHold)\<rparr>
                            | None \<Rightarrow> kb1)
                         else kb1)
              in (kb2, Some \<lparr>rep_state = s, rep_key = k, rep_modifiers = modifiers kb2\<rparr>))"

text \<open>The reader task first drains what was buffered before the reset.\<close>

fun drain_fifo :: "u8 \<Rightarrow> (u8 \<times> u8) option list \<Rightarrow> u8 \<times> (u8 \<times> u8) option list" where
  "drain_fifo battery [] = (battery, [])"
| "drain_fifo battery (buf # bufs) =
     (case read_keyboard battery buf of
        (b, None) \<Rightarrow> (b, bufs)
      | (b, Some r) \<Rightarrow> if r = (KsIdle, KNone) then (b, bufs) else drain_fifo b bufs)"

text \<open>Once a second the battery register is read.\<close>

definition battery_tick :: "nat \<Rightarrow> u8 option \<Rightarrow> u8 \<Rightarrow> u8" where
  "battery_tick elapsed_us reading battery =
     (if 1000000 \<le> elapsed_us then (case reading of Some pct \<Rightarrow> pct | None \<Rightarrow> battery) else battery)"

section \<open>Battery status\<close>

definition battery_percentage :: "u8 \<Rightarrow> u8" where "battery_percentage b = b AND 0x7f"
definition battery_is_charging :: "u8 \<Rightarrow> bool" where "battery_is_charging b \<longleftrightarrow> b AND 0x80 \<noteq> 0"

definition show_battery :: "u8 \<Rightarrow> rstr" where
  "show_battery b =
     (let pct = battery_percentage b
      in if battery_is_charging b then
           (if pct = 0x7f then ''not present'' else show_nat (unat pct) @ ''% (charging)'')
         else show_nat (unat pct) @ ''%'')"

definition battery_command :: "u8 \<Rightarrow> rstr" where
  "battery_command battery = ''Battery: '' @ show_battery battery @ [CHR 0x0d, CHR 0x0a]"

section \<open>Dispatch\<close>

datatype kbd_action =
    StartRecording | StopRecording | RebootBootsel | Reboot | LcdBacklight u8
  | IncreaseFont | DecreaseFont | ScrollViewUp nat | ScrollViewDown nat
  | BatteryOverlay rstr | ToProcess key_report | NoKeyAction

definition transition_of :: "key_state \<Rightarrow> ptt_transition" where
  "transition_of s = (case s of KsPressed \<Rightarrow> Pressed | KsReleased \<Rightarrow> Released | _ \<Rightarrow> Other)"

text \<open>A pressed key that is not push-to-talk's: a shortcut, or input for the current process.\<close>

definition press_action :: "key_report \<Rightarrow> u8 \<Rightarrow> kbd_action" where
  "press_action r battery =
     (let k = rep_key r; ctrl = (rep_modifiers r = MOD_CTRL)
      in if k = KF5 \<and> ctrl then RebootBootsel
         else if k = KF1 \<and> ctrl then Reboot
         else if k = KF2 \<and> ctrl then LcdBacklight 0x20
         else if k = KF3 \<and> ctrl then LcdBacklight 0x80
         else if k = KF4 \<and> ctrl then LcdBacklight 0xff
         else if k = KChar 0x3d \<and> ctrl then IncreaseFont
         else if k = KChar 0x2d \<and> ctrl then DecreaseFont
         else if k = KUp \<and> ctrl then ScrollViewUp 1
         else if k = KDown \<and> ctrl then ScrollViewDown 1
         else if k = KPower then BatteryOverlay (''Battery: '' @ show_battery battery)
         else ToProcess r)"

definition dispatch_report :: "key_report \<Rightarrow> bool \<Rightarrow> u8 \<Rightarrow> kbd_action" where
  "dispatch_report r recording battery =
     (let ptt = ptt_action (rep_key r = KF1) (transition_of (rep_state r)) (rep_modifiers r = MOD_NONE) recording
      in if ptt = Start then StartRecording
         else if ptt = Stop then StopRecording
         else if rep_state r = KsPressed then press_action r battery
         else NoKeyAction)"

text \<open>One turn of the reader task: a poll of the co-processor and what it leads to.\<close>

definition keyboard_turn ::
    "keyboard_state \<Rightarrow> u8 \<Rightarrow> bool \<Rightarrow> (u8 \<times> u8) option \<Rightarrow> keyboard_state \<times> u8 \<times> kbd_action" where
  "keyboard_turn kb battery recording buf =
     (let (battery, r) = read_keyboard battery buf;
          (kb, rep) = process_key kb r
      in (kb, battery, case rep of None \<Rightarrow> NoKeyAction | Some k \<Rightarrow> dispatch_report k recording battery))"

section \<open>The \<open>bl\<close> command\<close>

datatype bl_result = BlWrite "u8 list" | BlInvalidValue | BlInvalidArgs "rstr list" | BlReport

text \<open>The first effect of the command; unless it is an error the two levels are printed after it.\<close>

definition backlight_command :: "rstr list \<Rightarrow> bl_result" where
  "backlight_command args =
     (if length args = 3 then
        (case parse_uint 256 (args ! 2) of
           None \<Rightarrow> BlInvalidValue
         | Some v \<Rightarrow>
             if args ! 1 = ''kbd'' then BlWrite (set_keyboard_backlight (of_nat v))
             else if args ! 1 = ''lcd'' then BlWrite (set_lcd_backlight (of_nat v))
             else BlInvalidArgs args)
      else BlReport)"

section \<open>Facts\<close>

lemma key_state_simps [simp]: "key_state_of 0 = KsIdle" "key_of 0 = KNone"
  by (simp_all add: key_state_of_def key_of_def key_codes_def)

text \<open>The reference for the modifiers: what a key did last, repetitions or not.\<close>

definition modifier_step :: "u8 \<Rightarrow> key_state \<times> key \<Rightarrow> u8" where
  "modifier_step ms ev =
     (case modifier_flag (snd ev) of
        Some flag \<Rightarrow> if fst ev = KsHold then ms OR flag
                     else if fst ev = KsReleased then ms AND NOT flag else ms
      | None \<Rightarrow> ms)"

definition process_all :: "(key_state \<times> key) option list \<Rightarrow> keyboard_state" where
  "process_all rs = foldl (\<lambda>kb r. fst (process_key kb r)) keyboard_default rs"

definition events_of :: "(key_state \<times> key) option list \<Rightarrow> (key_state \<times> key) list" where
  "events_of rs = map the (filter (\<lambda>r. r \<noteq> None) rs)"

lemma events_of_simps [simp]:
  "events_of [] = []" "events_of (rs @ [None]) = events_of rs" "events_of (rs @ [Some ev]) = events_of rs @ [ev]"
  by (simp_all add: events_of_def)

lemma process_all_snoc [simp]: "process_all (rs @ [r]) = fst (process_key (process_all rs) r)"
  by (simp add: process_all_def)

lemma process_key_None [simp]: "fst (process_key kb None) = kb"
  by (simp add: process_key_def)

lemma process_key_same: "fst (process_key kb (Some (last_key kb))) = kb"
  by (cases "last_key kb") (simp add: process_key_def)

lemma process_key_last: "last_key (fst (process_key kb (Some ev))) = ev"
  by (cases ev) (auto simp: process_key_def Let_def split: option.splits)

lemma modifier_step_twice: "modifier_step (modifier_step ms ev) ev = modifier_step ms ev"
proof -
  have "(ms OR f) OR f = ms OR f" "(ms AND NOT f) AND NOT f = ms AND NOT f" for f :: u8
    by (simp_all add: or.assoc and.assoc)
  then show ?thesis by (simp add: modifier_step_def split: option.split)
qed

lemma process_key_modifiers:
  "ev \<noteq> last_key kb \<Longrightarrow> modifiers (fst (process_key kb (Some ev))) = modifier_step (modifiers kb) ev"
  by (cases ev) (auto simp: process_key_def Let_def set_modifier_def modifier_step_def modifier_flag_def
      split: option.splits key.splits)

text \<open>A repeated event changes nothing, so ignoring it is harmless.\<close>

lemma process_all_reference:
  "modifiers (process_all rs) = foldl modifier_step MOD_NONE (events_of rs)
   \<and> last_key (process_all rs) = last ((KsIdle, KNone) # events_of rs)"
proof (induction rs rule: rev_induct)
  case Nil
  then show ?case by (simp add: process_all_def keyboard_default_def)
next
  case (snoc r rs)
  show ?case
  proof (cases r)
    case None
    with snoc show ?thesis by simp
  next
    case (Some ev)
    let ?kb = "process_all rs"
    have "modifiers (fst (process_key ?kb (Some ev))) = modifier_step (modifiers ?kb) ev"
    proof (cases "ev = last_key ?kb")
      case True
      then have same: "fst (process_key ?kb (Some ev)) = ?kb" by (simp only: process_key_same)
      have "modifier_step (modifiers ?kb) ev = modifiers ?kb"
      proof (cases "events_of rs = []")
        case True
        with snoc \<open>ev = last_key ?kb\<close> have "ev = (KsIdle, KNone)" by simp
        then show ?thesis by (simp add: modifier_step_def modifier_flag_def)
      next
        case False
        with snoc \<open>ev = last_key ?kb\<close> have "last (events_of rs) = ev" by simp
        with False obtain es where "events_of rs = es @ [ev]" by (metis append_butlast_last_id)
        with snoc show ?thesis by (simp add: modifier_step_twice)
      qed
      with same show ?thesis by simp
    next
      case False
      then show ?thesis by (rule process_key_modifiers)
    qed
    with Some snoc show ?thesis by (simp add: process_key_last)
  qed
qed

lemma modifier_flags:
  assumes "modifier_flag k = Some f" and "modifier_flag k' = Some f'"
  shows "f \<noteq> 0" and "k \<noteq> k' \<Longrightarrow> f' AND f = 0"
  using assms
  by (auto simp: modifier_flag_def MOD_CTRL_def MOD_ALT_def MOD_LSHIFT_def MOD_RSHIFT_def MOD_SYM_def
      split: key.splits)

lemma modifier_step_bit:
  assumes "modifier_flag k = Some f"
  shows "modifier_step ms ev AND f \<noteq> 0 \<longleftrightarrow>
    (if ev = (KsHold, k) then True else if ev = (KsReleased, k) then False else ms AND f \<noteq> 0)"
proof (cases "modifier_flag (snd ev)")
  case None
  with assms show ?thesis by (cases ev) (auto simp: modifier_step_def)
next
  case (Some f')
  have self: "(ms OR f) AND f = f" "(ms AND NOT f) AND f = 0"
    by (auto simp: bit_eq_iff bit_simps)
  have other: "(ms OR f') AND f = ms AND f" "(ms AND NOT f') AND f = ms AND f" if "f' AND f = 0"
    using that by (auto simp: bit_eq_iff bit_simps)
  show ?thesis
  proof (cases "snd ev = k")
    case True
    with Some assms self modifier_flags(1) [OF assms assms] show ?thesis
      by (cases ev) (auto simp: modifier_step_def)
  next
    case False
    then have "f' AND f = 0" using modifier_flags(2) [OF assms Some] by simp
    with other Some False show ?thesis by (cases ev) (auto simp: modifier_step_def)
  qed
qed

section \<open>What the keyboard guarantees\<close>

text \<open>C20: A modifier counts as held exactly when the last thing the co-processor reported of its key,
  among holds and releases, was a hold - through repeated reports, failed reads and reports of
  other keys, and independently for each modifier.\<close>

theorem modifiers_track_holds:
  assumes "modifier_flag k = Some f"
  shows "modifiers (process_all rs) AND f \<noteq> 0 \<longleftrightarrow>
    (\<exists>es1 es2. events_of rs = es1 @ (KsHold, k) # es2 \<and> (KsReleased, k) \<notin> set es2)"
proof -
  have "foldl modifier_step MOD_NONE evs AND f \<noteq> 0 \<longleftrightarrow>
      (\<exists>es1 es2. evs = es1 @ (KsHold, k) # es2 \<and> (KsReleased, k) \<notin> set es2)" for evs
  proof (induction evs rule: rev_induct)
    case Nil
    then show ?case by (simp add: MOD_NONE_def)
  next
    case (snoc ev evs)
    let ?held = "\<lambda>xs. \<exists>es1 es2. xs = es1 @ (KsHold, k) # es2 \<and> (KsReleased, k) \<notin> set es2"
    have "?held (evs @ [ev]) \<longleftrightarrow> ev = (KsHold, k) \<or> ev \<noteq> (KsReleased, k) \<and> ?held evs"
    proof
      assume "?held (evs @ [ev])"
      then obtain es1 es2 where h: "evs @ [ev] = es1 @ (KsHold, k) # es2" "(KsReleased, k) \<notin> set es2" by blast
      then show "ev = (KsHold, k) \<or> ev \<noteq> (KsReleased, k) \<and> ?held evs"
        by (cases es2 rule: rev_cases) auto
    next
      assume "ev = (KsHold, k) \<or> ev \<noteq> (KsReleased, k) \<and> ?held evs"
      then show "?held (evs @ [ev])"
      proof
        assume "ev = (KsHold, k)"
        then have "evs @ [ev] = evs @ (KsHold, k) # [] \<and> (KsReleased, k) \<notin> set []" by simp
        then show ?thesis by blast
      next
        assume "ev \<noteq> (KsReleased, k) \<and> ?held evs"
        then obtain es1 es2 where "evs = es1 @ (KsHold, k) # es2" "(KsReleased, k) \<notin> set (es2 @ [ev])" by auto
        then have "evs @ [ev] = es1 @ (KsHold, k) # (es2 @ [ev]) \<and> (KsReleased, k) \<notin> set (es2 @ [ev])" by simp
        then show ?thesis by blast
      qed
    qed
    with snoc modifier_step_bit [OF assms, of "foldl modifier_step MOD_NONE evs" ev] show ?case by auto
  qed
  then show ?thesis by (simp add: process_all_reference)
qed

theorem modifiers_track_holds_witness:
  "modifiers (process_all [Some (KsHold, KModControl), None, Some (KsPressed, KF1)]) AND MOD_CTRL \<noteq> 0"
proof -
  have "events_of [Some (KsHold, KModControl), None, Some (KsPressed, KF1)]
      = [] @ (KsHold, KModControl) # [(KsPressed, KF1)]" by (simp add: events_of_def)
  moreover have "(KsReleased, KModControl) \<notin> set [(KsPressed, KF1)]" by simp
  ultimately show ?thesis
    using modifiers_track_holds [of KModControl MOD_CTRL] by (fastforce simp: modifier_flag_def)
qed

text \<open>Every byte of the co-processor decodes to a key of its own: no two bytes give the same key,
  and the fallback for undecodable bytes is never needed.\<close>

theorem key_of_injective: "inj key_of \<and> (\<forall>b c. key_of b \<noteq> KOther c)"
proof -
  have fst: "distinct (map fst key_codes)" and snd: "distinct (map snd key_codes)"
    by (simp_all add: key_codes_def)
  have plain: "x \<noteq> KChar c \<and> x \<noteq> KOther d" if "map_of key_codes n = Some x" for n x c d
    using map_of_SomeD [OF that] by (auto simp: key_codes_def)
  have uniq: "n = n'" if ax: "map_of key_codes n = Some x" and bx: "map_of key_codes n' = Some x" for n n' x
  proof -
    obtain i j where "i < length key_codes" "key_codes ! i = (n, x)" "j < length key_codes" "key_codes ! j = (n', x)"
      using map_of_SomeD [OF ax] map_of_SomeD [OF bx] by (auto simp: in_set_conv_nth)
    moreover from this have "i = j"
      using snd by (metis distinct_conv_nth length_map nth_map snd_conv)
    ultimately show ?thesis by simp
  qed
  have "inj key_of"
  proof (rule injI)
    fix b c assume eq: "key_of b = key_of c"
    have "unat b = unat c"
      using eq plain uniq by (auto simp: key_of_def split: option.splits)
    then show "b = c" by (simp add: word_unat_eq_iff)
  qed
  moreover have "key_of b \<noteq> KOther c" for b c
    using plain by (auto simp: key_of_def split: option.splits)
  ultimately show ?thesis by blast
qed



end
