(* ===== verification/Shell.thy ===== *)
theory Shell
  imports Keyboard
begin

text \<open>
  \<open>src/process.rs\<close>: the line editor, the local shell over it, and the current process that
  receives the keys. Strings are bytes, as in Rust; the panics of \<open>String::insert\<close> and
  \<open>String::remove\<close> off a character boundary are \<^term>\<open>None\<close>.
\<close>

section \<open>The line editor\<close>

record line_editor =
  command :: rstr
  cursor_x :: nat

definition line_editor_default :: line_editor where
  "line_editor_default = \<lparr>command = [], cursor_x = 0\<rparr>"

definition apply_key :: "line_editor \<Rightarrow> key_report \<Rightarrow> (line_editor \<times> rstr option) option" where
  "apply_key ed r =
     (if rep_state r \<noteq> KsPressed then Some (ed, None)
      else case rep_key r of
          KChar c \<Rightarrow> do {
            cmd \<leftarrow> string_insert (command ed) (cursor_x ed) c;
            Some (ed\<lparr>command := cmd, cursor_x := cursor_x ed + 1\<rparr>, None)
          }
        | KBackSpace \<Rightarrow>
            if cursor_x ed = length (command ed) then
              Some (ed\<lparr>command := string_pop (command ed), cursor_x := sat_sub (cursor_x ed) 1\<rparr>, None)
            else do {
              cmd \<leftarrow> string_remove (command ed) (cursor_x ed);
              Some (ed\<lparr>command := cmd\<rparr>, None)
            }
        | KEnter \<Rightarrow> Some (ed\<lparr>command := [], cursor_x := 0\<rparr>, Some (command ed))
        | _ \<Rightarrow> Some (ed, None))"

definition editor_input :: "line_editor \<Rightarrow> rstr" where
  "editor_input ed = command ed"

text \<open>The lines a sequence of reports enters.\<close>

fun run_editor :: "line_editor \<Rightarrow> key_report list \<Rightarrow> (line_editor \<times> rstr list) option" where
  "run_editor ed [] = Some (ed, [])"
| "run_editor ed (r # rs) = do {
     (ed', out) \<leftarrow> apply_key ed r;
     (ed'', lines) \<leftarrow> run_editor ed' rs;
     Some (ed'', (case out of Some l \<Rightarrow> l # lines | None \<Rightarrow> lines))
   }"

section \<open>The local shell\<close>

datatype shell_cmd =
    CmdBat "rstr list" | CmdBl "rstr list" | CmdBootsel | CmdCls "rstr list" | CmdConfig "rstr list"
  | CmdFree "rstr list" | CmdHelp "rstr list" | CmdKeygen "rstr list" | CmdLs "rstr list" | CmdReboot
  | CmdSsh "rstr list" | CmdTime "rstr list" | CmdUnknown rstr

definition dispatch_command :: "rstr \<Rightarrow> shell_cmd" where
  "dispatch_command cmd =
     (let argv = str_split CHR '' '' cmd; arg0 = hd argv
      in if arg0 = ''bat'' then CmdBat argv
         else if arg0 = ''bl'' then CmdBl argv
         else if arg0 = ''bootsel'' then CmdBootsel
         else if arg0 = ''cls'' then CmdCls argv
         else if arg0 = ''config'' then CmdConfig argv
         else if arg0 = ''free'' then CmdFree argv
         else if arg0 = ''help'' then CmdHelp argv
         else if arg0 = ''keygen'' then CmdKeygen argv
         else if arg0 = ''ls'' then CmdLs argv
         else if arg0 = ''reboot'' then CmdReboot
         else if arg0 = ''ssh'' then CmdSsh argv
         else if arg0 = ''time'' then CmdTime argv
         else CmdUnknown arg0)"

definition help_lines :: "rstr list" where
  "help_lines =
     [''bat'', ''bl lcd|kbd <percent>'', ''bootsel'', ''cls'', ''config get|set|list|rm|format <args>'',
      ''free'', ''help'', ''keygen [force|show]'', ''keygen save [force]'', ''keygen load [force]'',
      ''ls [path]'', ''reboot'', ''ssh [user@]hostname[:port] [command]'',
      ''ssh save <alias> <[user@]host[:port]>'', ''ssh forget <alias>'', ''ssh list'', ''time'']"

definition crlf :: rstr where "crlf = [CHR 0x0d, CHR 0x0a]"
definition erase_to_end :: rstr where "erase_to_end = [CHR 0x1b, CHR ''['', CHR ''K'']"

definition help_command :: rstr where
  "help_command = str_join crlf help_lines @ crlf"

definition shell_render :: "line_editor \<Rightarrow> rstr" where
  "shell_render ed = [CHR 0x0d] @ ''$ '' @ command ed @ erase_to_end"

definition erase_prompt_line :: rstr where
  "erase_prompt_line = [CHR 0x0d] @ erase_to_end"

text \<open>A key press: the editor, the text written before a command runs, and the command.\<close>

definition shell_on_key_press :: "line_editor \<Rightarrow> key_report \<Rightarrow> (line_editor \<times> rstr \<times> shell_cmd option) option" where
  "shell_on_key_press ed r = do {
     (ed', out) \<leftarrow> apply_key ed r;
     Some (ed', case out of Some cmd \<Rightarrow> (crlf, Some (dispatch_command cmd)) | None \<Rightarrow> ([], None))
   }"

section \<open>The current process\<close>

text \<open>\<open>key_input\<close> of every process passes presses on only.\<close>

definition key_input :: "('s \<Rightarrow> key_report \<Rightarrow> 's) \<Rightarrow> 's \<Rightarrow> key_report \<Rightarrow> 's" where
  "key_input on_key_press s r = (if rep_state r = KsPressed then on_key_press s r else s)"

datatype 'p proc_effect = UnPrompt 'p | Render 'p

definition assign_proc_if :: "'p \<Rightarrow> 'p \<Rightarrow> ('p \<Rightarrow> bool) \<Rightarrow> 'p \<times> 'p option \<times> 'p proc_effect list" where
  "assign_proc_if current proc func =
     (if func current then (proc, Some current, [UnPrompt current, Render proc]) else (current, None, []))"

definition assign_proc :: "'p \<Rightarrow> 'p \<Rightarrow> ('p \<times> 'p \<times> 'p proc_effect list) option" where
  "assign_proc current proc =
     (case assign_proc_if current proc (\<lambda>_. True) of
        (c, Some prior, effects) \<Rightarrow> Some (c, prior, effects) | (_, None, _) \<Rightarrow> None)"

lemma assign_proc_eq: "assign_proc current proc = Some (proc, current, [UnPrompt current, Render proc])"
  by (simp add: assign_proc_def assign_proc_if_def)

section \<open>Editing ASCII lines\<close>

text \<open>What a line editor is: a text that grows and shrinks at its end and is handed over on Enter.\<close>

fun edit_text :: "rstr \<Rightarrow> key_report list \<Rightarrow> rstr \<times> rstr list" where
  "edit_text t [] = (t, [])"
| "edit_text t (r # rs) =
     (if rep_state r \<noteq> KsPressed then edit_text t rs
      else case rep_key r of
          KChar c \<Rightarrow> edit_text (t @ [byte_of c]) rs
        | KBackSpace \<Rightarrow> edit_text (butlast t) rs
        | KEnter \<Rightarrow> (let (t', lines) = edit_text [] rs in (t', t # lines))
        | _ \<Rightarrow> edit_text t rs)"

definition ascii_report :: "key_report \<Rightarrow> bool" where
  "ascii_report r = (case rep_key r of KChar c \<Rightarrow> c < 128 | _ \<Rightarrow> True)"

definition editor_inv :: "line_editor \<Rightarrow> bool" where
  "editor_inv ed \<longleftrightarrow> is_ascii (command ed) \<and> cursor_x ed = length (command ed)"

lemma string_pop_ascii: "is_ascii s \<Longrightarrow> string_pop s = butlast s"
  by (cases s rule: rev_cases) simp_all

lemma is_ascii_butlast: "is_ascii s \<Longrightarrow> is_ascii (butlast s)"
  by (cases s rule: rev_cases) simp_all

lemma string_insert_end: "string_insert s (length s) c = Some (s @ encode_utf8 c)"
  by (simp add: string_insert_def is_char_boundary_def)

text \<open>One report: the editor's step is the text's.\<close>

definition text_step :: "rstr \<Rightarrow> key_report \<Rightarrow> rstr \<Rightarrow> rstr option \<Rightarrow> bool" where
  "text_step t r t' out \<longleftrightarrow> (\<forall>rs. edit_text t (r # rs) =
     (let (t'', lines) = edit_text t' rs in (t'', case out of Some l \<Rightarrow> l # lines | None \<Rightarrow> lines)))"

lemma apply_key_refines:
  assumes "editor_inv ed" and "ascii_report r"
  obtains ed' out where "apply_key ed r = Some (ed', out)" "editor_inv ed'" "text_step (command ed) r (command ed') out"
proof -
  note found = that
  let ?t = "command ed"
  have ascii: "is_ascii ?t" and cur: "cursor_x ed = length ?t" using assms(1) by (auto simp: editor_inv_def)
  have keep: thesis if "apply_key ed r = Some (ed, None)" and "\<And>rs. edit_text ?t (r # rs) = edit_text ?t rs"
    using that assms(1) by (intro found [of ed None]) (simp_all add: text_step_def Let_def)
  show thesis
  proof (cases "rep_state r = KsPressed")
    case False
    then show thesis by (intro keep) (simp_all add: apply_key_def)
  next
    case pressed: True
    show thesis
    proof (cases "rep_key r")
      case (KChar c)
      with assms(2) have "c < 128" by (simp add: ascii_report_def)
      with pressed KChar cur ascii show thesis
        by (intro found [of "ed\<lparr>command := ?t @ [byte_of c], cursor_x := cursor_x ed + 1\<rparr>" None])
          (simp_all add: apply_key_def string_insert_end editor_inv_def text_step_def Let_def split: prod.split)
    next
      case KBackSpace
      with pressed cur ascii show thesis
        by (intro found [of "ed\<lparr>command := butlast ?t, cursor_x := cursor_x ed - 1\<rparr>" None])
          (simp_all add: apply_key_def string_pop_ascii editor_inv_def is_ascii_butlast text_step_def Let_def split: prod.split)
    next
      case KEnter
      with pressed show thesis
        by (intro found [of "ed\<lparr>command := [], cursor_x := 0\<rparr>" "Some ?t"])
          (simp_all add: apply_key_def editor_inv_def text_step_def Let_def split: prod.split)
    qed (use pressed in \<open>intro keep; simp add: apply_key_def\<close>)+
  qed
qed

text \<open>C21: For any sequence of reports whose characters are ASCII the editor never panics, keeps its
  cursor at the end of its text, and hands over exactly the lines a plain text that grows and
  shrinks at its end would give.\<close>

theorem editor_refines_text:
  assumes "editor_inv ed" and "list_all ascii_report rs"
  shows "\<exists>ed'. run_editor ed rs = Some (ed', snd (edit_text (command ed) rs))
    \<and> command ed' = fst (edit_text (command ed) rs) \<and> editor_inv ed'"
  using assms
proof (induction rs arbitrary: ed)
  case (Cons r rs)
  obtain ed1 out where step: "apply_key ed r = Some (ed1, out)" "editor_inv ed1" "text_step (command ed) r (command ed1) out"
    using apply_key_refines [OF Cons.prems(1), of r] Cons.prems(2) by auto
  from Cons.IH [OF step(2)] Cons.prems(2) step(1,3) show ?case
    by (auto simp: text_step_def Let_def split: prod.split)
qed simp

definition press :: "key \<Rightarrow> key_report" where
  "press k = \<lparr>rep_state = KsPressed, rep_key = k, rep_modifiers = MOD_NONE\<rparr>"

theorem editor_refines_text_witness:
  "\<exists>ed'. run_editor line_editor_default [press (KChar 108), press (KChar 120), press KBackSpace, press (KChar 115), press KEnter]
     = Some (ed', [''ls''])"
proof -
  let ?rs = "[press (KChar 108), press (KChar 120), press KBackSpace, press (KChar 115), press KEnter]"
  have "snd (edit_text [] ?rs) = [''ls'']"
    by (simp add: press_def char_of_def bit_0)
  then show ?thesis
    using editor_refines_text [of line_editor_default ?rs]
    by (auto simp: line_editor_default_def editor_inv_def ascii_report_def press_def)
qed

text \<open>A key whose byte is not ASCII breaks the editor: its cursor counts characters but the text
  is indexed in bytes, so after such a character the next character, or a backspace, panics.\<close>

theorem editor_panics_after_non_ascii:
  assumes "128 \<le> c" and "c < 256"
  shows "run_editor line_editor_default [press (KChar c)] \<noteq> None
    \<and> run_editor line_editor_default [press (KChar c), press (KChar d)] = None
    \<and> run_editor line_editor_default [press (KChar c), press KBackSpace] = None"
proof -
  have enc: "encode_utf8 c = [byte_of (192 + c div 64), byte_of (128 + c mod 64)]"
    using assms by (simp add: encode_utf8_def)
  have "nat_of_byte (byte_of (128 + c mod 64)) = 128 + c mod 64"
    by (simp add: less_le_trans)
  then have b: "\<not> is_char_boundary (encode_utf8 c) 1"
    by (simp add: enc is_char_boundary_def)
  then show ?thesis
    by (simp add: apply_key_def press_def line_editor_default_def string_insert_def string_remove_def
        is_char_boundary_def [of "[]"] enc)
qed

theorem editor_panics_after_non_ascii_witness:
  "run_editor line_editor_default [press (KChar 0xe9), press (KChar 97)] = None"
  using editor_panics_after_non_ascii [of 233 97] by simp

text \<open>The help text and the dispatcher agree: a line is an unknown command exactly when its first
  word is not the first word of any line of the help, and every such word runs its own command.\<close>

theorem help_in_sync:
  "(\<exists>w. dispatch_command cmd = CmdUnknown w)
   \<longleftrightarrow> hd (str_split CHR '' '' cmd) \<notin> set (map (\<lambda>l. hd (str_split CHR '' '' l)) help_lines)"
proof -
  have "set (map (\<lambda>l. hd (str_split CHR '' '' l)) help_lines) =
    {''bat'', ''bl'', ''bootsel'', ''cls'', ''config'', ''free'', ''help'', ''keygen'', ''ls'', ''reboot'', ''ssh'', ''time''}"
    by (simp add: help_lines_def)
  then show ?thesis by (simp only: dispatch_command_def Let_def) (auto split: if_splits)
qed

end
