(* ===== verification/SshTarget.thy ===== *)
theory SshTarget
  imports Config Shell
begin

text \<open>
  The console side of the SSH client (\<open>src/net.rs\<close>): host aliases in the configuration store,
  the \<open>ssh\<close> command and its target, the prompt for a user name or password, and the bytes a
  key sends to the remote terminal. \<open>dbg\<close> is the \<open>Debug\<close> text of a storage error.
\<close>

section \<open>Aliases\<close>

definition alias_key :: "rstr \<Rightarrow> rstr option" where
  "alias_key alias = do {
     key \<leftarrow> heapless_push_str 32 [] ''host_'';
     heapless_push_str 32 key alias
   }"

definition resolve_target :: "'f configuration \<Rightarrow> rstr \<Rightarrow> ('f configuration \<times> rstr) option" where
  "resolve_target c name =
     (case alias_key name of
        None \<Rightarrow> Some (c, name)
      | Some key \<Rightarrow> do {
          (c', r) \<leftarrow> config_fetch c key;
          Some (c', case r of Inr (Some v) \<Rightarrow> v | _ \<Rightarrow> name)
        })"

definition alias_key_or_report :: "rstr \<Rightarrow> rstr + rstr" where
  "alias_key_or_report alias =
     (case alias_key alias of None \<Rightarrow> Inl (''alias is too long'' @ crlf) | Some key \<Rightarrow> Inr key)"

definition quoted :: "rstr \<Rightarrow> rstr" where
  "quoted s = [CHR 0x27] @ s @ [CHR 0x27]"

definition save_alias ::
    "(storage_error \<Rightarrow> rstr) \<Rightarrow> 'f configuration \<Rightarrow> rstr \<Rightarrow> rstr \<Rightarrow> ('f configuration \<times> rstr) option" where
  "save_alias dbg c alias dest =
     (if alias \<in> {''save'', ''forget'', ''list''} then Some (c, quoted alias @ '' is a reserved name'' @ crlf)
      else case alias_key_or_report alias of
          Inl msg \<Rightarrow> Some (c, msg)
        | Inr key \<Rightarrow>
            (case fixed_try_into STR_VALUE_LEN dest of
               Inl e \<Rightarrow> Some (c, ''value `'' @ dest @ ''`: '' @ dbg e @ crlf)
             | Inr v \<Rightarrow> do {
                 (c', r) \<leftarrow> config_store c key v;
                 Some (c', case r of
                     Inr _ \<Rightarrow> ''Saved '' @ quoted alias @ '' -> '' @ dest @ crlf
                   | Inl e \<Rightarrow> dbg e @ crlf)
               }))"

definition forget_alias ::
    "(storage_error \<Rightarrow> rstr) \<Rightarrow> 'f configuration \<Rightarrow> rstr \<Rightarrow> ('f configuration \<times> rstr) option" where
  "forget_alias dbg c alias =
     (case alias_key_or_report alias of
        Inl msg \<Rightarrow> Some (c, msg)
      | Inr key \<Rightarrow> do {
          (c', r) \<leftarrow> config_remove c key;
          Some (c', case r of Inr _ \<Rightarrow> ''Forgot '' @ quoted alias @ crlf | Inl e \<Rightarrow> dbg e @ crlf)
        })"

fun alias_lines :: "(rstr \<times> rstr) list \<Rightarrow> rstr list" where
  "alias_lines [] = []"
| "alias_lines ((k, v) # m) =
     (case strip_prefix ''host_'' k of
        Some alias \<Rightarrow> (alias @ '' -> '' @ v @ crlf) # alias_lines m
      | None \<Rightarrow> alias_lines m)"

definition list_aliases :: "(storage_error \<Rightarrow> rstr) \<Rightarrow> 'f configuration \<Rightarrow> ('f configuration \<times> rstr) option" where
  "list_aliases dbg c = do {
     (c', r) \<leftarrow> config_get_all c;
     Some (c', case r of
         Inr (m, _) \<Rightarrow>
           if alias_lines m = [] then ''No saved hosts. Use `ssh save <alias> <[user@]host[:port]>`.'' @ crlf
           else concat (alias_lines m)
       | Inl e \<Rightarrow> dbg e @ crlf)
   }"

section \<open>The \<open>ssh\<close> command\<close>

type_synonym ssh_target = "rstr option \<times> rstr \<times> nat"

definition split_target :: "rstr \<Rightarrow> rstr + ssh_target" where
  "split_target target =
     (let (username, host_port) =
        (case split_once CHR ''@'' target of Some (user, rest) \<Rightarrow> (Some user, rest) | None \<Rightarrow> (None, target))
      in case rsplit_once CHR '':'' host_port of
           Some (host, port_str) \<Rightarrow>
             (case parse_uint 65536 port_str of
                Some port \<Rightarrow> Inr (username, host, port)
              | None \<Rightarrow> Inl (''invalid port `'' @ port_str @ ''`'' @ crlf))
         | None \<Rightarrow> Inr (username, host_port, 22))"

definition parse_ssh_target :: "'f configuration \<Rightarrow> rstr \<Rightarrow> ('f configuration \<times> (rstr + ssh_target)) option" where
  "parse_ssh_target c arg = do {
     (c', target) \<leftarrow> resolve_target c arg;
     Some (c', split_target target)
   }"

datatype ssh_outcome = SshText rstr | SshStart ssh_target "rstr option"

definition ssh_usage :: rstr where
  "ssh_usage = ''Usage: ssh [user@]hostname[:port] [command]'' @ crlf
     @ ''       ssh save <alias> <[user@]host[:port]>'' @ crlf
     @ ''       ssh forget <alias>'' @ crlf @ ''       ssh list'' @ crlf"

definition ssh_command ::
    "(storage_error \<Rightarrow> rstr) \<Rightarrow> 'f configuration \<Rightarrow> rstr list \<Rightarrow> ('f configuration \<times> ssh_outcome) option" where
  "ssh_command dbg c args =
     (let sub = (\<lambda>w. take 2 args = [''ssh'', w]); text = map_option (\<lambda>(c', t). (c', SshText t))
      in if sub ''save'' \<and> length args = 4 then text (save_alias dbg c (args ! 2) (args ! 3))
         else if sub ''save'' then
           Some (c, SshText (''Usage: ssh save <alias> <[user@]host[:port]>'' @ crlf))
         else if sub ''forget'' \<and> length args = 3 then text (forget_alias dbg c (args ! 2))
         else if sub ''forget'' then Some (c, SshText (''Usage: ssh forget <alias>'' @ crlf))
         else if args = [''ssh'', ''list''] then text (list_aliases dbg c)
         else if 1 < length args then do {
           (c', r) \<leftarrow> parse_ssh_target c (args ! 1);
           Some (c', case r of
               Inl msg \<Rightarrow> SshText msg
             | Inr target \<Rightarrow>
                 SshStart target (if 2 < length args then Some (str_join '' '' (drop 2 args)) else None))
         }
         else Some (c, SshText ssh_usage))"

section \<open>The prompt\<close>

datatype prompt_kind = PromptText | PromptPassword

record prompt_proc =
  prompt :: rstr
  prompt_input :: line_editor
  prompt_kind :: prompt_kind

definition prompt_render :: "prompt_proc \<Rightarrow> rstr" where
  "prompt_render p =
     (case prompt_kind p of
        PromptText \<Rightarrow> [CHR 0x0d] @ prompt p @ '' '' @ editor_input (prompt_input p) @ erase_to_end
      | PromptPassword \<Rightarrow> [CHR 0x0d] @ prompt p @ erase_to_end)"

text \<open>The answer sent, if the key completes or cancels the prompt.\<close>

definition prompt_on_key_press :: "prompt_proc \<Rightarrow> key_report \<Rightarrow> (prompt_proc \<times> rstr option option) option" where
  "prompt_on_key_press p r =
     (if rep_modifiers r = MOD_CTRL \<and> rep_key r \<in> {KChar 0x63, KChar 0x43, KChar 0x64, KChar 0x44}
         \<or> rep_key r = KEscape then Some (p, Some None)
      else do {
        (ed, out) \<leftarrow> apply_key (prompt_input p) r;
        Some (p\<lparr>prompt_input := ed\<rparr>, map_option Some out)
      })"

section \<open>Keys for the remote terminal\<close>

text \<open>The table of \<open>ctrl_mapping\<close>: the characters that give each control code.\<close>

definition ctrl_mapping :: "rchar \<Rightarrow> rchar option" where
  "ctrl_mapping c =
     (if c \<in> {0x40, 0x60, 0x20, 0x32} then Some 0
      else if 0x41 \<le> c \<and> c \<le> 0x5a then Some (c - 0x40)
      else if 0x61 \<le> c \<and> c \<le> 0x7a then Some (c - 0x60)
      else if c \<in> {0x5b, 0x33, 0x7b} then Some 0x1b
      else if c \<in> {0x5c, 0x34, 0x7c} then Some 0x1c
      else if c \<in> {0x5d, 0x35, 0x7d} then Some 0x1d
      else if c \<in> {0x5e, 0x36, 0x7e} then Some 0x1e
      else if c \<in> {0x5f, 0x37, 0x2f} then Some 0x1f
      else if c \<in> {0x38, 0x3f} then Some 0x7f
      else None)"

definition csi :: "rstr \<Rightarrow> rstr" where
  "csi s = [CHR 0x1b, CHR ''[''] @ s"

definition special_key :: "key \<Rightarrow> rstr option" where
  "special_key k =
     (case k of
        KEnter \<Rightarrow> Some [CHR 0x0d]
      | KBackSpace \<Rightarrow> Some [CHR 0x7f]
      | KTab \<Rightarrow> Some [CHR 0x09]
      | KEscape \<Rightarrow> Some [CHR 0x1b]
      | KUp \<Rightarrow> Some (csi ''A'')
      | KDown \<Rightarrow> Some (csi ''B'')
      | KRight \<Rightarrow> Some (csi ''C'')
      | KLeft \<Rightarrow> Some (csi ''D'')
      | KHome \<Rightarrow> Some (csi ''H'')
      | KEnd \<Rightarrow> Some (csi ''F'')
      | KPageUp \<Rightarrow> Some (csi ''5~'')
      | KPageDown \<Rightarrow> Some (csi ''6~'')
      | _ \<Rightarrow> None)"

text \<open>The writes a key causes, in order.\<close>

definition ssh_key_writes :: "key_report \<Rightarrow> rstr list" where
  "ssh_key_writes r =
     (case (if rep_modifiers r = MOD_CTRL then (case rep_key r of KChar c \<Rightarrow> ctrl_mapping c | _ \<Rightarrow> None) else None) of
        Some mapped \<Rightarrow> [encode_utf8 mapped]
      | None \<Rightarrow>
          (if rep_modifiers r = MOD_ALT then [[CHR 0x1b]] else [])
          @ (case rep_key r of
               KChar c \<Rightarrow> [encode_utf8 c]
             | k \<Rightarrow> (case special_key k of Some text \<Rightarrow> [text] | None \<Rightarrow> [])))"

section \<open>What the client guarantees\<close>

lemma alias_key_eq: "alias_key alias = (if length alias \<le> 27 then Some (''host_'' @ alias) else None)"
  by (simp add: alias_key_def heapless_push_str_def)

text \<open>C24: A target the user can write is understood as written: user, host and port come back exactly,
  with or without each optional part, for any host without a colon, any user without an at
  sign, and every 16-bit port; a port that is not a 16-bit number is refused.\<close>

theorem split_target_round_trip:
  assumes "CHR ''@'' \<notin> set user" and "CHR '':'' \<notin> set host" and "CHR ''@'' \<notin> set host" and "port < 65536"
  shows "split_target (user @ ''@'' @ host @ '':'' @ show_nat port) = Inr (Some user, host, port)
    \<and> split_target (user @ ''@'' @ host) = Inr (Some user, host, 22)
    \<and> split_target (host @ '':'' @ show_nat port) = Inr (None, host, port)
    \<and> split_target host = Inr (None, host, 22)
    \<and> (\<forall>p. parse_uint 65536 p = None \<and> CHR '':'' \<notin> set p \<longrightarrow>
         split_target (user @ ''@'' @ host @ '':'' @ p) = Inl (''invalid port `'' @ p @ ''`'' @ crlf))"
proof -
  have digits: "c \<notin> set (show_nat port)" if "\<not> is_digit c" for c
    using show_nat_all_digits [of port] that by (auto simp: list_all_iff)
  have no: "CHR ''@'' \<notin> set (show_nat port)" "CHR '':'' \<notin> set (show_nat port)"
    by (intro digits; simp add: is_digit_def)+
  have user: "split_once CHR ''@'' (user @ CHR ''@'' # rest) = Some (user, rest)" for rest
    using assms(1) by (rule split_once_append)
  have host: "rsplit_once CHR '':'' (host @ CHR '':'' # p) = Some (host, p)" if "CHR '':'' \<notin> set p" for p
    using that by (rule rsplit_once_append)
  have none: "rsplit_once CHR '':'' host = None" "split_once CHR ''@'' host = None"
    using assms(2,3) by (simp_all add: rsplit_once_None_iff split_once_None_iff)
  have plain: "split_once CHR ''@'' (host @ CHR '':'' # show_nat port) = None"
    using assms(3) no(1) by (simp add: split_once_None_iff)
  show ?thesis
    using user host none plain no assms(4) by (simp add: split_target_def)
qed

theorem split_target_round_trip_witness:
  "split_target ''me@host:2222'' = Inr (Some ''me'', ''host'', 2222)"
proof -
  have "show_nat 2222 = ''2222''"
    by (simp add: show_nat.simps digit_char_def char_of_def bit_0)
  then show ?thesis
    using split_target_round_trip [of "''me''" "''host''" 2222] by simp
qed

lemma resolve_target_eq:
  assumes "config_inv c"
  obtains c' where "config_inv c'" "config_view c' = config_view c"
    "resolve_target c name = Some (c', if length name \<le> 27
       then (case config_view c (''host_'' @ name) of Some v \<Rightarrow> v | None \<Rightarrow> name) else name)"
proof (cases "length name \<le> 27")
  case True
  then have "length (''host_'' @ name) \<le> 32" by simp
  then obtain c' where "config_fetch c (''host_'' @ name) = Some (c', Inr (config_view c (''host_'' @ name)))"
    "config_inv c'" "config_view c' = config_view c"
    using conf.fetch_short [OF assms] by blast
  with True show thesis by (intro that [of c']) (simp_all add: resolve_target_def alias_key_eq split: option.split)
next
  case False
  with assms show thesis by (intro that [of c]) (simp_all add: resolve_target_def alias_key_eq)
qed



end
