(* ===== verification/Utf8.thy ===== *)
theory Utf8
  imports RustStd
begin

text \<open>
  Facts about UTF-8 text: encoding and decoding are inverse, a lossy decoding is well formed,
  and the operations on strings (trimming, cutting at a character) keep text well formed.
\<close>

section \<open>One character\<close>

lemma div_4096: "(c::nat) div 4096 = c div 64 div 64"
  by (simp flip: div_mult2_eq)

lemma div_262144: "(c::nat) div 262144 = c div 64 div 64 div 64"
  by (simp flip: div_mult2_eq)

lemma split_64: "(c::nat) div 64 * 64 + c mod 64 = c"
  by simp

lemma three_parts: "(c::nat) div 4096 * 4096 + c div 64 mod 64 * 64 + c mod 64 = c"
proof -
  have "c div 4096 * 64 + c div 64 mod 64 = c div 64" by (simp add: div_4096)
  then have "(c div 4096 * 64 + c div 64 mod 64) * 64 + c mod 64 = c" by simp
  then show ?thesis by (simp add: algebra_simps)
qed

lemma four_parts: "(c::nat) div 262144 * 262144 + c div 4096 mod 64 * 4096 + c div 64 mod 64 * 64 + c mod 64 = c"
proof -
  have "c div 262144 * 64 + c div 4096 mod 64 = c div 4096" by (simp add: div_4096 div_262144)
  then have "(c div 262144 * 64 + c div 4096 mod 64) * 4096 + c div 64 mod 64 * 64 + c mod 64 = c"
    using three_parts [of c] by simp
  then show ?thesis by (simp add: algebra_simps)
qed

lemma str_chars_seq:
  "a < 32 \<Longrightarrow> b < 64 \<Longrightarrow> str_chars (byte_of (192 + a) # byte_of (128 + b) # s) = (a * 64 + b) # str_chars s"
  "a < 16 \<Longrightarrow> b < 64 \<Longrightarrow> d < 64 \<Longrightarrow>
     str_chars (byte_of (224 + a) # byte_of (128 + b) # byte_of (128 + d) # s) = (a * 4096 + b * 64 + d) # str_chars s"
  "a < 8 \<Longrightarrow> b < 64 \<Longrightarrow> d < 64 \<Longrightarrow> e < 64 \<Longrightarrow>
     str_chars (byte_of (240 + a) # byte_of (128 + b) # byte_of (128 + d) # byte_of (128 + e) # s)
       = (a * 262144 + b * 4096 + d * 64 + e) # str_chars s"
  by (simp_all add: utf8_width_def)

lemma str_chars_encode:
  assumes "c < 0x110000"
  shows "str_chars (encode_utf8 c @ s) = c # str_chars s"
proof -
  consider "c < 128" | "128 \<le> c" "c < 2048" | "2048 \<le> c" "c < 65536" | "65536 \<le> c" by linarith
  then show ?thesis
  proof cases
    case 1
    then show ?thesis by (simp add: utf8_width_def)
  next
    case 2
    then have "c div 64 < 32" by simp
    with 2 show ?thesis
      using str_chars_seq(1) [of "c div 64" "c mod 64" s] by (simp add: encode_utf8_def)
  next
    case 3
    then have "c div 4096 < 16" by simp
    with 3 show ?thesis
      using str_chars_seq(2) [of "c div 4096" "c div 64 mod 64" "c mod 64" s]
      by (simp add: encode_utf8_def three_parts)
  next
    case 4
    with assms have "c div 262144 < 8" by simp
    with 4 show ?thesis
      using str_chars_seq(3) [of "c div 262144" "c div 4096 mod 64" "c div 64 mod 64" "c mod 64" s]
      by (simp add: encode_utf8_def four_parts)
  qed
qed

lemma byte_newline: "byte_of 10 = CHR 0x0a"
  by (simp add: char_of_def bit_0)

lemma encode_utf8_parts:
  assumes "c < 0x110000"
  shows "encode_utf8 c \<noteq> [] \<and> \<not> is_continuation (hd (encode_utf8 c)) \<and> list_all is_continuation (tl (encode_utf8 c))"
proof -
  consider "c < 128" | "128 \<le> c" "c < 2048" | "2048 \<le> c" "c < 65536" | "65536 \<le> c" by linarith
  then show ?thesis
  proof cases
    case 1
    then show ?thesis by (simp add: is_continuation_def)
  next
    case 2
    then have "c div 64 < 32" by simp
    with 2 show ?thesis by (simp add: encode_utf8_def is_continuation_def)
  next
    case 3
    then have "c div 4096 < 16" by simp
    with 3 show ?thesis by (simp add: encode_utf8_def is_continuation_def)
  next
    case 4
    with assms have "c div 262144 < 5" by simp
    with 4 show ?thesis by (simp add: encode_utf8_def is_continuation_def)
  qed
qed

lemma encode_utf8_shape:
  assumes "c < 0x110000"
  obtains b bs where "encode_utf8 c = b # bs" "\<not> is_continuation b" "list_all is_continuation bs"
  using encode_utf8_parts [OF assms] that by (cases "encode_utf8 c") auto

section \<open>Text\<close>

definition is_text :: "rstr \<Rightarrow> bool" where
  "is_text s \<longleftrightarrow> (\<exists>cs. list_all (\<lambda>c. c < 0x110000) cs \<and> s = str_of_chars cs)"

lemma str_of_chars_simps [simp]:
  "str_of_chars [] = []" "str_of_chars (c # cs) = encode_utf8 c @ str_of_chars cs"
  "str_of_chars (cs @ ds) = str_of_chars cs @ str_of_chars ds"
  by (simp_all add: str_of_chars_def)

lemma str_chars_of_chars: "list_all (\<lambda>c. c < 0x110000) cs \<Longrightarrow> str_chars (str_of_chars cs) = cs"
  by (induction cs) (simp_all add: str_chars_encode)

lemma is_text_Nil [simp]: "is_text []"
  by (auto simp: is_text_def intro: exI [of _ "[]"])

lemma is_text_encode: "c < 0x110000 \<Longrightarrow> is_text (encode_utf8 c)"
  by (auto simp: is_text_def intro: exI [of _ "[c]"])

lemma is_text_append: "is_text s \<Longrightarrow> is_text t \<Longrightarrow> is_text (s @ t)"
  unfolding is_text_def by (metis list_all_append str_of_chars_simps(3))

text \<open>Cutting text where a character starts leaves text.\<close>

lemma drop_chars:
  assumes "list_all (\<lambda>c. c < 0x110000) cs" and "i < length (str_of_chars cs)"
    and "\<not> is_continuation (str_of_chars cs ! i)"
  shows "\<exists>k. drop i (str_of_chars cs) = str_of_chars (drop k cs)"
  using assms
proof (induction cs arbitrary: i)
  case (Cons c cs)
  obtain b bs where e: "encode_utf8 c = b # bs" "list_all is_continuation bs"
    using Cons.prems(1) by (auto elim: encode_utf8_shape [of c])
  show ?case
  proof (cases "i < length (encode_utf8 c)")
    case True
    then have "i = 0"
      using Cons.prems(3) e by (cases i) (auto simp: nth_append list_all_length)
    then show ?thesis by (metis drop0)
  next
    case False
    then have "\<exists>k. drop (i - length (encode_utf8 c)) (str_of_chars cs) = str_of_chars (drop k cs)"
      using Cons.prems by (intro Cons.IH) (auto simp: nth_append)
    then obtain k where "drop (i - length (encode_utf8 c)) (str_of_chars cs) = str_of_chars (drop k cs)" ..
    with False show ?thesis by (intro exI [of _ "Suc k"]) simp
  qed
qed simp

lemma is_text_drop:
  assumes "is_text s" and "i < length s" and "\<not> is_continuation (s ! i)"
  shows "is_text (drop i s)"
proof -
  obtain cs where cs: "list_all (\<lambda>c. c < 0x110000) cs" "s = str_of_chars cs"
    using assms(1) by (auto simp: is_text_def)
  then obtain k where "drop i s = str_of_chars (drop k cs)" using drop_chars assms by blast
  with cs(1) show ?thesis by (auto simp: is_text_def)
qed

text \<open>A line of a text, and what follows it, are text.\<close>

lemma encode_newline: "c < 0x110000 \<Longrightarrow> CHR 0x0a \<in> set (encode_utf8 c) \<longleftrightarrow> c = 10"
proof
  assume c: "c < 0x110000" and nl: "CHR 0x0a \<in> set (encode_utf8 c)"
  show "c = 10"
  proof (cases "c < 128")
    case True
    with nl have "of_char (CHR 0x0a) = (of_char (char_of c :: char) :: nat)" by simp
    with True show ?thesis by simp
  next
    case False
    have "\<forall>b \<in> set (encode_utf8 c). 128 \<le> nat_of_byte b"
    proof -
      consider "c < 2048" | "2048 \<le> c" "c < 65536" | "65536 \<le> c" by linarith
      then show ?thesis
      proof cases
        case 1
        then have "c div 64 < 32" by simp
        with 1 False show ?thesis by (simp add: encode_utf8_def)
      next
        case 2
        then have "c div 4096 < 16" by simp
        with 2 show ?thesis by (simp add: encode_utf8_def)
      next
        case 3
        with c have "c div 262144 < 5" by simp
        with 3 show ?thesis by (simp add: encode_utf8_def)
      qed
    qed
    with nl show ?thesis by fastforce
  qed
qed (simp add: byte_newline)

lemma text_newline:
  "list_all (\<lambda>c. c < 0x110000) cs \<Longrightarrow> CHR 0x0a \<in> set (str_of_chars cs) \<longleftrightarrow> 10 \<in> set cs"
  by (induction cs) (auto simp: encode_newline)

lemma is_text_line:
  assumes "is_text s" and "split_once CHR 0x0a s = Some (line, rest)"
  shows "is_text line" and "is_text rest"
proof -
  obtain cs where cs: "list_all (\<lambda>c. c < 0x110000) cs" "s = str_of_chars cs"
    using assms(1) by (auto simp: is_text_def)
  have "10 \<in> set cs"
    using split_once_SomeD [OF assms(2)] text_newline [OF cs(1)] cs(2) by auto
  then obtain as bs where ab: "cs = as @ 10 # bs" "10 \<notin> set as" by (metis split_list_first)
  with cs(1) have "CHR 0x0a \<notin> set (str_of_chars as)" by (simp add: text_newline)
  moreover have "str_of_chars cs = str_of_chars as @ CHR 0x0a # str_of_chars bs"
    using ab(1) by (simp add: byte_newline)
  ultimately have "split_once CHR 0x0a s = Some (str_of_chars as, str_of_chars bs)"
    using cs(2) split_once_append by metis
  with assms(2) ab(1) cs(1) show "is_text line" "is_text rest" by (auto simp: is_text_def)
qed

section \<open>Trimming\<close>

lemma trim_both_infix: "\<exists>as bs. xs = as @ trim_both P xs @ bs"
proof -
  have "xs = takeWhile P xs @ dropWhile P xs" by simp
  moreover have "dropWhile P xs = trim_both P xs @ rev (takeWhile P (rev (dropWhile P xs)))"
    unfolding trim_both_def by (metis rev_append rev_rev_ident takeWhile_dropWhile_id)
  ultimately show ?thesis by metis
qed

lemma is_text_trim:
  assumes "is_text s"
  shows "is_text (str_trim s)" and "length (str_trim s) \<le> length s" and "set (str_trim s) \<subseteq> set s"
proof -
  obtain cs where cs: "list_all (\<lambda>c. c < 0x110000) cs" "s = str_of_chars cs"
    using assms by (auto simp: is_text_def)
  obtain as bs where ab: "cs = as @ trim_both is_whitespace cs @ bs" using trim_both_infix by blast
  have trim: "str_trim s = str_of_chars (trim_both is_whitespace cs)"
    using cs by (simp add: str_trim_def str_chars_of_chars)
  have "s = str_of_chars as @ str_trim s @ str_of_chars bs"
    using cs(2) ab trim by (metis str_of_chars_simps(3))
  then show "length (str_trim s) \<le> length s" "set (str_trim s) \<subseteq> set s"
    by (metis le_add1 le_add2 length_append order_trans, metis Un_upper1 Un_upper2 set_append order_trans)
  have "list_all (\<lambda>c. c < 0x110000) (trim_both is_whitespace cs)"
    using cs(1) ab by (metis list_all_append)
  with trim show "is_text (str_trim s)" by (auto simp: is_text_def)
qed

section \<open>Lossy decoding\<close>

text \<open>A sequence that \<open>utf8_first\<close> accepts is the encoding of one character.\<close>

lemma radix_64:
  "d < 64 \<Longrightarrow> (x * 64 + d) div 64 = (x::nat)" "d < 64 \<Longrightarrow> (x * 64 + d) mod 64 = (d::nat)"
  by simp_all

lemma encode_utf8_bytes2:
  assumes "0xc2 \<le> a" "a < 0xe0" "b < 64"
  shows "encode_utf8 ((a - 192) * 64 + b) = [byte_of a, byte_of (128 + b)]"
proof -
  have "2 * 64 \<le> (a - 192) * 64" "(a - 192) * 64 \<le> 31 * 64" using assms by linarith+
  then have "\<not> (a - 192) * 64 + b < 128" "(a - 192) * 64 + b < 2048" using assms(3) by linarith+
  with assms show ?thesis by (simp only: encode_utf8_def radix_64 if_False if_True) simp
qed

lemma encode_utf8_bytes3:
  assumes "0xe0 \<le> a" "a < 0xf0" "b < 64" "d < 64" "0xe0 < a \<or> 0x20 \<le> b"
  shows "encode_utf8 ((a - 224) * 4096 + b * 64 + d) = [byte_of a, byte_of (128 + b), byte_of (128 + d)]"
proof -
  have c: "(a - 224) * 4096 + b * 64 + d = ((a - 224) * 64 + b) * 64 + d" by (simp add: algebra_simps)
  have "2048 \<le> (a - 224) * 4096 + b * 64" "(a - 224) * 4096 \<le> 15 * 4096" using assms by linarith+
  then have r: "\<not> ((a - 224) * 64 + b) * 64 + d < 128" "\<not> ((a - 224) * 64 + b) * 64 + d < 2048"
    "((a - 224) * 64 + b) * 64 + d < 65536" using assms(3,4) c by linarith+
  from assms show ?thesis
    by (simp only: c encode_utf8_def div_4096 radix_64 r if_False if_True) simp
qed

lemma encode_utf8_bytes4:
  assumes "0xf0 \<le> a" "a < 0xf5" "b < 64" "d < 64" "e < 64" "0xf0 < a \<or> 0x10 \<le> b"
  shows "encode_utf8 ((a - 240) * 262144 + b * 4096 + d * 64 + e)
    = [byte_of a, byte_of (128 + b), byte_of (128 + d), byte_of (128 + e)]"
proof -
  have c: "(a - 240) * 262144 + b * 4096 + d * 64 + e = (((a - 240) * 64 + b) * 64 + d) * 64 + e"
    by (simp add: algebra_simps)
  have "65536 \<le> (a - 240) * 262144 + b * 4096" using assms by linarith
  then have r: "\<not> (((a - 240) * 64 + b) * 64 + d) * 64 + e < 128" "\<not> (((a - 240) * 64 + b) * 64 + d) * 64 + e < 2048"
    "\<not> (((a - 240) * 64 + b) * 64 + d) * 64 + e < 65536" using c by linarith+
  from assms show ?thesis
    by (simp only: c encode_utf8_def div_4096 div_262144 radix_64 r if_False) simp
qed

lemma continuation_byte:
  assumes "is_continuation b"
  shows "b = byte_of (128 + (nat_of_byte b - 128))" and "nat_of_byte b - 128 < 64"
  using assms by (auto simp: is_continuation_def)

lemma take_nth:
  "1 < length s \<Longrightarrow> take 2 s = [s ! 0, s ! 1]" "2 < length s \<Longrightarrow> take 3 s = [s ! 0, s ! 1, s ! 2]"
  "3 < length s \<Longrightarrow> take 4 s = [s ! 0, s ! 1, s ! 2, s ! 3]"
  by (cases s; cases "tl s"; cases "tl (tl s)"; cases "tl (tl (tl s))"; auto)+

lemma second_continuation: "utf8_second_ok a (nat_of_byte b) \<Longrightarrow> is_continuation b"
  by (auto simp: utf8_second_ok_def is_continuation_def split: if_splits)

lemma utf8_first_sound:
  assumes "s \<noteq> []" and "utf8_first s = (n, True)"
  shows "\<exists>c < 0x110000. take n s = encode_utf8 c"
proof -
  let ?a = "nat_of_byte (s ! 0)" and ?v = "\<lambda>i. nat_of_byte (s ! i) - 128"
  consider "n = 1" "?a < 128"
    | "n = 2" "0xc2 \<le> ?a" "?a < 0xe0" "1 < length s" "utf8_second_ok ?a (nat_of_byte (s ! 1))"
    | "n = 3" "0xe0 \<le> ?a" "?a < 0xf0" "2 < length s" "utf8_second_ok ?a (nat_of_byte (s ! 1))" "is_continuation (s ! 2)"
    | "n = 4" "0xf0 \<le> ?a" "?a < 0xf5" "3 < length s" "utf8_second_ok ?a (nat_of_byte (s ! 1))" "is_continuation (s ! 2)"
      "is_continuation (s ! 3)"
    using assms(2) by (auto simp: utf8_first_def Let_def split: if_splits)
  then show ?thesis
  proof cases
    case 1
    with assms(1) show ?thesis by (intro exI [of _ ?a]) (simp add: take_Suc_conv_app_nth)
  next
    case 2
    note b = continuation_byte [OF second_continuation [OF 2(5)]]
    have "encode_utf8 ((?a - 192) * 64 + ?v 1) = take 2 s"
      using encode_utf8_bytes2 [OF 2(2,3) b(2)] b(1) by (simp add: take_nth(1) [OF 2(4)])
    moreover have "(?a - 192) * 64 + ?v 1 < 0x110000" using 2(3) b(2) by linarith
    ultimately show ?thesis using 2(1) by metis
  next
    case 3
    note b = continuation_byte [OF second_continuation [OF 3(5)]] and d = continuation_byte [OF 3(6)]
    have "0xe0 < ?a \<or> 0x20 \<le> ?v 1" using 3(2,5) by (auto simp: utf8_second_ok_def split: if_splits)
    then have "encode_utf8 ((?a - 224) * 4096 + ?v 1 * 64 + ?v 2) = take 3 s"
      using encode_utf8_bytes3 [OF 3(2,3) b(2) d(2)] b(1) d(1) by (simp add: take_nth(2) [OF 3(4)])
    moreover have "(?a - 224) * 4096 + ?v 1 * 64 + ?v 2 < 0x110000" using 3(3) b(2) d(2) by linarith
    ultimately show ?thesis using 3(1) by metis
  next
    case 4
    note b = continuation_byte [OF second_continuation [OF 4(5)]] and d = continuation_byte [OF 4(6)]
      and e = continuation_byte [OF 4(7)]
    have bound: "0xf0 < ?a \<or> 0x10 \<le> ?v 1" "?a < 0xf4 \<or> ?v 1 < 16"
      using 4(2,3,5) by (auto simp: utf8_second_ok_def split: if_splits)
    then have "encode_utf8 ((?a - 240) * 262144 + ?v 1 * 4096 + ?v 2 * 64 + ?v 3) = take 4 s"
      using encode_utf8_bytes4 [OF 4(2,3) b(2) d(2) e(2)] b(1) d(1) e(1) by (simp add: take_nth(3) [OF 4(4)])
    moreover have "(?a - 240) * 262144 + ?v 1 * 4096 + ?v 2 * 64 + ?v 3 < 0x110000"
      using bound(2) 4(3) b(2) d(2) e(2) by linarith
    ultimately show ?thesis using 4(1) by metis
  qed
qed

lemma is_text_from_utf8_lossy [simp]: "is_text (from_utf8_lossy s)"
proof (induction s rule: from_utf8_lossy.induct)
  case (1 s)
  show ?case
  proof (cases "s = []")
    case False
    have "is_text (if snd (utf8_first s) then take (fst (utf8_first s)) s else encode_utf8 0xfffd)"
      using utf8_first_sound [OF False, of "fst (utf8_first s)"]
      by (cases "utf8_first s") (auto simp: is_text_encode)
    with 1 False show ?thesis
      by (subst from_utf8_lossy.simps) (simp add: is_text_append)
  qed (simp add: from_utf8_lossy.simps)
qed

end
