(* ===== verification/SshSession.thy ===== *)
theory SshSession
  imports ScreenModel PttFrame Capture SshTarget Utf8 "HOL-Library.Sublist"
begin

text \<open>
  One SSH session (\<open>ssh_session_task\<close> of \<open>src/net.rs\<close>) and its push-to-talk audio channel. The
  arms of the session's \<open>select\<close> - the event ticker, the terminal, the audio branch - run
  cooperatively, so the code between two awaits is one step and the program counters
  \<open>term_pc\<close> and \<open>branch_pc\<close> name the awaits. The signals and flags are module statics: they
  outlive a session, and a send that waits for room in the queue may too. sunset and the
  server are the environment: which event comes next, and whether a request, an open or a
  write succeeds. \<open>asked\<close>, \<open>requests\<close>, \<open>audio_wire\<close>, \<open>accepted\<close> and \<open>written\<close> are ghost fields:
  the channels asked for and not yet confirmed, the channel requests made, the bytes written
  to the audio channel, and the frames queued and written whole.
\<close>

section \<open>The audio command\<close>

datatype audio_command = Embedded | Configured rstr

definition PTT_SSH_CMD_KEY :: rstr where "PTT_SSH_CMD_KEY = ''ptt_ssh_cmd''"
definition PTT_SCRIPT_CHUNK_BYTES :: nat where "PTT_SCRIPT_CHUNK_BYTES = 1024"
definition AUDIO_QUEUE_DEPTH :: nat where "AUDIO_QUEUE_DEPTH = 3"
definition WIRE_FRAME_BYTES :: nat where "WIRE_FRAME_BYTES = frame_bytes SAMPLES_PER_CHUNK"

definition effective_ssh_audio_command ::
    "'f configuration \<Rightarrow> ('f configuration \<times> audio_command option) option" where
  "effective_ssh_audio_command c = do {
     (c', r) \<leftarrow> config_fetch c PTT_SSH_CMD_KEY;
     Some (c', case r of
         Inr (Some v) \<Rightarrow> (if str_trim v = [] then None else Some (Configured (str_trim v)))
       | _ \<Rightarrow> Some Embedded)
   }"

definition sends_script :: "audio_command \<Rightarrow> bool" where
  "sends_script cmd \<longleftrightarrow> cmd = Embedded"

definition exec_string :: "u8 list \<Rightarrow> audio_command \<Rightarrow> rstr" where
  "exec_string script cmd =
     (case cmd of Configured line \<Rightarrow> line | Embedded \<Rightarrow> helper_exec_command (length script))"

definition describe :: "audio_command \<Rightarrow> rstr" where
  "describe cmd = (case cmd of Configured line \<Rightarrow> line | Embedded \<Rightarrow> ''(built-in helper)'')"

section \<open>State\<close>

record audio_frame =
  frame_len :: u16
  frame_buf :: "u8 list"

definition payload :: "audio_frame \<Rightarrow> u8 list" where
  "payload f = take (unat (frame_len f)) (frame_buf f)"

record pump =
  stderr_done :: bool
  last_stderr_line :: rstr
  stderr_fragment :: rstr

datatype chan = TermChan | AudioChan

datatype request = ReqPty | ReqExec rstr | ReqShell

datatype report = Logged rstr | Printed rstr | Shown rstr

datatype reply = AcceptHostkey | GiveUser rstr | GivePassword rstr | SkipPassword | GiveKey | SkipKey | SkipAgent

datatype term_pc = TermWaitAuth | TermOpening | TermRunning

datatype branch_pc =
    BrWaitPty | BrOpening | BrWaitExec | BrScript nat "u8 list" | BrPump pump
  | BrWriting audio_frame "u8 list" pump | BrDrain

record pty_request =
  pty_term :: rstr
  pty_rows :: nat
  pty_cols :: nat
  pty_width :: nat
  pty_height :: nat

record session =
  helper_script :: "u8 list"
  pty_ready :: bool
  exec_sent :: "bool option"
  terminal_open :: bool
  audio_ready :: bool
  audio_queue :: "audio_frame list"
  sending :: "audio_frame option"
  running :: bool
  current_proc :: nat
  prior_proc :: nat
  proc_count :: nat
  login_name :: "rstr option"
  login_command :: "rstr option"
  audio_command :: "audio_command option"
  authd :: bool
  pty_opened :: bool
  pty_asked :: "pty_request option"
  pubkey_tried :: bool
  term_at :: term_pc
  branch_at :: branch_pc
  key_queue :: "key_report list"
  key_writes :: "rstr list"
  term_output :: "u8 list"
  replies :: "reply list"
  reports :: "report list"
  asked :: "chan list"
  requests :: "(chan \<times> request) list"
  audio_wire :: "u8 list"
  accepted :: "audio_frame list"
  written :: "audio_frame list"

definition add_reports :: "report list \<Rightarrow> session \<Rightarrow> session" where
  "add_reports rs s = s\<lparr>reports := reports s @ rs\<rparr>"

definition ssh_session_active :: "session \<Rightarrow> bool" where
  "ssh_session_active s \<longleftrightarrow> terminal_open s"

definition ssh_audio_available :: "session \<Rightarrow> bool" where
  "ssh_audio_available s \<longleftrightarrow> audio_ready s"

definition ptt_note :: "rstr \<Rightarrow> session \<Rightarrow> session" where
  "ptt_note m s =
     add_reports [if ssh_session_active s then Logged (''ptt: '' @ m) else Printed (''ptt: '' @ m @ crlf)] s"

text \<open>\<open>ptt_fail\<close>: the message for the log, the notice for the screen.\<close>

definition session_fail :: "rstr \<Rightarrow> rstr \<Rightarrow> session \<Rightarrow> session" where
  "session_fail m notice s = add_reports [Shown notice] (ptt_note m s)"

section \<open>Queueing audio\<close>

definition make_frame :: "i16 list \<Rightarrow> audio_frame option" where
  "make_frame xs =
     (case encode_frame (replicate WIRE_FRAME_BYTES 0) xs of
        None \<Rightarrow> None
      | Some (buf, n) \<Rightarrow> Some \<lparr>frame_len = of_nat n, frame_buf = buf\<rparr>)"

text \<open>\<open>queue_audio_frame\<close> up to its wait; \<^term>\<open>True\<close> when it waits for room, else it has failed.\<close>

definition queue_audio_frame :: "i16 list \<Rightarrow> session \<Rightarrow> session \<times> bool" where
  "queue_audio_frame xs s =
     (if \<not> ssh_audio_available s then (s, False)
      else case make_frame xs of
          None \<Rightarrow> (add_reports [Logged ''ptt: a capture chunk does not fit one push-to-talk wire frame''] s, False)
        | Some f \<Rightarrow> (s\<lparr>sending := Some f\<rparr>, True))"

definition ssh_audio_send :: "i16 list \<Rightarrow> session \<Rightarrow> session \<times> bool" where
  "ssh_audio_send xs s = queue_audio_frame xs s"

definition ssh_audio_end_of_utterance :: "session \<Rightarrow> session \<times> bool" where
  "ssh_audio_end_of_utterance s = queue_audio_frame [] s"

definition frame_queued :: "audio_frame \<Rightarrow> session \<Rightarrow> session" where
  "frame_queued f s = s\<lparr>sending := None, audio_queue := audio_queue s @ [f], accepted := accepted s @ [f]\<rparr>"

definition frame_timed_out :: "session \<Rightarrow> session" where
  "frame_timed_out s = add_reports [Logged ''ptt: ssh audio channel is not draining''] (s\<lparr>sending := None\<rparr>)"

section \<open>Session start and end\<close>

definition reset_audio_session_state :: "session \<Rightarrow> session" where
  "reset_audio_session_state s =
     s\<lparr>pty_ready := False, exec_sent := None, terminal_open := False, audio_queue := []\<rparr>"

datatype connect_result =
    NoStack | NoAddress rstr | NoConnect rstr | NoClient rstr rstr | Connected rstr

text \<open>Processes are numbered: 0 is the local shell, each session's process is a new one.\<close>

definition assign_ssh_proc :: "session \<Rightarrow> session" where
  "assign_ssh_proc s =
     s\<lparr>proc_count := proc_count s + 1, prior_proc := current_proc s, current_proc := proc_count s + 1\<rparr>"

definition connected_text :: "rstr \<Rightarrow> rstr \<Rightarrow> nat \<Rightarrow> rstr" where
  "connected_text host addr port = ''Connected to '' @ host @ '' '' @ addr @ '':'' @ show_nat port @ crlf"

text \<open>The part of \<open>ssh_session_task\<close> before the arms run; the results carry the \<open>Debug\<close> texts of
  errors and addresses.\<close>

definition session_start ::
    "rstr \<Rightarrow> nat \<Rightarrow> rstr option \<Rightarrow> rstr option \<Rightarrow> connect_result \<Rightarrow> audio_command option \<Rightarrow> session \<Rightarrow> session" where
  "session_start host port user line res cmd s =
     (case res of
        NoStack \<Rightarrow> add_reports [Printed (''network is offline'' @ crlf)] s
      | NoAddress e \<Rightarrow> add_reports [Printed (''failed to resolve '' @ host @ '': '' @ e @ crlf)] s
      | NoConnect e \<Rightarrow>
          add_reports [Printed (''failed to connect to port '' @ show_nat port @ '': '' @ e @ crlf)] s
      | NoClient addr e \<Rightarrow>
          add_reports [Printed (connected_text host addr port), Printed (''SSHClient::new: '' @ e @ crlf)]
            (assign_ssh_proc s)
      | Connected addr \<Rightarrow>
          (let s1 = add_reports [Printed (connected_text host addr port)] (assign_ssh_proc s);
               s2 = add_reports [Logged (case cmd of
                        Some c \<Rightarrow> ''ptt: ssh audio helper is `'' @ describe c @ ''`''
                      | None \<Rightarrow> ''ptt: ssh audio disabled (ptt_ssh_cmd is empty)'')] s1
           in (reset_audio_session_state s2)
                \<lparr>running := True, login_name := user, login_command := line, audio_command := cmd,
                 authd := False, pty_opened := False, pty_asked := None, pubkey_tried := False, term_at := TermWaitAuth,
                 branch_at := (if cmd = None then BrDrain else BrWaitPty), key_queue := [], key_writes := [],
                 term_output := [], replies := [], asked := [], requests := [], audio_wire := [],
                 accepted := [], written := []\<rparr>))"

text \<open>
  Any arm that completes ends the session: the other arms are dropped - the audio branch's
  guard clears \<open>AUDIO_READY\<close> if it is pumping - and the previous process gets the keys back.
\<close>

definition is_pumping :: "branch_pc \<Rightarrow> bool" where
  "is_pumping b = (case b of BrPump _ \<Rightarrow> True | BrWriting _ _ _ \<Rightarrow> True | _ \<Rightarrow> False)"

definition session_end :: "session \<Rightarrow> session" where
  "session_end s =
     s\<lparr>audio_ready := (if is_pumping (branch_at s) then False else audio_ready s),
       terminal_open := False, running := False, current_proc := prior_proc s\<rparr>"

section \<open>The ticker\<close>

text \<open>Events with what the environment answers: the stored credential, what the user types at
  the prompt, whether a key could be loaded, whether the requests are taken.\<close>

datatype cli_event =
    EvHostkey | EvBanner "rstr option"
  | EvUsername "storage_error + rstr option" "rstr option"
  | EvPassword "storage_error + rstr option" "rstr option"
  | EvPubkey bool | EvAgentSign | EvAuthenticated
  | EvSessionOpened chan nat nat bool bool
  | EvSessionExit | EvDefunct | EvError rstr

definition add_reply :: "reply \<Rightarrow> session \<Rightarrow> session" where
  "add_reply r s = s\<lparr>replies := replies s @ [r]\<rparr>"

definition on_username :: "storage_error + rstr option \<Rightarrow> rstr option \<Rightarrow> session \<Rightarrow> session" where
  "on_username stored typed s =
     (case login_name s of
        Some user \<Rightarrow> add_reply (GiveUser user) s
      | None \<Rightarrow>
          (case stored of
             Inr (Some user) \<Rightarrow> add_reply (GiveUser user) s
           | _ \<Rightarrow> (case typed of
                     Some user \<Rightarrow> add_reply (GiveUser user) s
                   | None \<Rightarrow> session_end (add_reports [Printed (''Cancelled'' @ crlf)] s))))"

definition on_password :: "storage_error + rstr option \<Rightarrow> rstr option \<Rightarrow> session \<Rightarrow> session" where
  "on_password stored typed s =
     (case stored of
        Inr (Some pw) \<Rightarrow> add_reply (GivePassword pw) s
      | _ \<Rightarrow> (case typed of Some pw \<Rightarrow> add_reply (GivePassword pw) s | None \<Rightarrow> add_reply SkipPassword s))"

definition on_pubkey :: "bool \<Rightarrow> session \<Rightarrow> session" where
  "on_pubkey loaded s =
     (let key = (if pubkey_tried s then False else loaded)
      in add_reply (if key then GiveKey else SkipKey) (s\<lparr>pubkey_tried := True\<rparr>))"

definition add_request :: "chan \<Rightarrow> request \<Rightarrow> session \<Rightarrow> session" where
  "add_request ch r s = s\<lparr>requests := requests s @ [(ch, r)]\<rparr>"

definition user_request :: "session \<Rightarrow> request" where
  "user_request s = (case login_command s of Some cmd \<Rightarrow> ReqExec cmd | None \<Rightarrow> ReqShell)"

text \<open>\<open>CliEvent::SessionOpened\<close> on channel \<open>ch\<close>: \<open>nr\<close> rows and \<open>nc\<close> columns are the screen's, \<open>ok1\<close> and
  \<open>ok2\<close> answer the requests it makes.\<close>

definition terminal_pty :: "nat \<Rightarrow> nat \<Rightarrow> pty_request" where
  "terminal_pty nr nc =
     \<lparr>pty_term = ''xterm'', pty_rows = nr, pty_cols = nc, pty_width = SCREEN_WIDTH, pty_height = SCREEN_HEIGHT\<rparr>"

definition on_session_opened :: "chan \<Rightarrow> nat \<Rightarrow> nat \<Rightarrow> bool \<Rightarrow> bool \<Rightarrow> session \<Rightarrow> session" where
  "on_session_opened ch nr nc ok1 ok2 s0 =
     (let s = s0\<lparr>asked := remove1 ch (asked s0)\<rparr>
      in if pty_opened s then
           (let (s1, sent) = (case audio_command s of
                  Some cmd \<Rightarrow> (add_request ch (ReqExec (exec_string (helper_script s) cmd)) s, ok1)
                | None \<Rightarrow> (s, False));
                s2 = (if \<not> sent then session_fail ''could not start the ssh audio helper''
                        ''ptt: helper failed to start (see device log)'' s1 else s1)
            in s2\<lparr>exec_sent := Some sent\<rparr>)
         else
           (let s1 = add_request ch ReqPty (s\<lparr>pty_opened := True, pty_asked := Some (terminal_pty nr nc)\<rparr>)
            in if \<not> ok1 then session_end (add_reports [Logged ''requesting pty failed''] s1)
               else
                 (let s2 = add_request ch (user_request s1) s1
                  in if \<not> ok2 then
                       session_end (add_reports [case login_command s of
                           Some _ \<Rightarrow> Logged ''command failed'' | None \<Rightarrow> Printed (''shell failed'' @ crlf)] s2)
                     else s2\<lparr>terminal_open := True, pty_ready := True\<rparr>)))"

definition on_session_exit :: "session \<Rightarrow> session" where
  "on_session_exit s = (if \<not> terminal_open s then session_end s else s)"

fun ticker_event :: "cli_event \<Rightarrow> session \<Rightarrow> session" where
  "ticker_event EvHostkey s = add_reply AcceptHostkey s"
| "ticker_event (EvBanner b) s = (case b of Some t \<Rightarrow> add_reports [Logged (''banner: '' @ t)] s | None \<Rightarrow> s)"
| "ticker_event (EvUsername stored typed) s = on_username stored typed s"
| "ticker_event (EvPassword stored typed) s = on_password stored typed s"
| "ticker_event (EvPubkey loaded) s = on_pubkey loaded s"
| "ticker_event EvAgentSign s = add_reply SkipAgent s"
| "ticker_event EvAuthenticated s = s\<lparr>authd := True\<rparr>"
| "ticker_event (EvSessionOpened ch nr nc ok1 ok2) s = on_session_opened ch nr nc ok1 ok2 s"
| "ticker_event EvSessionExit s = on_session_exit s"
| "ticker_event EvDefunct s = session_end s"
| "ticker_event (EvError e) s = session_end (add_reports [Logged (''ssh progress error: '' @ e)] s)"

section \<open>The terminal\<close>

definition term_auth :: "session \<Rightarrow> session" where
  "term_auth s = s\<lparr>authd := False, term_at := TermOpening, asked := asked s @ [TermChan]\<rparr>"

definition term_opened :: "bool \<Rightarrow> session \<Rightarrow> session" where
  "term_opened ok s = (if ok then s\<lparr>term_at := TermRunning\<rparr> else session_end s)"

text \<open>One read of \<open>ssh_channel_task\<close>: bytes, the end of the channel, or an error.\<close>

definition term_read :: "rstr + u8 list \<Rightarrow> session \<Rightarrow> session" where
  "term_read r s =
     (case r of
        Inr bytes \<Rightarrow>
          (if bytes = [] then session_end (s\<lparr>terminal_open := False\<rparr>)
           else s\<lparr>term_output := term_output s @ bytes\<rparr>)
      | Inl e \<Rightarrow> session_end (add_reports [Printed (csi ''1m'' @ ''ssh_channel_task: '' @ e @ crlf)]
                   (s\<lparr>terminal_open := False\<rparr>)))"

definition term_key :: "session \<Rightarrow> session" where
  "term_key s =
     (case key_queue s of
        [] \<Rightarrow> s
      | k # ks \<Rightarrow> s\<lparr>key_queue := ks, key_writes := key_writes s @ ssh_key_writes k\<rparr>)"

definition KEY_CHANNEL_DEPTH :: nat where "KEY_CHANNEL_DEPTH = 4"

definition ssh_on_key_press :: "key_report \<Rightarrow> session \<Rightarrow> session" where
  "ssh_on_key_press k s = s\<lparr>key_queue := key_queue s @ [k]\<rparr>"

section \<open>The audio branch\<close>

text \<open>The helper's standard error: the text carried over to the next read is capped to its tail,
  then cut into lines, of which the last that is not blank is kept.\<close>

definition MAX_STDERR_FRAGMENT :: nat where "MAX_STDERR_FRAGMENT = 200"

definition cap_fragment :: "rstr \<Rightarrow> rstr" where
  "cap_fragment frag =
     (if MAX_STDERR_FRAGMENT < length frag then
        (let excess = length frag - MAX_STDERR_FRAGMENT;
             cut = (case find (\<lambda>i. excess \<le> i) (char_indices frag) of Some i \<Rightarrow> i | None \<Rightarrow> length frag)
         in drop cut frag)
      else frag)"

definition keep_line :: "rstr \<Rightarrow> rstr \<Rightarrow> rstr" where
  "keep_line last_line text = (let line = str_trim text in if line \<noteq> [] then line else last_line)"

function stderr_lines :: "rstr \<Rightarrow> rstr \<Rightarrow> rstr \<times> rstr" where
  "stderr_lines last_line frag =
     (case split_once CHR 0x0a frag of
        Some (line, rest) \<Rightarrow> stderr_lines (keep_line last_line line) rest
      | None \<Rightarrow> (last_line, frag))"
  by pat_completeness auto
termination
  by (relation "measure (\<lambda>(_, f). length f)") (auto dest!: split_once_SomeD)

declare stderr_lines.simps [simp del]

definition stderr_text :: "rstr \<Rightarrow> pump \<Rightarrow> pump" where
  "stderr_text text p =
     (let (line, frag) = stderr_lines (last_stderr_line p) (cap_fragment (stderr_fragment p @ text))
      in p\<lparr>last_stderr_line := line, stderr_fragment := frag\<rparr>)"

definition helper_crash_notice :: "rstr \<Rightarrow> rstr" where
  "helper_crash_notice line =
     (if line = [] then ''ptt: helper exited unexpectedly (see device log)''
      else ''ptt: helper crashed: '' @ line @ '' (see device log)'')"

definition pump_begin :: "session \<Rightarrow> session" where
  "pump_begin s =
     s\<lparr>audio_ready := True,
       branch_at := BrPump \<lparr>stderr_done = False, last_stderr_line = [], stderr_fragment = []\<rparr>\<rparr>"

text \<open>\<open>PTY_READY.wait\<close>, then the channel is asked for.\<close>

definition branch_pty :: "session \<Rightarrow> session" where
  "branch_pty s = s\<lparr>pty_ready := False, branch_at := BrOpening, asked := asked s @ [AudioChan]\<rparr>"

definition branch_opened :: "rstr option \<Rightarrow> audio_command \<Rightarrow> session \<Rightarrow> session" where
  "branch_opened err cmd s =
     (case err of
        Some e \<Rightarrow> (session_fail (''could not open the ssh audio channel: '' @ e)
                    ''ptt: audio channel failed to open (see device log)'' s)\<lparr>branch_at := BrDrain\<rparr>
      | None \<Rightarrow> add_reports [Logged (''ptt: ssh audio channel opened for `'' @ describe cmd @ ''`'')]
                  (s\<lparr>branch_at := BrWaitExec\<rparr>))"

text \<open>The head of the loop that delivers the script, \<open>n\<close> bytes sent.\<close>

definition script_loop :: "nat \<Rightarrow> session \<Rightarrow> session" where
  "script_loop n s =
     (let len = length (helper_script s)
      in if n < len then
           (let e = min (n + PTT_SCRIPT_CHUNK_BYTES) len
            in s\<lparr>branch_at := BrScript e (drop n (take e (helper_script s)))\<rparr>)
         else pump_begin (add_reports [Logged (''ptt: sent the embedded helper ('' @ show_nat n @ '' bytes)'')] s))"

definition branch_exec :: "bool \<Rightarrow> audio_command \<Rightarrow> session \<Rightarrow> session" where
  "branch_exec sent cmd s0 =
     (let s = s0\<lparr>exec_sent := None\<rparr>
      in if \<not> sent then
           (session_fail (''could not start the ssh audio helper `'' @ describe cmd @ ''`'')
              ''ptt: helper failed to start (see device log)'' s)\<lparr>branch_at := BrDrain\<rparr>
         else if sends_script cmd then script_loop 0 s
         else pump_begin s)"

text \<open>\<open>write_all\<close> writes what the channel takes, \<open>k\<close> bytes at a time.\<close>

definition script_write :: "nat \<Rightarrow> nat \<Rightarrow> u8 list \<Rightarrow> session \<Rightarrow> session" where
  "script_write k e rest s =
     (let s1 = s\<lparr>audio_wire := audio_wire s @ take k rest\<rparr>
      in if drop k rest = [] then script_loop e s1 else s1\<lparr>branch_at := BrScript e (drop k rest)\<rparr>)"

definition script_error :: "rstr \<Rightarrow> session \<Rightarrow> session" where
  "script_error e s =
     (session_fail (''could not send the ssh audio helper ('' @ e @ '')'')
        ''ptt: failed to send the helper script (see device log)'' s)\<lparr>branch_at := BrDrain\<rparr>"

text \<open>The end of the pump; its guard clears \<open>AUDIO_READY\<close>.\<close>

definition pump_end :: "rstr \<Rightarrow> pump \<Rightarrow> session \<Rightarrow> session" where
  "pump_end m p s =
     (session_fail m (helper_crash_notice (last_stderr_line p)) s)\<lparr>audio_ready := False, branch_at := BrDrain\<rparr>"

definition pump_take :: "audio_frame \<Rightarrow> audio_frame list \<Rightarrow> pump \<Rightarrow> session \<Rightarrow> session" where
  "pump_take f fs p s = s\<lparr>audio_queue := fs, branch_at := BrWriting f (payload f) p\<rparr>"

definition pump_write :: "nat \<Rightarrow> audio_frame \<Rightarrow> u8 list \<Rightarrow> pump \<Rightarrow> session \<Rightarrow> session" where
  "pump_write k f rest p s =
     (let s1 = s\<lparr>audio_wire := audio_wire s @ take k rest\<rparr>
      in if drop k rest = [] then s1\<lparr>written := written s @ [f], branch_at := BrPump p\<rparr>
         else s1\<lparr>branch_at := BrWriting f (drop k rest) p\<rparr>)"

definition pump_write_error :: "rstr \<Rightarrow> pump \<Rightarrow> session \<Rightarrow> session" where
  "pump_write_error e p s = pump_end (''ssh audio helper stopped reading ('' @ e @ '')'') p s"

definition pump_stdout :: "u8 list option \<Rightarrow> pump \<Rightarrow> session \<Rightarrow> session" where
  "pump_stdout r p s =
     (case r of Some (_ # _) \<Rightarrow> s | _ \<Rightarrow> pump_end ''ssh audio helper exited'' p s)"

definition pump_stderr :: "rstr option \<Rightarrow> pump \<Rightarrow> session \<Rightarrow> session" where
  "pump_stderr r p s =
     (case r of
        Some (b # bytes) \<Rightarrow>
          (let text = from_utf8_lossy (b # bytes)
           in (ptt_note (str_trim_end text) s)\<lparr>branch_at := BrPump (stderr_text text p)\<rparr>)
      | _ \<Rightarrow> s\<lparr>branch_at := BrPump (p\<lparr>stderr_done := True,
               last_stderr_line := keep_line (last_stderr_line p) (stderr_fragment p)\<rparr>)\<rparr>)"

definition branch_drain :: "audio_frame list \<Rightarrow> session \<Rightarrow> session" where
  "branch_drain fs s = s\<lparr>audio_queue := fs\<rparr>"

section \<open>The session as a whole\<close>

inductive branch_step :: "session \<Rightarrow> session \<Rightarrow> bool" where
  br_pty: "branch_at s = BrWaitPty \<Longrightarrow> pty_ready s \<Longrightarrow> branch_step s (branch_pty s)"
| br_opened: "branch_at s = BrOpening \<Longrightarrow> audio_command s = Some cmd \<Longrightarrow> branch_step s (branch_opened err cmd s)"
| br_exec: "branch_at s = BrWaitExec \<Longrightarrow> audio_command s = Some cmd \<Longrightarrow> exec_sent s = Some ok \<Longrightarrow>
    branch_step s (branch_exec ok cmd s)"
| br_script: "branch_at s = BrScript e rest \<Longrightarrow> 0 < k \<Longrightarrow> branch_step s (script_write k e rest s)"
| br_script_error: "branch_at s = BrScript e rest \<Longrightarrow> branch_step s (script_error err s)"
| br_take: "branch_at s = BrPump p \<Longrightarrow> audio_queue s = f # fs \<Longrightarrow> branch_step s (pump_take f fs p s)"
| br_write: "branch_at s = BrWriting f rest p \<Longrightarrow> 0 < k \<Longrightarrow> branch_step s (pump_write k f rest p s)"
| br_write_error: "branch_at s = BrWriting f rest p \<Longrightarrow> branch_step s (pump_write_error err p s)"
| br_stdout: "branch_at s = BrPump p \<Longrightarrow> branch_step s (pump_stdout r p s)"
| br_stderr: "branch_at s = BrPump p \<Longrightarrow> \<not> stderr_done p \<Longrightarrow> branch_step s (pump_stderr r p s)"
| br_drain: "branch_at s = BrDrain \<Longrightarrow> audio_queue s = f # fs \<Longrightarrow> branch_step s (branch_drain fs s)"

text \<open>sunset confirms a channel that was asked for; \<open>EvAuthenticated\<close> waits for room in its
  one-place channel.\<close>

definition event_possible :: "cli_event \<Rightarrow> session \<Rightarrow> bool" where
  "event_possible e s =
     (case e of EvSessionOpened ch _ _ _ _ \<Rightarrow> ch \<in> set (asked s) | EvAuthenticated \<Rightarrow> \<not> authd s | _ \<Rightarrow> True)"

inductive term_step :: "session \<Rightarrow> session \<Rightarrow> bool" where
  tm_auth: "term_at s = TermWaitAuth \<Longrightarrow> authd s \<Longrightarrow> term_step s (term_auth s)"
| tm_opened: "term_at s = TermOpening \<Longrightarrow> term_step s (term_opened ok s)"
| tm_read: "term_at s = TermRunning \<Longrightarrow> term_step s (term_read r s)"
| tm_key: "term_at s = TermRunning \<Longrightarrow> term_step s (term_key s)"

inductive sender_step :: "session \<Rightarrow> session \<Rightarrow> bool" where
  sn_send: "sending s = None \<Longrightarrow> sender_step s (fst (ssh_audio_send xs s))"
| sn_end: "sending s = None \<Longrightarrow> sender_step s (fst (ssh_audio_end_of_utterance s))"
| sn_queued: "sending s = Some f \<Longrightarrow> length (audio_queue s) < AUDIO_QUEUE_DEPTH \<Longrightarrow> sender_step s (frame_queued f s)"
| sn_timeout: "sending s = Some f \<Longrightarrow> sender_step s (frame_timed_out s)"

inductive session_step :: "session \<Rightarrow> session \<Rightarrow> bool" where
  se_start: "\<not> running s \<Longrightarrow> session_step s (session_start host port user line res cmd s)"
| se_event: "running s \<Longrightarrow> event_possible e s \<Longrightarrow> session_step s (ticker_event e s)"
| se_term: "running s \<Longrightarrow> term_step s s' \<Longrightarrow> session_step s s'"
| se_branch: "running s \<Longrightarrow> branch_step s s' \<Longrightarrow> session_step s s'"
| se_runner: "running s \<Longrightarrow> session_step s (session_end s)"
| se_sender: "sender_step s s' \<Longrightarrow> session_step s s'"
| se_key: "running s \<Longrightarrow> length (key_queue s) < KEY_CHANNEL_DEPTH \<Longrightarrow> session_step s (ssh_on_key_press k s)"

definition session_boot :: "u8 list \<Rightarrow> session" where
  "session_boot script =
     \<lparr>helper_script = script, pty_ready = False, exec_sent = None, terminal_open = False,
      audio_ready = False, audio_queue = [], sending = None, running = False, current_proc = 0,
      prior_proc = 0, proc_count = 0, login_name = None, login_command = None, audio_command = None,
      authd = False, pty_opened = False, pty_asked = None, pubkey_tried = False, term_at = TermWaitAuth,
      branch_at = BrDrain, key_queue = [], key_writes = [], term_output = [], replies = [], reports = [],
      asked = [], requests = [], audio_wire = [], accepted = [], written = []\<rparr>"

inductive session_reachable :: "u8 list \<Rightarrow> session \<Rightarrow> bool" for script where
  ss_boot: "session_reachable script (session_boot script)"
| ss_step: "session_reachable script s \<Longrightarrow> session_step s s' \<Longrightarrow> session_reachable script s'"

section \<open>Which channel carries what\<close>

inductive_cases branch_stepE: "branch_step s s'"
inductive_cases term_stepE: "term_step s s'"
inductive_cases sender_stepE: "sender_step s s'"
inductive_cases session_stepE: "session_step s s'"

text \<open>The requests of a session that gets all the way: a terminal, then the helper.\<close>

definition plan_of :: "rstr option \<Rightarrow> audio_command option \<Rightarrow> u8 list \<Rightarrow> (chan \<times> request) list" where
  "plan_of line cmd script =
     [(TermChan, ReqPty), (TermChan, case line of Some l \<Rightarrow> ReqExec l | None \<Rightarrow> ReqShell)]
     @ (case cmd of Some c \<Rightarrow> [(AudioChan, ReqExec (exec_string script c))] | None \<Rightarrow> [])"

definition request_plan :: "session \<Rightarrow> (chan \<times> request) list" where
  "request_plan s = plan_of (login_command s) (audio_command s) (helper_script s)"

definition past_exec :: "branch_pc \<Rightarrow> bool" where
  "past_exec b = (case b of BrScript _ _ \<Rightarrow> True | BrPump _ \<Rightarrow> True | BrWriting _ _ _ \<Rightarrow> True | _ \<Rightarrow> False)"

definition chan_inv :: "session \<Rightarrow> bool" where
  "chan_inv s \<longleftrightarrow> prefix (requests s) (request_plan s)
     \<and> (audio_wire s \<noteq> [] \<longrightarrow> 3 \<le> length (requests s))
     \<and> (running s \<longrightarrow>
         (if pty_opened s then
            term_at s \<noteq> TermWaitAuth \<and> 2 \<le> length (requests s)
            \<and> (asked s = [] \<or> asked s = [AudioChan] \<and> length (requests s) = 2 \<and> audio_command s \<noteq> None
                 \<and> branch_at s \<noteq> BrWaitPty)
            \<and> (branch_at s = BrWaitPty \<longrightarrow> asked s = [] \<and> length (requests s) = 2)
            \<and> (exec_sent s = Some True \<or> past_exec (branch_at s) \<longrightarrow> 3 \<le> length (requests s))
          else
            requests s = [] \<and> asked s = (if term_at s = TermWaitAuth then [] else [TermChan])
            \<and> \<not> pty_ready s \<and> \<not> terminal_open s \<and> exec_sent s = None
            \<and> (branch_at s = BrWaitPty \<or> branch_at s = BrDrain))
         \<and> (branch_at s = BrWaitPty \<or> branch_at s = BrOpening \<or> branch_at s = BrWaitExec \<longrightarrow> audio_command s \<noteq> None))"

lemmas report_defs = session_fail_def ptt_note_def add_reports_def add_reply_def

lemma chan_inv_reports [simp]:
  "chan_inv (add_reports rs s) = chan_inv s"
  "chan_inv (add_reply r s) = chan_inv s"
  by (simp_all add: chan_inv_def request_plan_def add_reports_def add_reply_def)

lemma chan_inv_frame [simp]:
  "chan_inv (s\<lparr>authd := b\<rparr>) = chan_inv s"
  "chan_inv (s\<lparr>pubkey_tried := b\<rparr>) = chan_inv s"
  "chan_inv (s\<lparr>key_queue := ks\<rparr>) = chan_inv s"
  "chan_inv (s\<lparr>key_writes := ws\<rparr>) = chan_inv s"
  "chan_inv (s\<lparr>term_output := bs\<rparr>) = chan_inv s"
  "chan_inv (s\<lparr>sending := f\<rparr>) = chan_inv s"
  "chan_inv (s\<lparr>audio_queue := fs\<rparr>) = chan_inv s"
  "chan_inv (s\<lparr>accepted := fs\<rparr>) = chan_inv s"
  by (simp_all add: chan_inv_def request_plan_def)

lemma chan_inv_fail [simp]:
  "chan_inv (ptt_note m s) = chan_inv s" "chan_inv (session_fail m n s) = chan_inv s"
  by (simp_all add: session_fail_def ptt_note_def)

lemma chan_inv_end: "chan_inv s \<Longrightarrow> chan_inv (session_end s)"
  by (simp add: chan_inv_def session_end_def request_plan_def)

lemma chan_inv_start: "\<not> running s \<Longrightarrow> chan_inv s \<Longrightarrow> chan_inv (session_start host port user line res cmd s)"
  by (cases res)
    (simp_all add: session_start_def, simp_all add: chan_inv_def add_reports_def reset_audio_session_state_def
      assign_ssh_proc_def request_plan_def past_exec_def)

lemma plan_snoc:
  assumes "prefix xs (ys @ [z])" and "length xs = length ys"
  shows "prefix (xs @ [z]) (ys @ [z])"
  using assms by (metis append_eq_append_conv append_same_eq prefix_def prefix_order.order_refl prefix_snoc length_append_singleton n_not_Suc_n)

lemma chan_inv_opened:
  assumes "running s" and "chan_inv s" and "ch \<in> set (asked s)"
  shows "chan_inv (on_session_opened ch nr nc ok1 ok2 s)"
proof (cases "pty_opened s")
  case True
  with assms obtain cmd where cmd: "audio_command s = Some cmd" "ch = AudioChan" "asked s = [AudioChan]"
    "length (requests s) = 2" "branch_at s \<noteq> BrWaitPty"
    by (auto simp: chan_inv_def)
  then have "prefix (requests s @ [(AudioChan, ReqExec (exec_string (helper_script s) cmd))]) (request_plan s)"
    using assms(2) plan_snoc [of "requests s" "[(TermChan, ReqPty), (TermChan, user_request s)]"]
    by (simp add: chan_inv_def request_plan_def plan_of_def user_request_def)
  with True assms cmd show ?thesis
    by (simp add: on_session_opened_def Let_def add_request_def report_defs chan_inv_def request_plan_def)
next
  case False
  with assms have "ch = TermChan" "requests s = []" "asked s = [TermChan]" "term_at s \<noteq> TermWaitAuth"
    by (auto simp: chan_inv_def split: if_splits)
  with False assms show ?thesis
    by (auto simp: on_session_opened_def Let_def add_request_def report_defs chan_inv_def request_plan_def plan_of_def user_request_def
        session_end_def past_exec_def)
qed

lemma chan_inv_event:
  assumes "running s" and "chan_inv s" and "event_possible e s"
  shows "chan_inv (ticker_event e s)"
proof (cases e)
  case (EvSessionOpened ch nr nc ok1 ok2)
  with assms show ?thesis by (simp add: event_possible_def chan_inv_opened)
next
  case (EvPubkey b)
  with assms show ?thesis by (simp add: on_pubkey_def Let_def)
qed (use assms in \<open>simp_all add: on_username_def on_password_def on_session_exit_def chan_inv_end
       split: option.split sum.split\<close>)

lemma chan_inv_term:
  assumes "term_step s s'" and "running s" and "chan_inv s"
  shows "chan_inv s'"
  using assms(1)
proof cases
  case tm_auth
  with assms(2,3) show ?thesis
    by (simp add: chan_inv_def term_auth_def request_plan_def split: if_splits)
next
  case tm_opened
  with assms(2,3) show ?thesis
    by (simp add: chan_inv_def term_opened_def request_plan_def session_end_def split: if_splits)
next
  case tm_read
  have "chan_inv (s\<lparr>terminal_open := False\<rparr>)" using assms(3) by (auto simp: chan_inv_def request_plan_def)
  with tm_read assms(3) show ?thesis
    by (simp add: term_read_def chan_inv_end split: sum.split)
next
  case tm_key
  with assms(3) show ?thesis by (simp add: term_key_def split: list.split)
qed

lemma chan_inv_to_drain:
  "chan_inv s \<Longrightarrow> chan_inv (s\<lparr>audio_ready := b, branch_at := BrDrain\<rparr>)"
  "chan_inv s \<Longrightarrow> chan_inv (s\<lparr>branch_at := BrDrain\<rparr>)"
  by (auto simp: chan_inv_def request_plan_def past_exec_def)

lemma chan_inv_at_pump:
  assumes "chan_inv s" and "past_exec (branch_at s)" and "past_exec b"
  shows "chan_inv (s\<lparr>branch_at := b\<rparr>)"
  using assms by (cases b) (auto simp: chan_inv_def request_plan_def past_exec_def)

lemma ptt_note_branch [simp]:
  "branch_at (add_reports rs s) = branch_at s"
  "branch_at (ptt_note m s) = branch_at s" "branch_at (session_fail m n s) = branch_at s"
  by (simp_all add: session_fail_def ptt_note_def add_reports_def)

lemma chan_inv_branch:
  assumes "branch_step s s'" and "running s" and "chan_inv s"
  shows "chan_inv s'"
  using assms(1)
proof cases
  case br_pty
  with assms(2,3) show ?thesis
    by (auto simp: chan_inv_def branch_pty_def request_plan_def past_exec_def split: if_splits)
next
  case (br_opened cmd err)
  with assms(2,3) show ?thesis
    by (simp add: chan_inv_def branch_opened_def request_plan_def past_exec_def report_defs
        split: if_splits option.splits)
next
  case (br_exec cmd ok)
  with assms(2,3) show ?thesis
    by (simp add: chan_inv_def branch_exec_def script_loop_def pump_begin_def Let_def request_plan_def
        past_exec_def report_defs split: if_splits)
next
  case (br_script e rest k)
  then have "3 \<le> length (requests s)" "pty_opened s"
    using assms(2,3) by (auto simp: chan_inv_def past_exec_def split: if_splits)
  with br_script assms(2,3) show ?thesis
    by (simp add: chan_inv_def script_write_def script_loop_def pump_begin_def Let_def request_plan_def
        past_exec_def report_defs)
next
  case (br_write f rest p k)
  then have "3 \<le> length (requests s)" "pty_opened s"
    using assms(2,3) by (auto simp: chan_inv_def past_exec_def split: if_splits)
  with br_write assms(2,3) show ?thesis
    by (simp add: chan_inv_def pump_write_def Let_def request_plan_def past_exec_def)
next
  case (br_stdout p r)
  with assms(3) show ?thesis
    by (simp add: pump_stdout_def pump_end_def chan_inv_to_drain split: option.split list.split)
next
  case (br_stderr p r)
  with assms(2,3) show ?thesis
    by (simp add: pump_stderr_def Let_def past_exec_def chan_inv_at_pump split: option.split list.split)
qed (use assms(2,3) in \<open>simp_all add: script_error_def pump_take_def pump_write_error_def pump_end_def
       branch_drain_def past_exec_def chan_inv_to_drain chan_inv_at_pump\<close>)

lemma chan_inv_sender: "sender_step s s' \<Longrightarrow> chan_inv s \<Longrightarrow> chan_inv s'"
  by (erule sender_stepE)
    (simp_all add: ssh_audio_send_def ssh_audio_end_of_utterance_def queue_audio_frame_def frame_queued_def
      frame_timed_out_def split: option.split)

lemma chan_inv_step:
  assumes "session_step s s'" and "chan_inv s"
  shows "chan_inv s'"
  using assms(1)
proof cases
  case se_key
  with assms(2) show ?thesis by (simp add: ssh_on_key_press_def)
qed (use assms(2) in \<open>simp_all add: chan_inv_start chan_inv_event chan_inv_term chan_inv_branch chan_inv_end chan_inv_sender\<close>)

section \<open>What the helper receives\<close>

lemma make_frame_SomeD:
  assumes "make_frame xs = Some f"
  shows "payload f = wire_frame xs" and "length xs \<le> SAMPLES_PER_CHUNK"
proof -
  have len: "length (wire_frame xs) = length xs * 2 + 4" by (simp add: wire_frame_def)
  from assms have xs: "length xs * 2 + 4 \<le> 804"
    and f: "f = \<lparr>frame_len = of_nat (length (wire_frame xs)),
      frame_buf = wire_frame xs @ drop (length xs * 2 + 4) (replicate WIRE_FRAME_BYTES 0)\<rparr>"
    by (auto simp: make_frame_def encode_frame_spec WIRE_FRAME_BYTES_def frame_bytes_def LEN_PREFIX_BYTES_def
        split: if_splits)
  then have "unat (of_nat (length (wire_frame xs)) :: u16) = length (wire_frame xs)"
    using len by (intro unat_of_nat_small) simp
  with f show "payload f = wire_frame xs" by (simp add: payload_def)
  from xs show "length xs \<le> SAMPLES_PER_CHUNK" by simp
qed

lemma make_frame_fits: "length xs \<le> SAMPLES_PER_CHUNK \<Longrightarrow> \<exists>f. make_frame xs = Some f"
  by (simp add: make_frame_def encode_frame_spec WIRE_FRAME_BYTES_def frame_bytes_def LEN_PREFIX_BYTES_def)

definition script_bytes :: "audio_command option \<Rightarrow> u8 list \<Rightarrow> u8 list" where
  "script_bytes cmd script = (if cmd = Some Embedded then script else [])"

text \<open>The bytes on the wire, the frames written and those accepted and still queued, by stage.\<close>

fun stage_ok ::
    "branch_pc \<Rightarrow> audio_command option \<Rightarrow> u8 list \<Rightarrow> u8 list \<Rightarrow> audio_frame list \<Rightarrow> audio_frame list \<Rightarrow> audio_frame list \<Rightarrow> bool" where
  "stage_ok (BrScript e rest) cmd script wire ws acc queue \<longleftrightarrow>
     cmd = Some Embedded \<and> e \<le> length script \<and> wire @ rest = take e script \<and> ws = [] \<and> acc = queue"
| "stage_ok (BrPump p) cmd script wire ws acc queue \<longleftrightarrow>
     wire = script_bytes cmd script @ concat (map payload ws) \<and> acc = ws @ queue"
| "stage_ok (BrWriting f rest p) cmd script wire ws acc queue \<longleftrightarrow>
     wire @ rest = script_bytes cmd script @ concat (map payload ws) @ payload f \<and> acc = ws @ f # queue"
| "stage_ok BrDrain cmd script wire ws acc queue \<longleftrightarrow> True"
| "stage_ok _ cmd script wire ws acc queue \<longleftrightarrow> wire = [] \<and> ws = [] \<and> acc = queue"

abbreviation stage_inv :: "session \<Rightarrow> bool" where
  "stage_inv s \<equiv> stage_ok (branch_at s) (audio_command s) (helper_script s) (audio_wire s) (written s)
     (accepted s) (audio_queue s)"

lemma stage_ok_queue: "stage_ok b cmd script wire ws acc queue \<Longrightarrow> stage_ok b cmd script wire ws (acc @ [f]) (queue @ [f])"
  by (cases b) auto

definition frames_ok :: "audio_frame list \<Rightarrow> bool" where
  "frames_ok fs \<longleftrightarrow> (\<forall>f \<in> set fs. \<exists>xs. make_frame xs = Some f)"

lemma frames_ok_simps [simp]:
  "frames_ok []" "frames_ok (f # fs) \<longleftrightarrow> (\<exists>xs. make_frame xs = Some f) \<and> frames_ok fs"
  "frames_ok (fs @ gs) \<longleftrightarrow> frames_ok fs \<and> frames_ok gs"
  by (auto simp: frames_ok_def)

definition wire_inv :: "session \<Rightarrow> bool" where
  "wire_inv s \<longleftrightarrow>
     prefix (audio_wire s) (script_bytes (audio_command s) (helper_script s) @ concat (map payload (accepted s)))
     \<and> length (audio_queue s) \<le> AUDIO_QUEUE_DEPTH
     \<and> frames_ok (accepted s) \<and> (\<forall>f. sending s = Some f \<longrightarrow> frames_ok [f])
     \<and> audio_ready s = (running s \<and> is_pumping (branch_at s))
     \<and> (\<not> running s \<longrightarrow> \<not> terminal_open s)
     \<and> (running s \<longrightarrow> stage_inv s)"

lemma wire_inv_frame [simp]:
  "wire_inv (add_reports rs s) = wire_inv s"
  "wire_inv (add_reply r s) = wire_inv s"
  "wire_inv (ptt_note m s) = wire_inv s"
  "wire_inv (session_fail m n s) = wire_inv s"
  "wire_inv (add_request ch q s) = wire_inv s"
  "wire_inv (s\<lparr>authd := b\<rparr>) = wire_inv s"
  "wire_inv (s\<lparr>pubkey_tried := b\<rparr>) = wire_inv s"
  "wire_inv (s\<lparr>pty_opened := b\<rparr>) = wire_inv s"
  "wire_inv (s\<lparr>pty_asked := y\<rparr>) = wire_inv s"
  "wire_inv (s\<lparr>pty_ready := b\<rparr>) = wire_inv s"
  "wire_inv (s\<lparr>exec_sent := e\<rparr>) = wire_inv s"
  "wire_inv (s\<lparr>asked := chs\<rparr>) = wire_inv s"
  "wire_inv (s\<lparr>key_queue := ks\<rparr>) = wire_inv s"
  "wire_inv (s\<lparr>key_writes := ws\<rparr>) = wire_inv s"
  "wire_inv (s\<lparr>term_output := bs\<rparr>) = wire_inv s"
  "wire_inv (s\<lparr>term_at := t\<rparr>) = wire_inv s"
  by (simp_all add: wire_inv_def report_defs add_request_def)

lemma frame_fields [simp]:
  "running (add_request ch r s) = running s" "running (session_fail m n s) = running s"
  "running (add_reports rs s) = running s"
  by (simp_all add: report_defs add_request_def)

lemma wire_inv_end: "wire_inv s \<Longrightarrow> wire_inv (session_end s)"
  by (simp add: wire_inv_def session_end_def)

lemma wire_inv_closed: "wire_inv s \<Longrightarrow> wire_inv (s\<lparr>terminal_open := False\<rparr>)"
  by (simp add: wire_inv_def)

lemma wire_inv_start: "\<not> running s \<Longrightarrow> wire_inv s \<Longrightarrow> wire_inv (session_start host port user line res cmd s)"
  by (cases res)
    (simp_all add: session_start_def assign_ssh_proc_def,
     simp_all add: wire_inv_def add_reports_def reset_audio_session_state_def is_pumping_def)

lemma wire_inv_event: "running s \<Longrightarrow> wire_inv s \<Longrightarrow> wire_inv (ticker_event e s)"
proof (cases e)
  case (EvSessionOpened ch nr nc ok1 ok2)
  assume *: "running s" "wire_inv s"
  have "wire_inv (s\<lparr>terminal_open := True\<rparr>)" if "running s" "wire_inv s" for s
    using that by (simp add: wire_inv_def)
  from this [of "add_request ch r' (add_request ch r (s\<lparr>asked := a, pty_opened := True, pty_asked := Some (terminal_pty nr nc)\<rparr>))" for r r' a] * EvSessionOpened
  show ?thesis
    by (simp add: on_session_opened_def Let_def wire_inv_end split: option.split prod.split)
qed (simp_all add: on_username_def on_password_def on_pubkey_def on_session_exit_def wire_inv_end Let_def
       split: option.split sum.split)

lemma wire_inv_term: "term_step s s' \<Longrightarrow> wire_inv s \<Longrightarrow> wire_inv s'"
  by (erule term_stepE)
    (simp_all add: term_auth_def term_opened_def term_read_def term_key_def wire_inv_end wire_inv_closed
      split: sum.split list.split)

lemma wire_inv_sender: "sender_step s s' \<Longrightarrow> wire_inv s \<Longrightarrow> wire_inv s'"
proof (erule sender_stepE)
  fix f assume *: "sending s = Some f" "length (audio_queue s) < AUDIO_QUEUE_DEPTH" "s' = frame_queued f s" "wire_inv s"
  then show "wire_inv s'"
    by (auto simp: wire_inv_def frame_queued_def stage_ok_queue intro: prefix_order.trans)
qed (auto simp: ssh_audio_send_def ssh_audio_end_of_utterance_def queue_audio_frame_def frame_timed_out_def
       split: option.splits, auto simp: wire_inv_def)

lemma take_chunk:
  assumes "n \<le> e"
  shows "take n xs @ drop n (take e xs) = take e xs"
  using assms by (metis append_take_drop_id min.absorb1 take_take)

lemma wire_inv_to_drain:
  "running s \<Longrightarrow> wire_inv s \<Longrightarrow> wire_inv (s\<lparr>audio_ready := False, branch_at := BrDrain\<rparr>)"
  "running s \<Longrightarrow> wire_inv s \<Longrightarrow> \<not> is_pumping (branch_at s) \<Longrightarrow> wire_inv (s\<lparr>branch_at := BrDrain\<rparr>)"
  by (simp_all add: wire_inv_def is_pumping_def)

lemma wire_inv_pump_end: "running s \<Longrightarrow> wire_inv s \<Longrightarrow> wire_inv (pump_end m p s)"
  unfolding pump_end_def by (intro wire_inv_to_drain(1)) simp_all

lemma wire_inv_pump_begin:
  assumes "wire_inv s" and "running s" and "written s = []" and "accepted s = audio_queue s"
    and "audio_wire s = script_bytes (audio_command s) (helper_script s)"
  shows "wire_inv (pump_begin s)"
  using assms by (simp add: wire_inv_def pump_begin_def is_pumping_def)

lemma wire_inv_script_loop:
  assumes "running s" and "audio_command s = Some Embedded" and "n \<le> length (helper_script s)"
    and "audio_wire s = take n (helper_script s)" and "written s = []" and "accepted s = audio_queue s"
    and "\<not> audio_ready s" and "length (audio_queue s) \<le> AUDIO_QUEUE_DEPTH" and "frames_ok (accepted s)"
    and "\<forall>f. sending s = Some f \<longrightarrow> frames_ok [f]"
  shows "wire_inv (script_loop n s)"
  using assms take_chunk [of n "min (n + PTT_SCRIPT_CHUNK_BYTES) (length (helper_script s))" "helper_script s"]
  by (simp add: script_loop_def Let_def wire_inv_def pump_begin_def is_pumping_def add_reports_def script_bytes_def
      take_is_prefix prefixI)

lemma wire_inv_pump:
  assumes "wire_inv s" and "branch_at s = BrPump p"
  shows "wire_inv (s\<lparr>branch_at := BrPump p'\<rparr>)"
  using assms by (simp add: wire_inv_def is_pumping_def)

lemma wire_inv_branch:
  assumes "branch_step s s'" and "running s" and "wire_inv s"
  shows "wire_inv s'"
  using assms(1)
proof cases
  case br_pty
  with assms(2,3) show ?thesis by (auto simp: wire_inv_def branch_pty_def is_pumping_def)
next
  case (br_opened cmd err)
  with assms(2,3) show ?thesis
    by (auto simp: wire_inv_def branch_opened_def is_pumping_def report_defs split: option.split)
next
  case (br_exec cmd ok)
  let ?s = "s\<lparr>exec_sent := None\<rparr>"
  have no: "\<not> is_pumping (branch_at s)" and w: "wire_inv ?s" and r: "running ?s"
    and start: "audio_wire s = []" "written s = []" "accepted s = audio_queue s"
    using br_exec assms(2,3) by (auto simp: is_pumping_def wire_inv_def)
  show ?thesis
  proof (cases ok)
    case True
    show ?thesis
    proof (cases cmd)
      case Embedded
      have "wire_inv (script_loop 0 ?s)"
        using assms(2,3) br_exec start Embedded by (intro wire_inv_script_loop) (auto simp: wire_inv_def is_pumping_def)
      with True Embedded br_exec(1) show ?thesis by (simp add: branch_exec_def sends_script_def)
    next
      case (Configured line)
      have "wire_inv (pump_begin ?s)"
        using w r br_exec start Configured by (intro wire_inv_pump_begin) (auto simp: script_bytes_def)
      with True Configured br_exec(1) show ?thesis by (simp add: branch_exec_def sends_script_def)
    qed
  next
    case False
    then have "s' = (session_fail (''could not start the ssh audio helper `'' @ describe cmd @ ''`'')
        ''ptt: helper failed to start (see device log)'' ?s)\<lparr>branch_at := BrDrain\<rparr>"
      using br_exec(1) by (simp add: branch_exec_def Let_def)
    moreover have "\<not> is_pumping (branch_at (session_fail m n ?s))" for m n
      using no by (simp add: report_defs)
    ultimately show ?thesis using w r wire_inv_to_drain(2) by simp
  qed
next
  case (br_script e rest k)
  then have st: "audio_command s = Some Embedded" "e \<le> length (helper_script s)"
    "audio_wire s @ rest = take e (helper_script s)" "written s = []" "accepted s = audio_queue s"
    "\<not> audio_ready s"
    using assms(2,3) by (auto simp: wire_inv_def is_pumping_def)
  show ?thesis
  proof (cases "drop k rest = []")
    case True
    with st assms(2,3) have "wire_inv (script_loop e (s\<lparr>audio_wire := audio_wire s @ take k rest\<rparr>))"
      by (intro wire_inv_script_loop) (simp_all add: wire_inv_def)
    with True br_script show ?thesis by (simp add: script_write_def Let_def)
  next
    case False
    have "prefix (audio_wire s @ take k rest) (helper_script s @ t)" for t
      using st(3) by (metis append_assoc append_take_drop_id prefixI)
    with False st br_script assms(2,3) show ?thesis
      by (simp add: script_write_def Let_def wire_inv_def is_pumping_def script_bytes_def)
  qed
next
  case (br_take p f fs)
  with assms(2,3) show ?thesis by (auto simp: wire_inv_def pump_take_def is_pumping_def)
next
  case (br_write f rest p k)
  then have st: "audio_wire s @ rest = script_bytes (audio_command s) (helper_script s)
      @ concat (map payload (written s)) @ payload f" "accepted s = written s @ f # audio_queue s"
    using assms(2,3) by (auto simp: wire_inv_def)
  then have "script_bytes (audio_command s) (helper_script s) @ concat (map payload (accepted s))
      = (audio_wire s @ rest) @ concat (map payload (audio_queue s))"
    by simp
  also have "\<dots> = (audio_wire s @ take k rest) @ drop k rest @ concat (map payload (audio_queue s))"
    by simp
  finally have "prefix (audio_wire s @ take k rest)
      (script_bytes (audio_command s) (helper_script s) @ concat (map payload (accepted s)))"
    by (rule prefixI)
  with st br_write assms(2,3) show ?thesis
    by (simp add: pump_write_def Let_def wire_inv_def is_pumping_def)
next
  case (br_stderr p r)
  with assms(2,3) show ?thesis
    by (auto simp: pump_stderr_def Let_def wire_inv_pump split: option.split list.split)
next
  case (br_drain f fs)
  with assms(2,3) show ?thesis by (auto simp: wire_inv_def branch_drain_def is_pumping_def)
next
  case (br_script_error e rest err)
  then show ?thesis unfolding br_script_error(1) script_error_def
    by (intro wire_inv_to_drain(2)) (simp_all add: assms(2,3) is_pumping_def)
next
  case (br_write_error f rest p err)
  then show ?thesis by (simp add: pump_write_error_def wire_inv_pump_end assms(2,3))
next
  case (br_stdout p r)
  then show ?thesis
    by (simp add: pump_stdout_def wire_inv_pump_end assms(2,3) split: option.split list.split)
qed

section \<open>What the helper says\<close>

definition line_ok :: "rstr \<Rightarrow> bool" where
  "line_ok s \<longleftrightarrow> length s \<le> MAX_STDERR_FRAGMENT \<and> CHR 0x0a \<notin> set s"

definition pump_ok :: "pump \<Rightarrow> bool" where
  "pump_ok p \<longleftrightarrow> is_text (stderr_fragment p) \<and> line_ok (stderr_fragment p) \<and> line_ok (last_stderr_line p)"

lemma cap_fragment_text:
  assumes "is_text f"
  shows "is_text (cap_fragment f) \<and> length (cap_fragment f) \<le> MAX_STDERR_FRAGMENT"
proof (cases "MAX_STDERR_FRAGMENT < length f")
  case True
  let ?ex = "length f - MAX_STDERR_FRAGMENT"
  show ?thesis
  proof (cases "find (\<lambda>i. ?ex \<le> i) (char_indices f)")
    case None
    with True show ?thesis by (simp add: cap_fragment_def)
  next
    case (Some i)
    then have "?ex \<le> i" "i \<in> set (char_indices f)" by (auto simp: find_Some_iff)
    then have i: "i < length f" "\<not> is_continuation (f ! i)" "length f - i \<le> MAX_STDERR_FRAGMENT"
      by (auto simp: char_indices_def)
    with True Some is_text_drop [OF assms i(1,2)] show ?thesis by (simp add: cap_fragment_def)
  qed
qed (use assms in \<open>simp add: cap_fragment_def\<close>)

lemma keep_line_ok:
  assumes "line_ok l" and "is_text t" and "line_ok t"
  shows "line_ok (keep_line l t)"
  using assms is_text_trim(2,3) [OF assms(2)] by (auto simp: keep_line_def Let_def line_ok_def)

lemma stderr_lines_ok:
  assumes "line_ok l" and "is_text f" and "length f \<le> MAX_STDERR_FRAGMENT"
  shows "line_ok (fst (stderr_lines l f)) \<and> is_text (snd (stderr_lines l f)) \<and> line_ok (snd (stderr_lines l f))"
  using assms
proof (induction l f rule: stderr_lines.induct)
  case (1 l f)
  show ?case
  proof (cases "split_once CHR 0x0a f")
    case None
    then have "stderr_lines l f = (l, f)" by (subst stderr_lines.simps) simp
    with 1 None show ?thesis by (simp add: line_ok_def split_once_None_iff)
  next
    case (Some lr)
    obtain line rest where lr: "lr = (line, rest)" by fastforce
    note split = Some [unfolded lr]
    have "line_ok line" "length rest \<le> MAX_STDERR_FRAGMENT"
      using split_once_SomeD [OF split] 1(4) by (auto simp: line_ok_def)
    moreover have "stderr_lines l f = stderr_lines (keep_line l line) rest"
      using split by (subst stderr_lines.simps) simp
    ultimately show ?thesis
      using 1 split is_text_line [OF 1(3) split] by (simp add: keep_line_ok)
  qed
qed

lemma stderr_text_ok: "pump_ok p \<Longrightarrow> is_text t \<Longrightarrow> pump_ok (stderr_text t p)"
  using stderr_lines_ok [of "last_stderr_line p" "cap_fragment (stderr_fragment p @ t)"]
    cap_fragment_text [of "stderr_fragment p @ t"]
  by (cases "stderr_lines (last_stderr_line p) (cap_fragment (stderr_fragment p @ t))")
     (simp add: stderr_text_def pump_ok_def is_text_append)

fun branch_ok :: "branch_pc \<Rightarrow> bool" where
  "branch_ok (BrPump p) = pump_ok p"
| "branch_ok (BrWriting f rest p) = pump_ok p"
| "branch_ok _ = True"

lemma stderr_end_ok:
  "pump_ok p \<Longrightarrow> pump_ok (p\<lparr>stderr_done := True, last_stderr_line := keep_line (last_stderr_line p) (stderr_fragment p)\<rparr>)"
  by (simp add: pump_ok_def keep_line_ok)

lemma pump_begin_ok: "branch_ok (branch_at (pump_begin s))"
  by (simp add: pump_begin_def pump_ok_def line_ok_def)

lemma branch_ok_step:
  assumes "branch_step s s'" and "branch_ok (branch_at s)"
  shows "branch_ok (branch_at s')"
  using assms(1)
proof cases
  case (br_exec cmd ok)
  then show ?thesis by (simp add: branch_exec_def script_loop_def Let_def pump_begin_ok)
next
  case (br_script e rest k)
  then show ?thesis by (simp add: script_write_def script_loop_def Let_def pump_begin_ok)
next
  case (br_stderr p r)
  with assms(2) show ?thesis
    by (auto simp: pump_stderr_def Let_def stderr_text_ok stderr_end_ok split: option.split list.split)
qed (use assms(2) in \<open>simp_all add: branch_pty_def branch_opened_def script_error_def pump_take_def pump_write_def
       pump_write_error_def pump_end_def pump_stdout_def branch_drain_def Let_def split: option.split list.split\<close>)

lemma other_steps_branch:
  "branch_at (ticker_event e s) = branch_at s"
  "term_step s s' \<Longrightarrow> branch_at s' = branch_at s"
  "sender_step s s' \<Longrightarrow> branch_at s' = branch_at s"
  by (cases e; simp add: on_username_def on_password_def on_pubkey_def on_session_opened_def on_session_exit_def
        add_request_def report_defs session_end_def Let_def split: option.split sum.split prod.split)
     (auto simp: term_auth_def term_opened_def term_read_def term_key_def session_end_def add_reports_def
        ssh_audio_send_def ssh_audio_end_of_utterance_def queue_audio_frame_def frame_queued_def frame_timed_out_def
        elim!: term_stepE sender_stepE split: sum.split list.split option.split)

section \<open>Every reachable session\<close>

lemma report_script [simp]:
  "helper_script (add_reports rs s) = helper_script s"
  "helper_script (add_reply r s) = helper_script s"
  "helper_script (ptt_note m s) = helper_script s"
  "helper_script (session_fail m n s) = helper_script s"
  "helper_script (session_end s) = helper_script s"
  "helper_script (add_request ch q s) = helper_script s"
  "helper_script (script_loop k s) = helper_script s"
  "helper_script (pump_begin s) = helper_script s"
  by (simp_all add: report_defs session_end_def add_request_def script_loop_def pump_begin_def Let_def)

lemma branch_step_script: "branch_step s s' \<Longrightarrow> helper_script s' = helper_script s"
  by (erule branch_stepE)
     (auto simp: branch_pty_def branch_opened_def branch_exec_def script_write_def script_error_def pump_take_def
        pump_write_def pump_write_error_def pump_end_def pump_stdout_def pump_stderr_def branch_drain_def Let_def
        split: option.split list.split)

lemma session_step_script: "session_step s s' \<Longrightarrow> helper_script s' = helper_script s"
proof (erule session_stepE)
  fix host port user line res cmd
  assume "s' = session_start host port user line res cmd s"
  then show ?thesis
    by (cases res) (simp_all add: session_start_def assign_ssh_proc_def reset_audio_session_state_def)
next
  fix e assume "s' = ticker_event e s"
  then show ?thesis
    by (cases e) (simp_all add: on_username_def on_password_def on_pubkey_def on_session_opened_def on_session_exit_def
        Let_def split: option.split sum.split prod.split)
next
  assume "term_step s s'"
  then show ?thesis
    by (auto simp: term_auth_def term_opened_def term_read_def term_key_def elim!: term_stepE
        split: sum.split list.split)
next
  assume "sender_step s s'"
  then show ?thesis
    by (auto simp: ssh_audio_send_def ssh_audio_end_of_utterance_def queue_audio_frame_def frame_queued_def
        frame_timed_out_def elim!: sender_stepE split: option.split)
qed (simp_all add: branch_step_script ssh_on_key_press_def)

lemma reachable_inv:
  assumes "session_reachable script s"
  shows "chan_inv s \<and> wire_inv s \<and> branch_ok (branch_at s) \<and> helper_script s = script"
  using assms
proof induction
  case ss_boot
  show ?case
    by (simp add: session_boot_def chan_inv_def wire_inv_def is_pumping_def)
next
  case (ss_step s s')
  then have inv: "chan_inv s" "wire_inv s" "branch_ok (branch_at s)" by simp_all
  have "wire_inv s' \<and> branch_ok (branch_at s')"
    using ss_step(2)
  proof cases
    case (se_start host port user line res cmd)
    then have "branch_ok (branch_at s')"
      using inv(3) by (cases res) (simp_all add: session_start_def assign_ssh_proc_def)
    with se_start inv show ?thesis by (simp add: wire_inv_start)
  next
    case (se_event e)
    with inv show ?thesis by (simp add: wire_inv_event other_steps_branch)
  next
    case se_term
    with inv show ?thesis using wire_inv_term other_steps_branch(2) by metis
  next
    case se_branch
    with inv show ?thesis using wire_inv_branch branch_ok_step by metis
  next
    case se_runner
    then have "branch_at s' = branch_at s" by (simp add: session_end_def)
    with se_runner inv show ?thesis by (simp add: wire_inv_end)
  next
    case se_sender
    with inv show ?thesis using wire_inv_sender other_steps_branch(3) by metis
  next
    case se_key
    with inv show ?thesis by (simp add: ssh_on_key_press_def)
  qed
  with ss_step inv chan_inv_step session_step_script show ?case by metis
qed

section \<open>An example\<close>

text \<open>A session up to its terminal, and on to its audio channel.\<close>

definition terminal_session :: session where
  "terminal_session =
     on_session_opened TermChan 40 53 True True
       (term_auth (ticker_event EvAuthenticated
         (session_start ''box'' 22 None None (Connected ''10.0.0.1'') (Some (Configured ''ptt'')) (session_boot []))))"

definition audio_session :: session where
  "audio_session =
     branch_exec True (Configured ''ptt'') (branch_opened None (Configured ''ptt'')
       (ticker_event (EvSessionOpened AudioChan 40 53 True True) (branch_pty terminal_session)))"

lemma terminal_session_eq:
  "terminal_session = (session_boot [])
     \<lparr>pty_ready := True, terminal_open := True, running := True, current_proc := 1, proc_count := 1,
      audio_command := Some (Configured ''ptt''), pty_opened := True, pty_asked := Some (terminal_pty 40 53), term_at := TermOpening, branch_at := BrWaitPty,
      reports := [Printed (connected_text ''box'' ''10.0.0.1'' 22), Logged ''ptt: ssh audio helper is `ptt`''],
      requests := [(TermChan, ReqPty), (TermChan, ReqShell)]\<rparr>"
  by (simp add: terminal_session_def session_start_def assign_ssh_proc_def add_reports_def reset_audio_session_state_def
      session_boot_def term_auth_def on_session_opened_def add_request_def user_request_def describe_def Let_def)

lemma terminal_session_reachable: "session_reachable [] terminal_session"
proof -
  let ?s1 = "session_start ''box'' 22 None None (Connected ''10.0.0.1'') (Some (Configured ''ptt'')) (session_boot [])"
  let ?s2 = "ticker_event EvAuthenticated ?s1"
  let ?s3 = "term_auth ?s2"
  have eq: "running ?s1" "\<not> authd ?s1" "term_at ?s1 = TermWaitAuth" "asked ?s1 = []"
    by (simp_all add: session_start_def assign_ssh_proc_def add_reports_def reset_audio_session_state_def session_boot_def Let_def)
  have "session_reachable [] ?s1"
    by (rule ss_step [OF ss_boot se_start]) (simp add: session_boot_def)
  then have "session_reachable [] ?s2"
    by (rule ss_step [OF _ se_event]) (simp_all add: eq event_possible_def)
  then have "session_reachable [] ?s3"
    by (rule ss_step [OF _ se_term [OF _ tm_auth]]) (simp_all add: eq)
  then have "session_reachable [] (ticker_event (EvSessionOpened TermChan 40 53 True True) ?s3)"
    by (rule ss_step [OF _ se_event]) (simp_all add: eq event_possible_def term_auth_def)
  then show ?thesis by (simp add: terminal_session_def)
qed

lemma audio_session_reachable: "session_reachable [] audio_session"
proof -
  let ?t = terminal_session and ?cmd = "Configured ''ptt''"
  let ?s1 = "branch_pty ?t" let ?s2 = "ticker_event (EvSessionOpened AudioChan 40 53 True True) ?s1"
  let ?s3 = "branch_opened None ?cmd ?s2"
  note st = terminal_session_eq session_boot_def branch_pty_def on_session_opened_def add_request_def
  have "session_reachable [] ?s1"
    by (rule ss_step [OF terminal_session_reachable se_branch [OF _ br_pty]]) (simp_all add: st)
  then have "session_reachable [] ?s2"
    by (rule ss_step [OF _ se_event]) (simp_all add: st event_possible_def)
  then have "session_reachable [] ?s3"
    by (rule ss_step [OF _ se_branch [OF _ br_opened]]) (simp_all add: st)
  then have "session_reachable [] (branch_exec True ?cmd ?s3)"
    by (rule ss_step [OF _ se_branch [OF _ br_exec]]) (simp_all add: st branch_opened_def add_reports_def)
  then show ?thesis by (simp add: audio_session_def)
qed

lemma audio_session_pumps:
  "branch_at audio_session = BrPump \<lparr>stderr_done = False, last_stderr_line = [], stderr_fragment = []\<rparr>"
  "ssh_audio_available audio_session" "audio_command audio_session = Some (Configured ''ptt'')"
  "login_command audio_session = None"
  by (simp_all add: audio_session_def branch_exec_def sends_script_def pump_begin_def branch_opened_def add_reports_def
      terminal_session_eq session_boot_def branch_pty_def on_session_opened_def add_request_def Let_def
      ssh_audio_available_def)

section \<open>What a session guarantees\<close>

lemma full_plan:
  assumes "prefix rs (plan_of line cmd script)" and "3 \<le> length rs"
  shows "rs = plan_of line cmd script \<and> cmd \<noteq> None"
proof -
  have len: "length (plan_of line cmd script) \<le> 3" "cmd = None \<Longrightarrow> length (plan_of line cmd script) = 2"
    by (simp_all add: plan_of_def split: option.split)
  obtain zs where zs: "plan_of line cmd script = rs @ zs" using assms(1) by (auto simp: prefix_def)
  with len(1) assms(2) have "zs = []" by (cases zs) simp_all
  moreover have "cmd \<noteq> None"
  proof
    assume "cmd = None"
    with len(2) zs assms(2) show False by simp
  qed
  ultimately show ?thesis using zs by simp
qed

text \<open>C6: In every reachable session, whatever an earlier session left in the shared signals, the
  requests are a prefix of: a terminal and the user's command or shell on the first channel,
  then the helper on the second. Bytes are written to the audio channel, and recordings
  accepted, only after the helper was requested on it, and only in a session with a helper.\<close>

theorem session_channels:
  assumes "session_reachable script s"
  shows "prefix (requests s) (plan_of (login_command s) (audio_command s) script)
    \<and> (audio_wire s \<noteq> [] \<longrightarrow> requests s = plan_of (login_command s) (audio_command s) script \<and> audio_command s \<noteq> None)
    \<and> (ssh_audio_available s \<longrightarrow> running s \<and> requests s = plan_of (login_command s) (audio_command s) script)"
proof -
  have inv: "chan_inv s" "wire_inv s" "helper_script s = script" using reachable_inv [OF assms] by simp_all
  then have prefix: "prefix (requests s) (plan_of (login_command s) (audio_command s) script)"
    by (simp add: chan_inv_def request_plan_def)
  have "running s \<and> 3 \<le> length (requests s)" if "ssh_audio_available s"
  proof -
    have "running s" "is_pumping (branch_at s)" using inv(2) that by (auto simp: wire_inv_def ssh_audio_available_def)
    then show ?thesis
      using inv(1) by (cases "branch_at s") (auto simp: chan_inv_def past_exec_def is_pumping_def split: if_splits)
  qed
  moreover have "3 \<le> length (requests s)" if "audio_wire s \<noteq> []" using inv(1) that by (simp add: chan_inv_def)
  ultimately show ?thesis using prefix full_plan [OF prefix] by blast
qed

theorem session_channels_witness:
  "requests audio_session = [(TermChan, ReqPty), (TermChan, ReqShell), (AudioChan, ReqExec ''ptt'')]"
  using session_channels [OF audio_session_reachable] audio_session_pumps
  by (simp add: plan_of_def exec_string_def)

text \<open>C7: What the helper reads is its script, if the session delivers one, followed by whole frames
  in the order they were accepted, cut off at most once and for good: nothing is skipped,
  repeated or interleaved. While recordings are accepted every accepted frame is written, the
  one being written, or queued; at most three are queued, and a frame never holds more than
  one capture chunk.\<close>

theorem helper_receives_frames:
  assumes "session_reachable script s"
  shows "prefix (audio_wire s) (script_bytes (audio_command s) script @ concat (map payload (accepted s)))
    \<and> (\<forall>f \<in> set (accepted s). \<exists>xs. length xs \<le> SAMPLES_PER_CHUNK \<and> payload f = wire_frame xs)
    \<and> length (audio_queue s) \<le> 3
    \<and> (ssh_audio_available s \<longrightarrow> (\<exists>now rest.
         accepted s = written s @ now @ audio_queue s \<and> length now \<le> 1 \<and> (now = [] \<longrightarrow> rest = [])
         \<and> audio_wire s @ rest = script_bytes (audio_command s) script @ concat (map payload (written s @ now))))"
proof -
  have inv: "wire_inv s" "helper_script s = script" using reachable_inv [OF assms] by simp_all
  have frames: "\<forall>f \<in> set (accepted s). \<exists>xs. length xs \<le> SAMPLES_PER_CHUNK \<and> payload f = wire_frame xs"
    using inv(1) make_frame_SomeD unfolding wire_inv_def frames_ok_def by metis
  have "\<exists>now rest. accepted s = written s @ now @ audio_queue s \<and> length now \<le> 1 \<and> (now = [] \<longrightarrow> rest = [])
      \<and> audio_wire s @ rest = script_bytes (audio_command s) script @ concat (map payload (written s @ now))"
    if "ssh_audio_available s"
  proof -
    have st: "stage_inv s" "is_pumping (branch_at s)" using inv(1) that by (auto simp: wire_inv_def ssh_audio_available_def)
    show ?thesis
    proof (cases "branch_at s")
      case (BrPump p)
      with st inv(2) show ?thesis by (intro exI [of _ "[]"]) simp
    next
      case (BrWriting f rest p)
      with st inv(2) show ?thesis by (intro exI [of _ "[f]"] exI [of _ rest]) simp
    qed (use st(2) in \<open>simp_all add: is_pumping_def\<close>)
  qed
  with inv frames show ?thesis by (simp add: wire_inv_def AUDIO_QUEUE_DEPTH_def)
qed

theorem helper_receives_frames_witness:
  "\<exists>now rest. accepted audio_session = written audio_session @ now @ audio_queue audio_session
     \<and> audio_wire audio_session @ rest = concat (map payload (written audio_session @ now))"
  using helper_receives_frames [OF audio_session_reachable] audio_session_pumps
  by (auto simp: script_bytes_def)

text \<open>C8: While the terminal is open nothing the helper does can end the session: an exit event is
  ignored, every step of the audio branch - a failed open, a failed start, the helper's exit -
  leaves the session and its terminal running, and so does the audio channel's open event
  however the server answers; once the terminal is closed, the next exit event ends it.\<close>

theorem terminal_outlives_helper:
  assumes "session_reachable script s" and "running s" and "terminal_open s"
  shows "ticker_event EvSessionExit s = s
    \<and> (\<forall>s'. branch_step s s' \<longrightarrow> running s' \<and> terminal_open s' \<and> term_at s' = term_at s)
    \<and> (\<forall>ch nr nc ok1 ok2 s'. ch \<in> set (asked s) \<and> s' = ticker_event (EvSessionOpened ch nr nc ok1 ok2) s \<longrightarrow>
         ch = AudioChan \<and> running s' \<and> terminal_open s' \<and> exec_sent s' = Some ok1)
    \<and> (\<forall>t. \<not> terminal_open t \<longrightarrow> \<not> running (ticker_event EvSessionExit t))"
proof -
  have inv: "chan_inv s" using reachable_inv [OF assms(1)] by simp
  have opened: "pty_opened s" using inv assms(2,3) by (auto simp: chan_inv_def split: if_splits)
  have branch: "running s' \<and> terminal_open s' \<and> term_at s' = term_at s" if "branch_step s s'" for s'
    using that assms(2,3)
    by cases (auto simp: branch_pty_def branch_opened_def branch_exec_def script_loop_def pump_begin_def script_write_def
        script_error_def pump_take_def pump_write_def pump_write_error_def pump_end_def pump_stdout_def pump_stderr_def
        branch_drain_def report_defs Let_def split: option.split list.split)
  have ev: "ch = AudioChan \<and> running s' \<and> terminal_open s' \<and> exec_sent s' = Some ok1"
    if "ch \<in> set (asked s)" "s' = ticker_event (EvSessionOpened ch nr nc ok1 ok2) s" for ch nr nc ok1 ok2 s'
  proof -
    have "ch = AudioChan" "\<exists>cmd. audio_command s = Some cmd"
      using inv opened assms(2) that(1) by (auto simp: chan_inv_def)
    with opened assms(2,3) that(2) show ?thesis
      by (auto simp: on_session_opened_def Let_def add_request_def report_defs)
  qed
  have "ticker_event EvSessionExit s = s" using assms(3) by (simp add: on_session_exit_def)
  moreover have "\<not> running (ticker_event EvSessionExit t)" if "\<not> terminal_open t" for t
    using that by (simp add: on_session_exit_def session_end_def)
  ultimately show ?thesis using branch ev by blast
qed

theorem terminal_outlives_helper_witness:
  "ticker_event EvSessionExit terminal_session = terminal_session"
  using terminal_outlives_helper [OF terminal_session_reachable]
  by (simp add: terminal_session_eq session_boot_def)

text \<open>The notice a crashed helper leaves on the small screen is one line of at most 238 bytes,
  whatever the helper wrote to its standard error; no more than 200 bytes of it are kept.\<close>

theorem crash_notice_is_one_line:
  assumes "session_reachable script s"
    and "branch_at s = BrPump p \<or> (\<exists>f rest. branch_at s = BrWriting f rest p)"
  shows "CHR 0x0a \<notin> set (helper_crash_notice (last_stderr_line p))
    \<and> length (helper_crash_notice (last_stderr_line p)) \<le> 238
    \<and> length (stderr_fragment p) \<le> 200 \<and> is_text (stderr_fragment p)"
proof -
  have "pump_ok p" using reachable_inv [OF assms(1)] assms(2) by auto
  then show ?thesis
    by (simp add: pump_ok_def line_ok_def MAX_STDERR_FRAGMENT_def helper_crash_notice_def)
qed

theorem crash_notice_is_one_line_witness:
  "\<exists>p. branch_at audio_session = BrPump p \<and> length (helper_crash_notice (last_stderr_line p)) \<le> 238"
  using crash_notice_is_one_line [OF audio_session_reachable] audio_session_pumps(1) by blast

end
