(* ===== verification/Delivery.thy ===== *)
theory Delivery
  imports PttTasks SshSession
begin

text \<open>
  Push-to-talk end to end: the tasks of \<open>src/mic.rs\<close> hand frames to the session of
  \<open>src/net.rs\<close>, whose audio channel the helper \<open>tools/picocalc-ptt\<close> reads.
\<close>

section \<open>Chunks are never empty\<close>

text \<open>An empty chunk would be an end mark on the wire.\<close>

fun event_samples :: "channel_event \<Rightarrow> i16 list" where
  "event_samples (Audio g xs) = xs"
| "event_samples (EndMark g) = []"

definition chunks_ok :: "ptt \<Rightarrow> bool" where
  "chunks_ok s \<longleftrightarrow> (\<forall>n xs. upload_at s = UpSend n xs \<longrightarrow> xs \<noteq> []) \<and> (\<forall>g. Audio g [] \<notin> set (sent s))"

lemma drained_chunk:
  assumes "ring_inv r" and "out \<noteq> []" and "ring_read r g out = (r', k, out')" and "0 < k"
  shows "take k out' \<noteq> []"
proof -
  let ?q = "dropWhile (\<lambda>x. fst x < g) (ring_items r)"
  have "k = min (length out) (length (takeWhile (\<lambda>x. fst x = g) ?q))" "out' = map snd (take k ?q) @ drop k out"
    using ring_read_correct [OF ring_inv_shape [OF assms(1)], where g = g and out = out] by (simp_all add: assms(3))
  moreover from this(1) assms(4) have "?q \<noteq> []" by (cases "?q = []") simp_all
  ultimately have "out' \<noteq> []" using assms(4) by (cases "take k ?q = []") auto
  with assms(4) show ?thesis by simp
qed

lemma chunks_ok_upload:
  assumes "upload_step s s'" and "counters_inv s" and "upload_ok s" and "chunks_ok s"
  shows "chunks_ok s'"
  using assms(1)
proof cases
  case (up_drain n ssh)
  obtain r k buf where r: "ring_read (pcm_ring s) n (upload_buf s) = (r, k, buf)" by (metis prod_cases3)
  have "ring_inv (pcm_ring s)" "upload_buf s \<noteq> []"
    using assms(2,3) up_drain(2) by (simp_all add: counters_inv_def upload_ok_def)
  then have "0 < k \<Longrightarrow> take k buf \<noteq> []" using drained_chunk r by blast
  with up_drain r assms(4) show ?thesis
    by (simp add: upload_drain_def chunks_ok_def Let_def)
next
  case (up_send n xs ok)
  with assms(4) show ?thesis by (auto simp: upload_send_def chunks_ok_def ptt_fail_def add_calls_def)
qed (use assms(4) in \<open>auto simp: chunks_ok_def upload_check_def upload_wake_start_def upload_serve_def
       upload_wake_def upload_end_def ptt_fail_def add_calls_def Let_def\<close>)

lemma reachable_chunks_ok: "ptt_reachable s \<Longrightarrow> presses s < 2 ^ 32 - 1 \<Longrightarrow> chunks_ok s"
proof (induction rule: ptt_reachable.induct)
  case at_boot
  show ?case by (simp add: chunks_ok_def ptt_init_def)
next
  case (by_step s s')
  have less: "presses s < 2 ^ 32 - 1" using presses_mono [OF by_step(2)] by_step(4) by simp
  note inv = reachable_counters [OF by_step(1) less] and up = reachable_upload_ok [OF by_step(1) less]
    and IH = by_step.IH [OF less]
  from by_step(2) show ?case
  proof cases
    case by_key
    then show ?thesis
      by cases (use IH in \<open>auto simp: chunks_ok_def start_recording_def start_signals_def stop_recording_def
          add_calls_def Let_def\<close>)
  next
    case by_capture
    with capture_frame IH show ?thesis by (simp add: chunks_ok_def)
  next
    case by_upload
    then show ?thesis using inv up IH by (rule chunks_ok_upload)
  next
    case by_session
    with IH show ?thesis by (simp add: chunks_ok_def)
  qed
qed

section \<open>From events to utterances\<close>

definition event_wire :: "channel_event \<Rightarrow> u8 list" where
  "event_wire e = wire_frame (event_samples e)"

text \<open>What a receiver hands over for a list of events, given the samples it holds already.\<close>

fun deliver :: "channel_event list \<Rightarrow> i16 list \<Rightarrow> i16 list list" where
  "deliver [] held = (if held \<noteq> [] then [held] else [])"
| "deliver (Audio g xs # evs) held = deliver evs (held @ xs)"
| "deliver (EndMark g # evs) held = (if held \<noteq> [] then [held] else []) @ deliver evs []"

fun longest :: "channel_event list \<Rightarrow> nat \<Rightarrow> nat" where
  "longest [] n = n"
| "longest (Audio g xs # evs) n = longest evs (n + length xs)"
| "longest (EndMark g # evs) n = max n (longest evs 0)"

lemma longest_ge: "n \<le> longest evs n"
  by (induction evs n rule: longest.induct) auto

lemma wire_frame_Nil: "wire_frame [] = END_OF_UTTERANCE"
  by (simp add: wire_frame_def END_OF_UTTERANCE_def LEN_PREFIX_BYTES_def u32_le_bytes_def numeral_eq_Suc)

lemma i16s_flush:
  "map i16s_of_bytes (if concat (map i16_le_bytes held) \<noteq> [] then [concat (map i16_le_bytes held)] else [])
     = (if held \<noteq> [] then [held] else [])"
proof -
  have "concat (map i16_le_bytes held) \<noteq> [] \<longleftrightarrow> held \<noteq> []"
    by (cases held) (simp_all add: i16_le_bytes_def)
  then show ?thesis by (simp only: i16s_of_concat list.map if_distrib [where f = "map i16s_of_bytes"] cong: if_cong)
qed

lemma read_events:
  assumes "\<forall>g. Audio g [] \<notin> set evs" and "longest evs (length held) * 2 \<le> limit" and "limit < 2 ^ 32"
  shows "map i16s_of_bytes (read_utterances limit (concat (map event_wire evs)) (concat (map i16_le_bytes held)) False)
     = deliver evs held"
  using assms(1,2)
proof (induction evs held rule: deliver.induct)
  case (1 held)
  have "read_utterances limit [] (concat (map i16_le_bytes held)) False
      = (if concat (map i16_le_bytes held) \<noteq> [] then [concat (map i16_le_bytes held)] else [])"
    by (subst read_utterances.simps) (simp add: Let_def)
  then show ?case by (simp only: list.map concat.simps i16s_flush deliver.simps)
next
  case (2 g xs evs held)
  have "length (held @ xs) * 2 \<le> limit"
    using 2(3) longest_ge [of "length (held @ xs)" evs] by simp
  then have "read_utterances limit (concat (map event_wire (Audio g xs # evs))) (concat (map i16_le_bytes held)) False
      = read_utterances limit (concat (map event_wire evs)) (concat (map i16_le_bytes (held @ xs))) False"
    using 2(2) assms(3) read_frame [of xs "concat (map i16_le_bytes held)" limit] by (auto simp: event_wire_def)
  with 2 show ?case by simp
next
  case (3 g evs held)
  have "read_utterances limit (concat (map event_wire (EndMark g # evs))) (concat (map i16_le_bytes held)) False
      = (if concat (map i16_le_bytes held) \<noteq> [] then [concat (map i16_le_bytes held)] else [])
        @ read_utterances limit (concat (map event_wire evs)) [] False"
    using read_end [of limit "concat (map event_wire evs)"] by (simp add: event_wire_def wire_frame_Nil)
  with 3 show ?case by (simp only: map_append i16s_flush deliver.simps) simp
qed

section \<open>One buffer per recording\<close>

text \<open>The recordings of a list of events, in order; \<open>finished\<close>: each has its end mark.\<close>

definition recordings :: "channel_event list \<Rightarrow> u32 list" where
  "recordings evs = remdups_adj (map event_gen evs)"

definition finished :: "channel_event list \<Rightarrow> bool" where
  "finished evs \<longleftrightarrow> (\<forall>g xs. Audio g xs \<in> set evs \<longrightarrow> EndMark g \<in> set evs)"

lemma audio_of_Cons [simp]:
  "audio_of h (Audio g xs # evs) = (if g = h then xs else []) @ audio_of h evs"
  "audio_of h (EndMark g # evs) = audio_of h evs"
  by (simp_all add: audio_of_def)

lemma audio_of_none: "\<forall>e \<in> set evs. event_gen e \<noteq> g \<Longrightarrow> audio_of g evs = []"
proof (induction evs)
  case (Cons e evs)
  then show ?case by (cases e) simp_all
qed simp

lemma set_recordings [simp]: "set (recordings evs) = event_gen ` set evs"
  by (simp add: recordings_def)

lemma audio_step:
  assumes "sorted_wrt event_before (Audio g xs # evs)" and "finished (Audio g xs # evs)"
  shows "sorted_wrt event_before evs" and "finished evs" and "evs \<noteq> []" and "event_gen (hd evs) = g"
    and "recordings (Audio g xs # evs) = recordings evs"
proof -
  have mark: "EndMark g \<in> set evs" using assms(2) by (auto simp: finished_def)
  then obtain e es where evs: "evs = e # es" by (cases evs) auto
  show "sorted_wrt event_before evs" "finished evs" "evs \<noteq> []"
    using assms evs by (auto simp: finished_def)
  have "g \<le> event_gen e" using assms(1) evs by (auto simp: event_before_def)
  moreover have "event_gen e \<le> g"
    using assms(1) mark evs by (auto simp: event_before_def)
  ultimately show g: "event_gen (hd evs) = g" using evs by simp
  then show "recordings (Audio g xs # evs) = recordings evs" using evs by (simp add: recordings_def)
qed

lemma mark_step:
  assumes "sorted_wrt event_before (EndMark g # evs)" and "finished (EndMark g # evs)"
  shows "sorted_wrt event_before evs" and "finished evs" and "\<forall>e \<in> set evs. event_gen e \<noteq> g"
    and "recordings (EndMark g # evs) = g # recordings evs"
proof -
  show later: "\<forall>e \<in> set evs. event_gen e \<noteq> g" using assms(1) by (auto simp: event_before_def)
  show "sorted_wrt event_before evs" using assms(1) by simp
  have "event_gen (Audio h xs) = h" for h xs by simp
  with later assms(2) show "finished evs" unfolding finished_def by (metis event_gen.simps(1) channel_event.inject(2) set_ConsD channel_event.distinct(1) list.set_intros(2))
  show "recordings (EndMark g # evs) = g # recordings evs"
    using later by (cases evs) (auto simp: recordings_def)
qed

lemma deliver_finished:
  assumes "sorted_wrt event_before evs" and "finished evs" and "evs \<noteq> []"
  shows "deliver evs held = filter (\<lambda>xs. xs \<noteq> [])
    (map (\<lambda>g. (if g = event_gen (hd evs) then held else []) @ audio_of g evs) (recordings evs))"
  using assms
proof (induction evs held rule: deliver.induct)
  case (2 g xs evs held)
  note st = audio_step [OF 2(2,3)]
  have "deliver (Audio g xs # evs) held = filter (\<lambda>xs. xs \<noteq> [])
      (map (\<lambda>h. (if h = g then held @ xs else []) @ audio_of h evs) (recordings evs))"
    using 2(1) [OF st(1-3)] st(4) by simp
  also have "map (\<lambda>h. (if h = g then held @ xs else []) @ audio_of h evs) (recordings evs)
      = map (\<lambda>h. (if h = g then held else []) @ audio_of h (Audio g xs # evs)) (recordings evs)"
    by (rule map_cong) auto
  finally show ?case using st(5) by simp
next
  case (3 g evs held)
  note st = mark_step [OF 3(2,3)]
  have rest: "deliver evs [] = filter (\<lambda>xs. xs \<noteq> []) (map (\<lambda>h. audio_of h evs) (recordings evs))"
    using 3(1) [OF st(1,2)] by (cases "evs = []") (simp_all add: recordings_def)
  have "map (\<lambda>h. audio_of h evs) (recordings evs)
      = map (\<lambda>h. (if h = g then held else []) @ audio_of h (EndMark g # evs)) (recordings evs)"
    using st(3) by (intro map_cong) auto
  with rest st(3,4) show ?case by (simp add: audio_of_none)
qed simp

lemma longest_finished:
  assumes "sorted_wrt event_before evs" and "finished evs" and "\<forall>g. length (audio_of g evs) \<le> B"
    and "n \<le> B" and "evs \<noteq> [] \<Longrightarrow> n + length (audio_of (event_gen (hd evs)) evs) \<le> B"
  shows "longest evs n \<le> B"
  using assms
proof (induction evs n rule: longest.induct)
  case (2 g xs evs n)
  note st = audio_step [OF 2(2,3)]
  have len: "length (audio_of h evs) \<le> B" for h
  proof -
    have "length (audio_of h (Audio g xs # evs)) \<le> B" using 2(4) by blast
    then show ?thesis by simp
  qed
  have "n + length xs + length (audio_of g evs) \<le> B" using 2(6) by simp
  then show ?case using 2(1) [OF st(1,2)] len st(4) by simp
next
  case (3 g evs n)
  note st = mark_step [OF 3(2,3)]
  have "\<forall>h. length (audio_of h evs) \<le> B" using 3(4) by simp
  then show ?case using 3(1) [OF st(1,2)] 3(5) by simp
qed simp

section \<open>An example\<close>

text \<open>A key pressed and released at once, up to the drain of the upload task: the recording is
  its end mark.\<close>

definition tapped :: ptt where
  "tapped = stop_recording (capture_start default_mic_settings 1 (capture_wake (upload_serve 1 (upload_check 1
     (start_signals (start_recording (ptt_init\<lparr>audio_up := True, session_up := True\<rparr>)))))))"

definition tap_sent :: ptt where
  "tap_sent = upload_end True 1 True (upload_drain 1 True
     (capture_finish 1 (capture_begin default_mic_settings (replicate 800 0)) tapped))"

lemmas tap_defs = start_recording_def start_signals_def add_calls_def upload_check_def upload_serve_def
  emit_pending_notices_def capture_wake_def capture_start_def stop_recording_def ptt_init_def Let_def

lemma tapped_fields:
  "recording tapped = 0" "current_gen tapped = 1" "ended_gen tapped = 0" "presses tapped = 1" "sent tapped = []"
  "upload_at tapped = UpDrain 1 True" "pcm_ring tapped = ring_new RING_SAMPLES"
  "capture_at tapped = CapLoop 1 (capture_begin default_mic_settings (replicate 800 0))"
  "captured tapped = (\<lambda>_. [])" "audio_up tapped"
  by (simp_all add: tapped_def tap_defs)

lemma tapped_reachable: "ptt_reachable tapped"
proof -
  let ?s0 = "ptt_init\<lparr>audio_up := True, session_up := True\<rparr>"
  let ?s1 = "start_recording ?s0" let ?s2 = "start_signals ?s1" let ?s3 = "upload_check 1 ?s2"
  let ?s4 = "upload_serve 1 ?s3" let ?s5 = "capture_wake ?s4" let ?s6 = "capture_start default_mic_settings 1 ?s5"
  have "ptt_reachable ?s0" by (rule ptt_reachable.by_step [OF at_boot by_session])
  then have "ptt_reachable ?s1"
    by (rule ptt_reachable.by_step [OF _ by_key [OF key_press]]) (simp add: ptt_init_def)
  then have "ptt_reachable ?s2"
    by (rule ptt_reachable.by_step [OF _ by_key [OF key_signal]]) (simp add: tap_defs)
  then have "ptt_reachable ?s3"
    by (rule ptt_reachable.by_step [OF _ by_upload [OF up_check]]) (simp add: tap_defs)
  then have "ptt_reachable ?s4"
    by (rule ptt_reachable.by_step [OF _ by_upload [OF up_serve]]) (simp add: tap_defs)
  then have "ptt_reachable ?s5"
    by (rule ptt_reachable.by_step [OF _ by_capture [OF cap_wake]]) (simp_all add: tap_defs)
  then have "ptt_reachable ?s6"
    by (rule ptt_reachable.by_step [OF _ by_capture [OF cap_start]]) (simp_all add: tap_defs)
  then have "ptt_reachable (stop_recording ?s6)"
    by (rule ptt_reachable.by_step [OF _ by_key [OF key_release]]) (simp_all add: tap_defs)
  then show ?thesis by (simp add: tapped_def)
qed

lemma read_empty_ring: "ring_read (ring_new n) g out = (ring_new n, 0, out)"
  by (simp add: ring_read_def discard_older.simps copy_run.simps ring_new_def)

lemma tap_sent_fields: "sent tap_sent = [EndMark 1]" "presses tap_sent = 1" "captured tap_sent = (\<lambda>_. [])"
  by (simp_all add: tap_sent_def upload_end_def upload_drain_def capture_finish_def tapped_fields read_empty_ring
      utterance_ended_def Let_def)

lemma tap_sent_reachable: "ptt_reachable tap_sent"
proof -
  let ?l = "capture_begin default_mic_settings (replicate 800 0)"
  let ?f = "capture_finish 1 ?l tapped"
  have "ptt_reachable ?f"
  proof (rule ptt_reachable.by_step [OF tapped_reachable by_capture [OF cap_pass]])
    show "capture_at tapped = CapLoop 1 ?l" by (simp add: tapped_fields)
    show "capture_pass 0 0 (replicate DMA_RING_WORDS 0) False 1 ?l tapped = Some ?f"
      by (simp add: capture_pass_def tapped_fields)
  qed (simp_all add: DMA_RING_WORDS_def)
  then have "ptt_reachable (upload_drain 1 True ?f)"
    by (rule ptt_reachable.by_step [OF _ by_upload [OF up_drain]]) (simp add: capture_finish_def tapped_fields)
  then show ?thesis
    unfolding tap_sent_def
    by (rule ptt_reachable.by_step [OF _ by_upload [OF up_end]])
       (simp add: upload_drain_def capture_finish_def tapped_fields read_empty_ring utterance_ended_def Let_def)
qed

text \<open>The session that takes and writes the end mark.\<close>

definition mark_frame :: audio_frame where
  "mark_frame = \<lparr>frame_len = 4, frame_buf = replicate WIRE_FRAME_BYTES 0\<rparr>"

definition mark_session :: session where
  "mark_session =
     pump_write 4 mark_frame (payload mark_frame) \<lparr>stderr_done = False, last_stderr_line = [], stderr_fragment = []\<rparr>
       (pump_take mark_frame [] \<lparr>stderr_done = False, last_stderr_line = [], stderr_fragment = []\<rparr> (frame_queued mark_frame
         (fst (ssh_audio_end_of_utterance audio_session))))"

lemma make_mark: "make_frame [] = Some mark_frame"
proof -
  have size: "WIRE_FRAME_BYTES = 4 + 800" by (simp add: WIRE_FRAME_BYTES_def frame_bytes_def LEN_PREFIX_BYTES_def)
  have "wire_frame [] = replicate 4 0" by (simp add: wire_frame_Nil END_OF_UTTERANCE_def LEN_PREFIX_BYTES_def)
  then have "wire_frame [] @ drop 4 (replicate WIRE_FRAME_BYTES 0) = replicate WIRE_FRAME_BYTES 0"
    "length (wire_frame []) = 4"
    unfolding size by (simp_all only: drop_replicate replicate_add [symmetric] length_replicate) simp
  then show ?thesis using size by (simp add: make_frame_def encode_frame_spec mark_frame_def)
qed

lemma payload_mark: "length (payload mark_frame) = 4"
  by (simp add: payload_def mark_frame_def WIRE_FRAME_BYTES_def frame_bytes_def LEN_PREFIX_BYTES_def)

lemma audio_session_idle: "sending audio_session = None" "audio_queue audio_session = []" "running audio_session"
  "accepted audio_session = []"
  by (simp_all add: audio_session_def branch_exec_def sends_script_def pump_begin_def branch_opened_def add_reports_def
      terminal_session_eq session_boot_def branch_pty_def on_session_opened_def add_request_def Let_def)

lemma mark_taken:
  "fst (ssh_audio_end_of_utterance audio_session) = audio_session\<lparr>sending := Some mark_frame\<rparr>"
  by (simp add: ssh_audio_end_of_utterance_def queue_audio_frame_def audio_session_pumps make_mark)

lemma mark_session_fields:
  "running mark_session" "accepted mark_session = [mark_frame]" "audio_queue mark_session = []"
  "branch_at mark_session = BrPump \<lparr>stderr_done = False, last_stderr_line = [], stderr_fragment = []\<rparr>"
  "audio_command mark_session = Some (Configured ''ptt'')"
  by (simp_all add: mark_session_def mark_taken pump_write_def pump_take_def frame_queued_def payload_mark
      audio_session_idle audio_session_pumps Let_def)

lemma mark_session_reachable: "session_reachable [] mark_session"
proof -
  let ?p = "\<lparr>stderr_done = False, last_stderr_line = [], stderr_fragment = []\<rparr>"
  let ?s1 = "fst (ssh_audio_end_of_utterance audio_session)"
  let ?s2 = "frame_queued mark_frame ?s1" let ?s3 = "pump_take mark_frame [] ?p ?s2"
  have "session_reachable [] ?s1"
    by (rule ss_step [OF audio_session_reachable se_sender [OF sn_end]]) (simp add: audio_session_idle)
  then have "session_reachable [] ?s2"
    by (rule ss_step [OF _ se_sender [OF sn_queued]]) (simp_all add: mark_taken audio_session_idle AUDIO_QUEUE_DEPTH_def)
  then have "session_reachable [] ?s3"
    by (rule ss_step [OF _ se_branch [OF _ br_take]])
       (simp_all add: mark_taken audio_session_idle audio_session_pumps frame_queued_def)
  then show ?thesis
    unfolding mark_session_def
    by (rule ss_step [OF _ se_branch [OF _ br_write]])
       (simp_all add: mark_taken audio_session_idle pump_take_def frame_queued_def)
qed

section \<open>The whole way\<close>

lemma recordings_sorted:
  "sorted_wrt event_before evs \<Longrightarrow> finished evs \<Longrightarrow> sorted_wrt (<) (recordings evs)"
proof (induction evs)
  case (Cons e evs)
  show ?case
  proof (cases e)
    case (Audio g xs)
    note st = audio_step [OF Cons.prems [unfolded Audio]]
    show ?thesis using Cons.IH [OF st(1,2)] st(5) Audio by simp
  next
    case (EndMark g)
    note st = mark_step [OF Cons.prems [unfolded EndMark]]
    show ?thesis
      using Cons.IH [OF st(1,2)] Cons.prems(1) st(4) EndMark by (auto simp: event_before_def)
  qed
qed (simp add: recordings_def)

lemma payloads_of_events:
  "list_all2 (\<lambda>f e. make_frame (event_samples e) = Some f) fs evs \<Longrightarrow> map payload fs = map event_wire evs"
  by (induction rule: list_all2_induct) (simp_all add: make_frame_SomeD event_wire_def)



end
