(* ===== verification/Glyphs.thy ===== *)
theory Glyphs
  imports RustStd
begin

text \<open>
  The glyphs the font lacks, drawn by hand (\<open>terminal-model/src/glyphs.rs\<close>). A drawing is the
  list of calls it makes to embedded-graphics, in order; \<open>x\<close>, \<open>y\<close>, \<open>w\<close> and \<open>h\<close> are the cell.
\<close>

section \<open>Drawing\<close>

type_synonym point = "int \<times> int"

text \<open>Lines, arcs, rectangles and circles with a stroke width, filled shapes, pixels and text.\<close>

datatype 'c draw_op =
    OpLine 'c nat point point
  | OpArc 'c nat point nat int int
  | OpFill 'c point nat nat
  | OpRect 'c nat point nat nat
  | OpDisc 'c point nat
  | OpCircle 'c nat point nat
  | OpTriangle 'c point point point
  | OpPixel 'c point
  | OpText rstr point 'c 'c

definition is_box_char :: "rchar \<Rightarrow> bool" where
  "is_box_char c \<longleftrightarrow> 0x2500 \<le> c \<and> c \<le> 0x259f"

definition is_symbol_char :: "rchar \<Rightarrow> bool" where
  "is_symbol_char c \<longleftrightarrow>
     c \<in> {0x276f, 0x2022, 0x25cf, 0x25cb, 0x2026, 0x2190, 0x2191, 0x2192, 0x2193, 0x2733, 0x23f5, 0x2014,
          0x2013, 0x2722, 0x2736, 0x273b, 0x273d}"

definition shade_on :: "nat \<Rightarrow> nat \<Rightarrow> nat \<Rightarrow> bool" where
  "shade_on density px py =
     (if density = 1 then px mod 2 = 0 \<and> py mod 2 = 0
      else if density = 2 then (px + py) mod 2 = 0
      else if density = 3 then \<not> (px mod 2 = 0 \<and> py mod 2 = 0)
      else False)"

definition draw_shade :: "'c \<Rightarrow> int \<Rightarrow> int \<Rightarrow> nat \<Rightarrow> nat \<Rightarrow> nat \<Rightarrow> 'c draw_op list" where
  "draw_shade color x y w h density =
     concat (map (\<lambda>py. map (\<lambda>px. OpPixel color (x + int px, y + int py)) (filter (\<lambda>px. shade_on density px py) [0..<w]))
       [0..<h])"

section \<open>Box drawing\<close>

text \<open>The closures of \<open>draw_box_char\<close>: half-segments from the centre, and double strokes.\<close>

definition seg_left :: "'c \<Rightarrow> int \<Rightarrow> int \<Rightarrow> nat \<Rightarrow> nat \<Rightarrow> 'c draw_op" where
  "seg_left color x y w h = OpLine color 1 (x, y + int (h div 2)) (x + int (w div 2), y + int (h div 2))"

definition seg_right :: "'c \<Rightarrow> int \<Rightarrow> int \<Rightarrow> nat \<Rightarrow> nat \<Rightarrow> 'c draw_op" where
  "seg_right color x y w h = OpLine color 1 (x + int (w div 2), y + int (h div 2)) (x + int w, y + int (h div 2))"

definition seg_up :: "'c \<Rightarrow> int \<Rightarrow> int \<Rightarrow> nat \<Rightarrow> nat \<Rightarrow> 'c draw_op" where
  "seg_up color x y w h = OpLine color 1 (x + int (w div 2), y) (x + int (w div 2), y + int (h div 2))"

definition seg_down :: "'c \<Rightarrow> int \<Rightarrow> int \<Rightarrow> nat \<Rightarrow> nat \<Rightarrow> 'c draw_op" where
  "seg_down color x y w h = OpLine color 1 (x + int (w div 2), y + int (h div 2)) (x + int (w div 2), y + int h)"

definition vert_double :: "'c \<Rightarrow> int \<Rightarrow> int \<Rightarrow> nat \<Rightarrow> nat \<Rightarrow> bool \<Rightarrow> 'c draw_op list" where
  "vert_double color x y w h down =
     (let cx = x + int (w div 2); cy = y + int (h div 2);
          (y0, y1) = (if down then (cy, y + int h) else (y, cy))
      in [OpLine color 1 (cx - 1, y0) (cx - 1, y1), OpLine color 1 (cx + 1, y0) (cx + 1, y1)])"

definition horiz_double :: "'c \<Rightarrow> int \<Rightarrow> int \<Rightarrow> nat \<Rightarrow> nat \<Rightarrow> bool \<Rightarrow> 'c draw_op list" where
  "horiz_double color x y w h right =
     (let cx = x + int (w div 2); cy = y + int (h div 2);
          (x0, x1) = (if right then (cx, x + int w) else (x, cx))
      in [OpLine color 1 (x0, cy - 1) (x1, cy - 1), OpLine color 1 (x0, cy + 1) (x1, cy + 1)])"

text \<open>\<open>None\<close> is the panic of \<open>w - 4\<close> or \<open>h - 4\<close> below zero.\<close>

definition draw_box_char :: "'c \<Rightarrow> rchar \<Rightarrow> int \<Rightarrow> int \<Rightarrow> nat \<Rightarrow> nat \<Rightarrow> 'c draw_op list option" where
  "draw_box_char color c x y w h =
     (let cx = x + int (w div 2); cy = y + int (h div 2); wi = int w; hi = int h;
          line = (\<lambda>x0 y0 x1 y1. OpLine color 1 (x0, y0) (x1, y1));
          heavy_line = (\<lambda>x0 y0 x1 y1. OpLine color 2 (x0, y0) (x1, y1));
          arc = (\<lambda>px py from_deg. OpArc color 1 (px, py) w from_deg 90);
          left = seg_left color x y w h; right = seg_right color x y w h;
          up = seg_up color x y w h; down = seg_down color x y w h
      in if c = 0x2500 then Some [line x cy (x + wi) cy]
         else if c = 0x2502 then Some [line cx y cx (y + hi)]
         else if c = 0x250c then Some [right, down]
         else if c = 0x2510 then Some [left, down]
         else if c = 0x2514 then Some [right, up]
         else if c = 0x2518 then Some [left, up]
         else if c = 0x251c then Some [up, down, right]
         else if c = 0x2524 then Some [up, down, left]
         else if c = 0x252c then Some [left, right, down]
         else if c = 0x2534 then Some [left, right, up]
         else if c = 0x253c then Some [left, right, up, down]
         else if c = 0x2501 then Some [heavy_line x cy (x + wi) cy]
         else if c = 0x2503 then Some [heavy_line cx y cx (y + hi)]
         else if c = 0x2588 then Some [OpFill color (x, y) w h]
         else if c = 0x2580 then Some [OpFill color (x, y) w (h div 2)]
         else if c = 0x2584 then Some [OpFill color (x, y + int (h div 2)) w (h - h div 2)]
         else if c = 0x2591 then Some (draw_shade color x y w h 1)
         else if c = 0x2592 then Some (draw_shade color x y w h 2)
         else if c = 0x2593 then Some (draw_shade color x y w h 3)
         else if c = 0x256d then
           Some [arc (x + wi div 2) (y + hi div 2) 180, line cx (cy + hi div 2) cx (y + hi),
                 line (cx + wi div 2) cy (x + wi) cy]
         else if c = 0x256e then
           Some [arc (x - wi div 2) (y + hi div 2) 270, line cx (cy + hi div 2) cx (y + hi),
                 line x cy (cx - wi div 2) cy]
         else if c = 0x2570 then
           Some [arc (x + wi div 2) (y - hi div 2) 90, line cx y cx (cy - hi div 2),
                 line (cx + wi div 2) cy (x + wi) cy]
         else if c = 0x256f then
           Some [arc (x - wi div 2) (y - hi div 2) 0, line cx y cx (cy - hi div 2),
                 line x cy (cx - wi div 2) cy]
         else if c = 0x2550 then Some [line x (cy - 1) (x + wi) (cy - 1), line x (cy + 1) (x + wi) (cy + 1)]
         else if c = 0x2551 then Some [line (cx - 1) y (cx - 1) (y + hi), line (cx + 1) y (cx + 1) (y + hi)]
         else if c = 0x2554 then Some (vert_double color x y w h True @ horiz_double color x y w h True)
         else if c = 0x2557 then Some (vert_double color x y w h True @ horiz_double color x y w h False)
         else if c = 0x255a then Some (vert_double color x y w h False @ horiz_double color x y w h True)
         else if c = 0x255d then Some (vert_double color x y w h False @ horiz_double color x y w h False)
         else if 4 \<le> w \<and> 4 \<le> h then Some [OpRect color 1 (x + 2, y + 2) (w - 4) (h - 4)]
         else None)"

section \<open>Symbols\<close>

definition filled_circle :: "'c \<Rightarrow> int \<Rightarrow> int \<Rightarrow> nat \<Rightarrow> 'c draw_op" where
  "filled_circle color cx cy diameter =
     (let d = max diameter 2 in OpDisc color (cx - int (d div 2), cy - int (d div 2)) d)"

definition outline_circle :: "'c \<Rightarrow> int \<Rightarrow> int \<Rightarrow> nat \<Rightarrow> 'c draw_op" where
  "outline_circle color cx cy diameter =
     (let d = max diameter 2 in OpCircle color 1 (cx - int (d div 2), cy - int (d div 2)) d)"

definition draw_arrow :: "'c \<Rightarrow> point \<Rightarrow> point \<Rightarrow> point \<Rightarrow> point \<Rightarrow> 'c draw_op list" where
  "draw_arrow color tail tip head1 head2 = [OpLine color 1 tail tip, OpLine color 1 tip head1, OpLine color 1 tip head2]"

definition draw_cross :: "'c \<Rightarrow> int \<Rightarrow> int \<Rightarrow> nat \<Rightarrow> nat \<Rightarrow> nat \<Rightarrow> 'c draw_op list" where
  "draw_cross color x y w h stroke =
     [OpLine color stroke (x + 1, y + int (h div 2)) (x + int w - 1, y + int (h div 2)),
      OpLine color stroke (x + int (w div 2), y + 1) (x + int (w div 2), y + int h - 1)]"

definition draw_burst :: "'c \<Rightarrow> int \<Rightarrow> int \<Rightarrow> nat \<Rightarrow> nat \<Rightarrow> nat \<Rightarrow> 'c draw_op list" where
  "draw_burst color x y w h stroke =
     draw_cross color x y w h stroke
     @ [OpLine color stroke (x + 2, y + 2) (x + int w - 2, y + int h - 2),
        OpLine color stroke (x + int w - 2, y + 2) (x + 2, y + int h - 2)]"

definition ellipsis_dots :: "'c \<Rightarrow> int \<Rightarrow> int \<Rightarrow> nat \<Rightarrow> nat \<Rightarrow> 'c draw_op list" where
  "ellipsis_dots color x y w h =
     (let dot_y = y + (int h * 4) div 5
      in concat (map (\<lambda>i. let dot_x = x + (int w * (2 * int i + 1)) div 6
                          in [OpPixel color (dot_x, dot_y), OpPixel color (dot_x + 1, dot_y)]) [0..<3]))"

definition draw_symbol_char :: "'c \<Rightarrow> rchar \<Rightarrow> int \<Rightarrow> int \<Rightarrow> nat \<Rightarrow> nat \<Rightarrow> 'c draw_op list" where
  "draw_symbol_char color c x y w h =
     (let cx = x + int (w div 2); cy = y + int (h div 2); wi = int w; hi = int h;
          line = (\<lambda>x0 y0 x1 y1 stroke. OpLine color stroke (x0, y0) (x1, y1))
      in if c = 0x276f then
           [line (x + wi div 4) (y + hi div 4) (x + (wi * 3) div 4) cy 2,
            line (x + (wi * 3) div 4) cy (x + wi div 4) (y + (hi * 3) div 4) 2]
         else if c = 0x2022 then [filled_circle color cx cy (h div 3)]
         else if c = 0x25cf then [filled_circle color cx cy ((h * 2) div 3)]
         else if c = 0x25cb then [outline_circle color cx cy ((h * 2) div 3)]
         else if c = 0x2026 then ellipsis_dots color x y w h
         else if c = 0x2190 then
           draw_arrow color (x + wi - 2, cy) (x + 2, cy) (x + 2 + wi div 3, cy - hi div 4) (x + 2 + wi div 3, cy + hi div 4)
         else if c = 0x2192 then
           draw_arrow color (x + 2, cy) (x + wi - 2, cy) (x + wi - 2 - wi div 3, cy - hi div 4)
             (x + wi - 2 - wi div 3, cy + hi div 4)
         else if c = 0x2191 then
           draw_arrow color (cx, y + hi - 2) (cx, y + 2) (cx - wi div 4, y + 2 + hi div 3) (cx + wi div 4, y + 2 + hi div 3)
         else if c = 0x2193 then
           draw_arrow color (cx, y + 2) (cx, y + hi - 2) (cx - wi div 4, y + hi - 2 - hi div 3)
             (cx + wi div 4, y + hi - 2 - hi div 3)
         else if c = 0x2733 then draw_burst color x y w h 1
         else if c = 0x23f5 then
           [OpTriangle color (x + wi div 4, y + hi div 4) (x + wi div 4, y + (hi * 3) div 4) (x + (wi * 3) div 4, cy)]
         else if c = 0x2014 then [line (x + 1) cy (x + wi - 1) cy 1]
         else if c = 0x2013 then [line (x + wi div 4) cy (x + (wi * 3) div 4) cy 1]
         else if c = 0x2722 then draw_cross color x y w h 1
         else if c = 0x2736 then
           [line (x + 1) cy (x + wi - 1) cy 1, line (cx - wi div 4) (y + 1) (cx + wi div 4) (y + hi - 1) 1,
            line (cx + wi div 4) (y + 1) (cx - wi div 4) (y + hi - 1) 1]
         else if c = 0x273b then draw_burst color x y w h 1
         else if c = 0x273d then draw_burst color x y w h 2
         else [])"

section \<open>Where a glyph reaches\<close>

text \<open>The corners of what a call covers, stroke width aside; an arc is given by its circle.\<close>

fun op_corners :: "'c draw_op \<Rightarrow> point list" where
  "op_corners (OpLine c s p q) = [p, q]"
| "op_corners (OpArc c s p d a b) = [p, (fst p + int d, snd p + int d)]"
| "op_corners (OpFill c p w h) = (if w = 0 \<or> h = 0 then [] else [p, (fst p + int w - 1, snd p + int h - 1)])"
| "op_corners (OpRect c s p w h) = (if w = 0 \<or> h = 0 then [] else [p, (fst p + int w - 1, snd p + int h - 1)])"
| "op_corners (OpDisc c p d) = [p, (fst p + int d - 1, snd p + int d - 1)]"
| "op_corners (OpCircle c s p d) = [p, (fst p + int d - 1, snd p + int d - 1)]"
| "op_corners (OpTriangle c p q r) = [p, q, r]"
| "op_corners (OpPixel c p) = [p]"
| "op_corners (OpText t p f b) = [p]"

definition in_cell :: "int \<Rightarrow> int \<Rightarrow> nat \<Rightarrow> nat \<Rightarrow> point \<Rightarrow> bool" where
  "in_cell x y w h p \<longleftrightarrow> x \<le> fst p \<and> fst p \<le> x + int w \<and> y \<le> snd p \<and> snd p \<le> y + int h"

definition draws_in_cell :: "int \<Rightarrow> int \<Rightarrow> nat \<Rightarrow> nat \<Rightarrow> 'c draw_op list \<Rightarrow> bool" where
  "draws_in_cell x y w h ops \<longleftrightarrow> (\<forall>op \<in> set ops. \<forall>p \<in> set (op_corners op). in_cell x y w h p)"

lemmas segment_defs = seg_left_def seg_right_def seg_up_def seg_down_def vert_double_def horiz_double_def

lemma shade_in_cell: "draws_in_cell x y w h (draw_shade color x y w h d)"
  by (auto simp: draws_in_cell_def draw_shade_def in_cell_def)

lemma draws_in_cell_simps [simp]:
  "draws_in_cell x y w h [] \<longleftrightarrow> True"
  "draws_in_cell x y w h (op # ops) \<longleftrightarrow> (\<forall>p \<in> set (op_corners op). in_cell x y w h p) \<and> draws_in_cell x y w h ops"
  "draws_in_cell x y w h (ops @ ops') \<longleftrightarrow> draws_in_cell x y w h ops \<and> draws_in_cell x y w h ops'"
  by (auto simp: draws_in_cell_def)

text \<open>The characters of the block that are lines alone, in the order of the match.\<close>

lemma segments_in_cell:
  assumes "2 \<le> w" and "2 \<le> h"
  shows "draws_in_cell x y w h [seg_left color x y w h]" "draws_in_cell x y w h [seg_right color x y w h]"
    "draws_in_cell x y w h [seg_up color x y w h]" "draws_in_cell x y w h [seg_down color x y w h]"
    "draws_in_cell x y w h (vert_double color x y w h down)" "draws_in_cell x y w h (horiz_double color x y w h right)"
  using assms by (auto simp: segment_defs in_cell_def Let_def zdiv_int split: prod.splits if_splits)

text \<open>The match arms one at a time, keeping only the equation of the arm.\<close>

lemma arm_option: "(b \<Longrightarrow> pred_option P ops) \<Longrightarrow> pred_option P ops' \<Longrightarrow> pred_option P (if b then ops else ops')"
  by simp

lemma arm_some:
  "\<exists>ops. r = Some ops \<and> ops \<noteq> [] \<Longrightarrow> \<exists>ops. r' = Some ops \<and> ops \<noteq> [] \<Longrightarrow>
   \<exists>ops. (if b then r else r') = Some ops \<and> ops \<noteq> []"
  by simp

lemma arm: "(b \<Longrightarrow> P ops) \<Longrightarrow> (\<not> b \<Longrightarrow> P ops') \<Longrightarrow> P (if b then ops else ops')"
  by simp

lemma box_in_cell:
  assumes "2 \<le> w" and "2 \<le> h" and "c \<notin> {0x256d, 0x256e, 0x256f, 0x2570}" and "draw_box_char color c x y w h = Some ops"
  shows "draws_in_cell x y w h ops"
proof -
  have ih: "1 \<le> int w div 2" "int w div 2 + 1 \<le> int w" "1 \<le> int h div 2" "int h div 2 + 1 \<le> int h"
    using assms(1,2) by linarith+
  then have ih': "0 < int w div 2" "0 < int h div 2" "int w div 2 \<le> int w" "int h div 2 \<le> int h"
    "int w div 2 - 1 \<le> int w" "int h div 2 - 1 \<le> int h" by linarith+
  note seg = segments_in_cell [OF assms(1,2), simplified, unfolded in_cell_def]
  have "pred_option (draws_in_cell x y w h) (draw_box_char color c x y w h)"
    unfolding draw_box_char_def Let_def
    by (intro arm_option) (use assms(3) in \<open>simp_all add: ih ih' seg shade_in_cell in_cell_def zdiv_int of_nat_diff\<close>)
  with assms(4) show ?thesis by simp
qed

lemma shade_nonempty: "2 \<le> w \<Longrightarrow> 2 \<le> h \<Longrightarrow> d \<in> {1, 2, 3} \<Longrightarrow> draw_shade color x y w h d \<noteq> []"
proof -
  assume *: "2 \<le> w" "2 \<le> h" "d \<in> {1, 2, 3}"
  have "\<exists>py < h. \<exists>px < w. shade_on d px py"
  proof (cases "d = 3")
    case True
    with * show ?thesis by (intro exI [of _ 1] conjI) (auto simp: shade_on_def)
  next
    case False
    with * show ?thesis by (intro exI [of _ 0] conjI) (auto simp: shade_on_def)
  qed
  then show ?thesis by (fastforce simp: draw_shade_def filter_empty_conv)
qed

lemma doubles_drawn: "vert_double color x y w h down \<noteq> []" "horiz_double color x y w h right \<noteq> []"
  by (simp_all add: vert_double_def horiz_double_def Let_def split: prod.splits)

lemma box_drawn:
  assumes "4 \<le> w" and "4 \<le> h"
  shows "\<exists>ops. draw_box_char color c x y w h = Some ops \<and> ops \<noteq> []"
proof -
  have "2 \<le> w" "2 \<le> h" using assms by simp_all
  then have shade_drawn: "draw_shade color x y w h 1 \<noteq> []" "draw_shade color x y w h 2 \<noteq> []" "draw_shade color x y w h 3 \<noteq> []"
    by (simp_all add: shade_nonempty)
  show ?thesis
    unfolding draw_box_char_def Let_def
    apply (subst if_P [OF conjI [OF assms]])
    apply (intro arm_some)
    apply (simp_all only: option.inject simp_thms)
    apply (simp_all only: list.distinct)
    apply (simp_all only: doubles_drawn append_is_Nil_conv shade_drawn simp_thms)
    done
qed

lemma cell_parts:
  assumes "4 \<le> (w::int)"
  shows "0 \<le> w div 4" "w div 4 \<le> w div 2" "w div 2 + w div 4 \<le> w" "w * 3 div 4 \<le> w" "0 \<le> w * 3 div 4"
    "0 \<le> w div 3" "2 + w div 3 \<le> w" "w div 4 \<le> w" "w * 4 div 5 \<le> w" "0 \<le> w * 4 div 5" "1 \<le> w div 2"
    "w div 2 + 1 \<le> w" "w * 5 div 6 + 1 \<le> w" "w div 6 + 1 \<le> w" "w * 3 div 6 + 1 \<le> w" "0 \<le> w * 5 div 6"
    "0 \<le> w * 3 div 6" "0 \<le> w div 6" "w div 2 \<le> w" "w div 6 \<le> w" "w * 5 div 6 \<le> w"
    "- 2 \<le> w div 3" "0 \<le> w + (- 2 - w div 3)" "w div 2 - w div 4 \<le> w" "w div 2 - 1 \<le> w"
  using assms by linarith+

lemma bullet_size:
  assumes "4 \<le> (w::int)" and "4 \<le> h" and "h \<le> 3 * w" and "d = max (h div 3) 2"
  shows "d div 2 \<le> w div 2" "d div 2 \<le> h div 2" "w div 2 + d \<le> w + 1 + d div 2" "h div 2 + d \<le> h + 1 + d div 2"
proof -
  have "2 \<le> d" "d \<le> w" "d \<le> h" using assms by auto
  then show "d div 2 \<le> w div 2" "d div 2 \<le> h div 2" "w div 2 + d \<le> w + 1 + d div 2" "h div 2 + d \<le> h + 1 + d div 2"
    by presburger+
qed

lemma bullet_in_cell:
  assumes "4 \<le> w" and "4 \<le> h" and "h \<le> 3 * w"
  shows "draws_in_cell x y w h [filled_circle color (x + int (w div 2)) (y + int (h div 2)) (h div 3)]"
proof -
  define d where "d = max (h div 3) 2"
  have d: "int d = max (int h div 3) 2" by (simp add: d_def zdiv_int)
  have "4 \<le> int w" "4 \<le> int h" "int h \<le> 3 * int w" using assms by simp_all
  note size = bullet_size [OF this d]
  have "2 \<le> int d" using d by simp
  then have "0 \<le> int d div 2" "int d div 2 < int d" "0 \<le> int w div 2" "0 \<le> int h div 2" by linarith+
  with size have "int w div 2 - int d div 2 \<le> int w" "int h div 2 - int d div 2 \<le> int h"
    "0 < int w div 2 + (int d - int d div 2)" "0 < int h div 2 + (int d - int d div 2)" by linarith+
  with size show ?thesis by (simp add: filled_circle_def Let_def in_cell_def zdiv_int d_def [symmetric])
qed

lemma symbol_in_cell:
  assumes "4 \<le> w" and "4 \<le> h" and "h \<le> 3 * w" and "is_symbol_char c" and "c \<notin> {0x25cf, 0x25cb}"
  shows "draws_in_cell x y w h (draw_symbol_char color c x y w h)"
proof -
  have wh: "4 \<le> int w" "4 \<le> int h" using assms(1,2) by simp_all
  note parts = cell_parts [OF wh(1)] cell_parts [OF wh(2)]
  note ops = draw_symbol_char_def Let_def in_cell_def draw_arrow_def draw_cross_def draw_burst_def zdiv_int
  have dots: "draws_in_cell x y w h (ellipsis_dots color x y w h)"
    by (simp add: ellipsis_dots_def in_cell_def numeral_3_eq_3 Let_def parts)
  consider "c = 0x276f" | "c = 0x2022" | "c = 0x2026" | "c = 0x2190" | "c = 0x2192" | "c = 0x2191" | "c = 0x2193"
    | "c = 0x2733 \<or> c = 0x273b \<or> c = 0x273d" | "c = 0x23f5" | "c = 0x2014" | "c = 0x2013" | "c = 0x2722" | "c = 0x2736"
    using assms(4,5) by (auto simp: is_symbol_char_def)
  then show ?thesis
  proof cases
    case 1 then show ?thesis by (simp add: ops parts)
  next
    case 2 with bullet_in_cell [OF assms(1-3)] show ?thesis by (simp add: draw_symbol_char_def Let_def)
  next
    case 3 with dots show ?thesis by (simp add: draw_symbol_char_def Let_def)
  next
    case 4 with wh show ?thesis by (simp add: ops parts)
  next
    case 5 with wh show ?thesis by (simp add: ops parts)
  next
    case 6 with wh show ?thesis by (simp add: ops parts)
  next
    case 7 with wh show ?thesis by (simp add: ops parts)
  next
    case 8 with wh show ?thesis by (elim disjE; simp add: ops parts)
  next
    case 9 with wh show ?thesis by (simp add: ops parts)
  next
    case 10 with wh show ?thesis by (simp add: ops parts)
  next
    case 11 with wh show ?thesis by (simp add: ops parts)
  next
    case 12 with wh show ?thesis by (simp add: ops parts)
  next
    case 13 with wh show ?thesis by (simp add: ops parts)
  qed
qed

lemma figures_drawn:
  "draw_arrow color p q r t \<noteq> []" "draw_cross color x y w h n \<noteq> []" "draw_burst color x y w h n \<noteq> []"
  "ellipsis_dots color x y w h \<noteq> []"
  by (simp_all add: draw_arrow_def draw_cross_def draw_burst_def ellipsis_dots_def Let_def numeral_3_eq_3)

lemma symbol_drawn: "is_symbol_char c \<Longrightarrow> draw_symbol_char color c x y w h \<noteq> []"
  unfolding draw_symbol_char_def Let_def
  by (intro arm [where P = "\<lambda>ops. ops \<noteq> []"])
    ((rule figures_drawn list.distinct(2))+, simp only: is_symbol_char_def insert_iff empty_iff simp_thms)

lemma box_not_symbol: "is_box_char c \<Longrightarrow> \<not> is_symbol_char c"
  by (auto simp: is_box_char_def is_symbol_char_def)

section \<open>Properties\<close>

text \<open>The rounded corners and the two circles are the exceptions below; every other glyph stays in its cell.\<close>

definition round_glyph :: "rchar \<Rightarrow> bool" where
  "round_glyph c \<longleftrightarrow> c \<in> {0x256d, 0x256e, 0x256f, 0x2570, 0x25cf, 0x25cb}"

text \<open>every character the terminal draws by hand paints something, with no panic, and none of its strokes leaves the
  cell it belongs to, except the rounded corners and the two circles, in every cell of at least four pixels each way
  and at most three times as high as wide (all seven fonts).\<close>

theorem glyph_stays_in_cell:
  assumes "4 \<le> w" and "4 \<le> h" and "h \<le> 3 * w" and "\<not> round_glyph c"
  shows "(is_box_char c \<longrightarrow> (\<exists>ops. draw_box_char color c x y w h = Some ops \<and> ops \<noteq> [] \<and> draws_in_cell x y w h ops)) \<and>
    (is_symbol_char c \<longrightarrow> draw_symbol_char color c x y w h \<noteq> [] \<and>
       draws_in_cell x y w h (draw_symbol_char color c x y w h)) \<and>
    \<not> (is_box_char c \<and> is_symbol_char c)"
proof -
  have not_round: "c \<notin> {0x256d, 0x256e, 0x256f, 0x2570}" "c \<notin> {0x25cf, 0x25cb}"
    using assms(4) unfolding round_glyph_def by blast+
  have "2 \<le> w" "2 \<le> h" using assms(1,2) by simp_all
  note box = box_in_cell [OF this not_round(1)]
  obtain ops where "draw_box_char color c x y w h = Some ops" "ops \<noteq> []"
    using box_drawn [OF assms(1,2), of color c x y] by (elim exE conjE)
  moreover from box [OF this(1)] have "draws_in_cell x y w h ops" .
  moreover have "draws_in_cell x y w h (draw_symbol_char color c x y w h)" if "is_symbol_char c"
    by (rule symbol_in_cell [OF assms(1-3) that not_round(2)])
  ultimately show ?thesis by (intro conjI impI exI [of _ ops] symbol_drawn) (auto dest: box_not_symbol)
qed

theorem glyph_stays_in_cell_witness:
  "draw_symbol_char () 0x2192 0 0 6 11 =
     [OpLine () 1 (2, 5) (4, 5), OpLine () 1 (4, 5) (2, 3), OpLine () 1 (4, 5) (2, 7)] \<and>
   draws_in_cell 0 0 6 11 (draw_symbol_char () 0x2192 0 0 6 11)"
proof -
  have "draws_in_cell 0 0 6 11 (draw_symbol_char () 0x2192 0 0 6 11)"
    using glyph_stays_in_cell [where w = 6 and h = 11 and c = "0x2192" and x = 0 and y = 0 and color = "()"] by (simp add: round_glyph_def is_symbol_char_def)
  moreover have "draw_symbol_char () 0x2192 0 0 6 11 =
     [OpLine () 1 (2, 5) (4, 5), OpLine () 1 (4, 5) (2, 3), OpLine () 1 (4, 5) (2, 7)]"
    by (simp add: draw_symbol_char_def draw_arrow_def)
  ultimately show ?thesis by blast
qed

text \<open>The exceptions. A full circle two thirds of the cell high is wider than a cell of the smaller fonts, which are
  nearly twice as high as wide: seven pixels at 6 by 11. The arcs of the lower rounded corners are measured from the top
  by half the height and are as wide as the cell, so in a cell higher than wide they end above the middle line that the
  neighbouring strokes use, where the arcs of the upper corners begin on it.\<close>

lemma circle_wider_than_cell:
  "int w < int h * 2 div 3 \<Longrightarrow> c = 0x25cf \<Longrightarrow>
   \<exists>p d. draw_symbol_char color c x y w h = [OpDisc color p d] \<and> w < d"
  by (simp add: draw_symbol_char_def filled_circle_def Let_def)

lemma lower_corners_miss_the_line:
  assumes "w < 2 * (h div 2)" and "c = 0x2570 \<or> c = 0x256f"
  shows "\<exists>px py deg ops. draw_box_char color c x y w h = Some (OpArc color 1 (px, py) w deg 90 # ops) \<and>
    py + int w < y + int (h div 2)"
proof -
  have "int w < 2 * (int h div 2)" using assms(1) by (metis of_nat_less_iff of_nat_mult of_nat_numeral zdiv_int)
  with assms(2) show ?thesis by (elim disjE) (simp_all add: draw_box_char_def Let_def zdiv_int)
qed

lemma upper_corners_on_the_line:
  assumes "c = 0x256d \<or> c = 0x256e"
  shows "\<exists>px deg ops. draw_box_char color c x y w h = Some (OpArc color 1 (px, y + int (h div 2)) w deg 90 # ops)"
  using assms by (elim disjE) (simp_all add: draw_box_char_def Let_def zdiv_int)

end
