(* ===== verification/Painter.thy ===== *)
theory Painter
  imports Glyphs TextWrap
begin

text \<open>
  The screen painter (\<open>src/screen.rs\<close>): \<open>update_display\<close> turns the rows of the model that are marked
  dirty into draw calls and clears their marks. An update is the list of what it paints, in order: a
  cleared panel, one entry for each cell with its calls, the cursor's block and the overlay. The font's
  baseline, the colours of the pixel format and the glyph renderer of embedded-graphics are parameters.
\<close>

section \<open>Cells\<close>

text \<open>What one update paints, grouped by cell: column and row, and the calls.\<close>

datatype 'c paint =
    PClear 'c
  | PCell nat nat "'c draw_op list"
  | PCursor nat nat "'c draw_op"
  | POverlay "'c draw_op list"

definition cell_width :: "mono_font \<Rightarrow> nat" where
  "cell_width f = character_width f + character_spacing f"

definition fill_rect :: "point \<Rightarrow> nat \<Rightarrow> nat \<Rightarrow> 'c \<Rightarrow> 'c draw_op" where
  "fill_rect p w h color = OpFill color p w h"

text \<open>\<open>Text::new(s, point, text_style(font, fg, bg)).draw\<close>.\<close>

definition draw_text :: "rstr \<Rightarrow> point \<Rightarrow> 'c \<Rightarrow> 'c \<Rightarrow> 'c draw_op" where
  "draw_text t p color back = OpText t p color back"

text \<open>The colours of a cell: reversed before the bold foreground is brightened.\<close>

definition cell_colors :: "'c pixelcolor \<Rightarrow> attrs \<Rightarrow> 'c \<times> 'c" where
  "cell_colors px a =
     (let f0 = to_rgb565 px (fg a) False; b0 = to_rgb565 px (bg a) True;
          (f1, b1) = (if reverse a then (b0, f0) else (f0, b0))
      in (if bold a \<and> f1 = px_light_gray px then px_white px else f1, b1))"

text \<open>The body of the loop over a row's characters; \<open>None\<close> is a panic inside a glyph.\<close>

definition draw_cell :: "'c pixelcolor \<Rightarrow> nat \<Rightarrow> mono_font \<Rightarrow> nat \<Rightarrow> nat \<Rightarrow> rchar \<Rightarrow> attrs \<Rightarrow> 'c draw_op list option" where
  "draw_cell px baseline f x y c a =
     (let w = cell_width f; h = character_height f;
          col_x = int (x * w); row_y = int (y * h);
          (front, back) = cell_colors px a
      in do {
        glyph \<leftarrow> (if c = 32 then Some []
                  else if is_box_char c then draw_box_char front c col_x row_y w h
                  else if is_symbol_char c then Some (draw_symbol_char front c col_x row_y w h)
                  else Some [draw_text (encode_utf8 c) (col_x, row_y + int baseline) front back]);
        Some (fill_rect (col_x, row_y) w h back # glyph
              @ (if underline a then [fill_rect (col_x, row_y + int h - 1) w 1 front] else []))
      })"

fun paint_cells ::
    "'c pixelcolor \<Rightarrow> nat \<Rightarrow> mono_font \<Rightarrow> nat \<Rightarrow> nat \<Rightarrow> (rchar \<times> attrs) list \<Rightarrow> 'c paint list option" where
  "paint_cells px baseline f y x [] = Some []"
| "paint_cells px baseline f y x ((c, a) # cs) =
     (if x * cell_width f \<ge> SCREEN_WIDTH then Some []
      else do {
        ops \<leftarrow> draw_cell px baseline f x y c a;
        ps \<leftarrow> paint_cells px baseline f y (Suc x) cs;
        Some (PCell x y ops # ps)
      })"

section \<open>Rows\<close>

text \<open>The line a row of the panel shows: one of the scrollback or one of the screen.\<close>

datatype line_ref = InScrollback nat | InLines nat

definition shown_ref :: "screen \<Rightarrow> nat \<Rightarrow> line_ref" where
  "shown_ref s y =
     (if viewport_offset s > 0 then
        let total_len = length (scrollback s) + rows s;
            view_start = sat_sub (sat_sub total_len (rows s)) (viewport_offset s);
            abs_idx = view_start + y
        in if abs_idx < length (scrollback s) then InScrollback abs_idx
           else InLines (abs_idx - length (scrollback s))
      else InLines y)"

fun get_line :: "screen \<Rightarrow> line_ref \<Rightarrow> screen_line option" where
  "get_line s (InScrollback i) = vec_get (scrollback s) i"
| "get_line s (InLines i) = vec_get (lines s) i"

fun put_line :: "screen \<Rightarrow> line_ref \<Rightarrow> screen_line \<Rightarrow> screen" where
  "put_line s (InScrollback i) l = s\<lparr>scrollback := (scrollback s)[i := l]\<rparr>"
| "put_line s (InLines i) l = s\<lparr>lines := (lines s)[i := l]\<rparr>"

text \<open>The loop over the rows: a clean row is skipped, a row below the panel ends it.\<close>

fun paint_rows :: "'c pixelcolor \<Rightarrow> nat \<Rightarrow> nat list \<Rightarrow> screen \<Rightarrow> (screen \<times> 'c paint list) option" where
  "paint_rows px baseline [] s = Some (s, [])"
| "paint_rows px baseline (y # ys) s = do {
     l \<leftarrow> get_line s (shown_ref s y);
     if \<not> dirty l \<and> \<not> full_repaint s then paint_rows px baseline ys s
     else if y * character_height (font s) \<ge> SCREEN_HEIGHT then Some (s, [])
     else do {
       ps \<leftarrow> paint_cells px baseline (font s) y 0 (zip (chars l) (line_attrs l));
       (s', ps') \<leftarrow> paint_rows px baseline ys (put_line s (shown_ref s y) (l\<lparr>dirty := False\<rparr>));
       Some (s', ps @ ps')
     }
   }"

section \<open>The overlay\<close>

definition draw_level_meter :: "'c pixelcolor \<Rightarrow> int \<Rightarrow> int \<Rightarrow> nat \<Rightarrow> nat \<Rightarrow> nat \<Rightarrow> 'c draw_op list" where
  "draw_level_meter px x y w h level =
     (let filled = level_meter_filled w level
      in fill_rect (x, y) w h (px_black px)
         # (if filled > 0
            then [fill_rect (x, y) filled h (if level \<ge> LEVEL_METER_FULL_SCALE then px_red px else px_green px)]
            else []))"

definition draw_overlay ::
    "'c pixelcolor \<Rightarrow> 'c \<Rightarrow> nat \<Rightarrow> screen \<Rightarrow> rstr \<Rightarrow> bool \<Rightarrow> nat \<Rightarrow> 'c draw_op list" where
  "draw_overlay px slate baseline s t recording level =
     (let b = overlay_layout s (str_chars t) recording;
          text_height = character_height (font s);
          x = box_x b; y = box_y b
      in [fill_rect (x, y) (box_w b) (box_h b) slate, OpRect (px_white px) 1 (x, y) (box_w b) (box_h b)]
         @ map (\<lambda>(i, l). draw_text (str_of_chars l)
                  (x + PADDING_X, y + PADDING_Y + int baseline + int (i * text_height)) (px_white px) slate)
             (enumerate 0 (box_lines b))
         @ (if recording
            then draw_level_meter px (x + PADDING_X)
                   (y + PADDING_Y + int (text_height * length (box_lines b)) + 6)
                   (box_w b - nat PADDING_X * 2) LEVEL_METER_HEIGHT level
            else []))"

section \<open>An update\<close>

text \<open>The parameters of an update: the colours of the cells, the overlay's \<open>CSS_DARK_SLATE_GRAY\<close> and the font's
  baseline.\<close>

record 'c display =
  colors :: "'c pixelcolor"
  slate_gray :: 'c
  baseline :: nat

text \<open>\<open>update_display\<close>; \<open>recording\<close> and \<open>level\<close> are what \<open>mic::is_recording\<close> and \<open>mic::level\<close> return.\<close>

definition paint_cursor :: "'c display \<Rightarrow> screen \<Rightarrow> 'c paint list" where
  "paint_cursor d s =
     (let w = cell_width (font s); h = character_height (font s);
          cx = cursor_x s * w; cy = cursor_y s * h
      in if cx < SCREEN_WIDTH \<and> cy < SCREEN_HEIGHT
         then [PCursor (cursor_x s) (cursor_y s) (fill_rect (int cx, int cy) w h (px_white (colors d)))] else [])"

definition paint_overlay :: "'c display \<Rightarrow> screen \<Rightarrow> bool \<Rightarrow> nat \<Rightarrow> 'c paint list" where
  "paint_overlay d s recording level =
     (case overlay s of
        None \<Rightarrow> []
      | Some t \<Rightarrow> [POverlay (draw_overlay (colors d) (slate_gray d) (baseline d) s t recording level)])"

definition update_display :: "'c display \<Rightarrow> screen \<Rightarrow> bool \<Rightarrow> nat \<Rightarrow> (screen \<times> 'c paint list) option" where
  "update_display d s recording level = do {
     (s1, ps) \<leftarrow> paint_rows (colors d) (baseline d) [0..<rows s] s;
     let s2 = s1\<lparr>full_repaint := False\<rparr>;
     Some (s2, (if full_repaint s then [PClear (px_black (colors d))] else []) @ ps
               @ paint_cursor d s2 @ paint_overlay d s2 recording level)
   }"

text \<open>\<open>Screen::update_display\<close>, which the painter task calls every 200 ms.\<close>

definition screen_update_display ::
    "'c display \<Rightarrow> screen \<Rightarrow> u64 \<Rightarrow> bool \<Rightarrow> nat \<Rightarrow> (screen \<times> 'c paint list) option" where
  "screen_update_display d s now recording level = update_display d (tick_overlay s now) recording level"

text \<open>The notices and the battery read-out, shown for two and three seconds.\<close>

definition OVERLAY_DURATION :: u64 where "OVERLAY_DURATION = 3000"
definition NOTICE_DURATION :: u64 where "NOTICE_DURATION = 2000"

definition show_battery_overlay :: "screen \<Rightarrow> rstr \<Rightarrow> u64 \<Rightarrow> screen" where
  "show_battery_overlay s t now = show_timed_overlay s t now OVERLAY_DURATION"

definition show_notice :: "screen \<Rightarrow> rstr \<Rightarrow> u64 \<Rightarrow> screen" where
  "show_notice s t now = show_timed_overlay s t now NOTICE_DURATION"

definition cls_command :: "screen \<Rightarrow> screen" where
  "cls_command s = screen_clear s"

section \<open>The panel\<close>

text \<open>
  What the panel shows, cell by cell: nothing since it was cleared, the calls of a cell, or the cursor's
  block; and the overlay on top of it.
\<close>

datatype 'c cell_view = Blank | Shows "'c draw_op list" | Block

record 'c panel =
  pcell :: "nat \<Rightarrow> nat \<Rightarrow> 'c cell_view"
  pover :: "'c draw_op list option"

definition put_cell :: "'c panel \<Rightarrow> nat \<Rightarrow> nat \<Rightarrow> 'c cell_view \<Rightarrow> 'c panel" where
  "put_cell p x y v = p\<lparr>pcell := \<lambda>i j. if i = x \<and> j = y then v else pcell p i j\<rparr>"

fun apply_paint :: "'c panel \<Rightarrow> 'c paint \<Rightarrow> 'c panel" where
  "apply_paint p (PClear c) = \<lparr>pcell = \<lambda>_ _. Blank, pover = None\<rparr>"
| "apply_paint p (PCell x y ops) = put_cell p x y (Shows ops)"
| "apply_paint p (PCursor x y op) = put_cell p x y Block"
| "apply_paint p (POverlay ops) = p\<lparr>pover := Some ops\<rparr>"

lemma put_cell_simps [simp]:
  "pcell (put_cell p x y v) i j = (if i = x \<and> j = y then v else pcell p i j)"
  "pover (put_cell p x y v) = pover p"
  by (simp_all add: put_cell_def)

text \<open>The cells of the grid that lie on the panel, and a font whose glyphs draw.\<close>

definition on_panel :: "screen \<Rightarrow> nat \<Rightarrow> nat \<Rightarrow> bool" where
  "on_panel s x y \<longleftrightarrow> x < cols s \<and> y < rows s \<and> x * cell_width (font s) < SCREEN_WIDTH
     \<and> y * character_height (font s) < SCREEN_HEIGHT"

definition paintable :: "mono_font \<Rightarrow> bool" where
  "paintable f \<longleftrightarrow> 4 \<le> cell_width f \<and> 4 \<le> character_height f"

definition shown_line :: "screen \<Rightarrow> nat \<Rightarrow> screen_line" where
  "shown_line s y = the (get_line s (shown_ref s y))"

definition cell_view :: "'c display \<Rightarrow> mono_font \<Rightarrow> screen_line \<Rightarrow> nat \<Rightarrow> nat \<Rightarrow> 'c cell_view" where
  "cell_view d f l x y =
     Shows (the (draw_cell (colors d) (baseline d) f x y (chars l ! x) (line_attrs l ! x)))"

definition content :: "'c display \<Rightarrow> screen \<Rightarrow> nat \<Rightarrow> nat \<Rightarrow> 'c cell_view" where
  "content d s x y = cell_view d (font s) (shown_line s y) x y"

section \<open>One row\<close>

lemma draw_cell_total: fixes px :: "'a pixelcolor" shows "paintable f \<Longrightarrow> \<exists>ops. draw_cell px b f x y c a = Some ops"
proof -
  assume "paintable f"
  then have box: "draw_box_char front c col_x row_y (cell_width f) (character_height f) \<noteq> None" for front :: 'a and col_x row_y
    using box_drawn [of "cell_width f" "character_height f" front c col_x row_y] by (auto simp: paintable_def)
  obtain front rear where "cell_colors px a = (front, rear)" by (cases "cell_colors px a")
  then show ?thesis
    using box [of front "int (x * cell_width f)" "int (y * character_height f)"]
    by (auto simp: draw_cell_def Let_def not_None_eq)
qed

lemma paint_cells_total:
  assumes "paintable f"
  shows "\<exists>ps. paint_cells px b f y x cs = Some ps"
proof (induction cs arbitrary: x)
  case (Cons ca cs)
  obtain c a where ca: "ca = (c, a)" by (cases ca)
  obtain ops where "draw_cell px b f x y c a = Some ops" using draw_cell_total [OF assms] by blast
  moreover obtain ps where "paint_cells px b f y (Suc x) cs = Some ps" using Cons.IH by blast
  ultimately show ?case by (simp add: ca)
qed simp

lemma paint_cells_shows:
  "paint_cells px b f y x cs = Some ps \<Longrightarrow>
     pover (foldl apply_paint p ps) = pover p \<and>
     pcell (foldl apply_paint p ps) i j =
       (if j = y \<and> x \<le> i \<and> i < x + length cs \<and> i * cell_width f < SCREEN_WIDTH
        then Shows (the (draw_cell px b f i y (fst (cs ! (i - x))) (snd (cs ! (i - x))))) else pcell p i j)"
proof (induction cs arbitrary: x ps p)
  case (Cons ca cs)
  obtain c a where ca: "ca = (c, a)" by (cases ca)
  show ?case
  proof (cases "x * cell_width f \<ge> SCREEN_WIDTH")
    case True
    then have "SCREEN_WIDTH \<le> i * cell_width f" if "x \<le> i" using that by (meson le_trans mult_le_mono1)
    with True Cons.prems show ?thesis by (auto simp: ca)
  next
    case False
    with Cons.prems obtain ops ps' where ps: "draw_cell px b f x y c a = Some ops"
      "paint_cells px b f y (Suc x) cs = Some ps'" "ps = PCell x y ops # ps'"
      by (auto simp: ca split: bind_splits)
    show ?thesis
      using Cons.IH [OF ps(2), of "put_cell p x y (Shows ops)"] False ps(1)
      by (auto simp: ps(3) ca Suc_le_eq nth_Cons' not_le)
  qed
qed auto

section \<open>The rows\<close>

definition rows_shown :: "screen \<Rightarrow> bool" where
  "rows_shown s \<longleftrightarrow> (\<forall>y < rows s. \<exists>l. get_line s (shown_ref s y) = Some l \<and> line_ok (cols s) l)"

lemma rows_shown_inv: "screen_inv ly s \<Longrightarrow> rows_shown s"
  by (auto simp: rows_shown_def shown_ref_def vec_get_def screen_inv_def list_all_length sat_sub_def Let_def)

lemma shown_ref_inj: "shown_ref s y = shown_ref s y' \<Longrightarrow> y = y'"
  by (auto simp: shown_ref_def Let_def split: if_splits)

lemma shown_ref_put [simp]: "shown_ref (put_line s r l) y = shown_ref s y"
  by (cases r) (simp_all add: shown_ref_def Let_def)

lemma put_line_frame [simp]:
  "rows (put_line s r l) = rows s" "cols (put_line s r l) = cols s" "font (put_line s r l) = font s"
  "full_repaint (put_line s r l) = full_repaint s" "overlay (put_line s r l) = overlay s"
  "cursor_x (put_line s r l) = cursor_x s" "cursor_y (put_line s r l) = cursor_y s"
  "viewport_offset (put_line s r l) = viewport_offset s" "overlay_deadline_ms (put_line s r l) = overlay_deadline_ms s"
  by (cases r; simp)+

lemma get_put_line:
  "get_line s r = Some l0 \<Longrightarrow> get_line (put_line s r l) r' = (if r' = r then Some l else get_line s r')"
  by (cases r; cases r') (auto simp: vec_get_def split: if_splits)

lemma shown_line_put:
  "get_line s (shown_ref s k) = Some l0 \<Longrightarrow>
     shown_line (put_line s (shown_ref s k) l) y = (if y = k then l else shown_line s y)"
  by (auto simp: shown_line_def get_put_line dest: shown_ref_inj)

lemma rows_shown_put:
  "rows_shown s \<Longrightarrow> get_line s (shown_ref s k) = Some l0 \<Longrightarrow> line_ok (cols s) l \<Longrightarrow>
     rows_shown (put_line s (shown_ref s k) l)"
  by (auto simp: rows_shown_def get_put_line)

lemma screen_inv_put:
  "screen_inv ly s \<Longrightarrow> line_ok (cols s) l \<Longrightarrow> screen_inv ly (put_line s r l)"
  by (cases r) (auto simp: screen_inv_def list_all_iff dest!: subsetD [OF set_update_subset_insert])

text \<open>A row is painted by an update when it is marked or everything is.\<close>

definition to_paint :: "screen \<Rightarrow> nat \<Rightarrow> bool" where
  "to_paint s y \<longleftrightarrow> dirty (shown_line s y) \<or> full_repaint s"

text \<open>
  What the row loop does from row \<open>k\<close> on: it keeps everything but the marks, clears those of the rows on the
  panel, and draws the rows that need it.
\<close>

definition rows_same :: "screen \<Rightarrow> screen \<Rightarrow> bool" where
  "rows_same s s' \<longleftrightarrow>
     rows s' = rows s \<and> cols s' = cols s \<and> font s' = font s \<and> full_repaint s' = full_repaint s \<and> overlay s' = overlay s
     \<and> cursor_x s' = cursor_x s \<and> cursor_y s' = cursor_y s \<and> viewport_offset s' = viewport_offset s
     \<and> overlay_deadline_ms s' = overlay_deadline_ms s \<and> (\<forall>ly. screen_inv ly s \<longrightarrow> screen_inv ly s')"

definition cleaned :: "nat \<Rightarrow> screen \<Rightarrow> nat \<Rightarrow> screen_line" where
  "cleaned k s y =
     (if k \<le> y \<and> y < rows s \<and> y * character_height (font s) < SCREEN_HEIGHT
      then (shown_line s y)\<lparr>dirty := False\<rparr> else shown_line s y)"

definition drawn :: "'c display \<Rightarrow> nat \<Rightarrow> screen \<Rightarrow> 'c panel \<Rightarrow> nat \<Rightarrow> nat \<Rightarrow> 'c cell_view" where
  "drawn d k s p x y = (if k \<le> y \<and> on_panel s x y \<and> to_paint s y then content d s x y else pcell p x y)"

definition rows_painted :: "'c display \<Rightarrow> nat \<Rightarrow> screen \<Rightarrow> screen \<Rightarrow> 'c panel \<Rightarrow> 'c panel \<Rightarrow> bool" where
  "rows_painted d k s s' p p' \<longleftrightarrow>
     rows_same s s' \<and> (\<forall>y. shown_line s' y = cleaned k s y) \<and> pover p' = pover p \<and> pcell p' = drawn d k s p"

lemma rows_painted_none:
  assumes "\<And>y. k \<le> y \<Longrightarrow> y < rows s \<Longrightarrow> SCREEN_HEIGHT \<le> y * character_height (font s)"
  shows "rows_painted d k s s p p"
proof -
  have "cleaned k s y = shown_line s y" "drawn d k s p x y = pcell p x y" for x y
    using assms [of y] by (auto simp: cleaned_def drawn_def on_panel_def)
  then show ?thesis by (simp add: rows_painted_def rows_same_def fun_eq_iff)
qed

lemma rows_painted_skip:
  assumes "rows_painted d (Suc k) s s' p p'" and "\<not> to_paint s k"
  shows "rows_painted d k s s' p p'"
proof -
  have clean: "(shown_line s k)\<lparr>dirty := False\<rparr> = shown_line s k"
    using assms(2) by (cases "shown_line s k") (simp add: to_paint_def)
  have "cleaned k s y = cleaned (Suc k) s y \<and> drawn d k s p x y = drawn d (Suc k) s p x y" for x y
    using assms(2) clean by (cases "y = k") (auto simp: cleaned_def drawn_def Suc_le_eq le_less)
  with assms(1) show ?thesis by (simp add: rows_painted_def fun_eq_iff)
qed

lemma rows_painted_row:
  assumes "get_line s (shown_ref s k) = Some l" and "k < rows s" and "to_paint s k"
    and "k * character_height (font s) < SCREEN_HEIGHT" and "line_ok (cols s) l"
    and "paint_cells (colors d) (baseline d) (font s) k 0 (zip (chars l) (line_attrs l)) = Some ps"
    and "rows_painted d (Suc k) (put_line s (shown_ref s k) (l\<lparr>dirty := False\<rparr>)) s' (foldl apply_paint p ps) p'"
  shows "rows_painted d k s s' p p'"
proof -
  let ?s = "put_line s (shown_ref s k) (l\<lparr>dirty := False\<rparr>)"
  have line: "shown_line s k = l" using assms(1) by (simp add: shown_line_def)
  note put = shown_line_put [OF assms(1), of "l\<lparr>dirty := False\<rparr>"]
  have row: "pcell (foldl apply_paint p ps) x y = (if y = k \<and> on_panel s x y then content d s x y else pcell p x y)" for x y
    using paint_cells_shows [OF assms(6), of p x y] assms(2,4,5)
    by (auto simp: on_panel_def content_def cell_view_def line line_ok_def)
  have le: "y \<noteq> k \<Longrightarrow> Suc k \<le> y \<longleftrightarrow> k \<le> y" for y by auto
  have "cleaned (Suc k) ?s y = cleaned k s y" for y
    using assms(2,4) by (cases "y = k") (simp_all add: cleaned_def put line le)
  moreover have "drawn d (Suc k) ?s (foldl apply_paint p ps) x y = drawn d k s p x y" for x y
  proof (cases "y = k")
    case True
    with assms(3) show ?thesis by (simp add: drawn_def row)
  next
    case False
    then show ?thesis
      by (auto simp: drawn_def row on_panel_def to_paint_def content_def put le)
  qed
  moreover have "rows_same ?s s' \<Longrightarrow> rows_same s s'"
    using screen_inv_put [OF _ , of _ s "l\<lparr>dirty := False\<rparr>"] assms(5) by (simp add: rows_same_def)
  ultimately show ?thesis
    using assms(7) paint_cells_shows [OF assms(6), of p] by (simp add: rows_painted_def fun_eq_iff)
qed

lemma paint_rows_spec:
  assumes "paintable (font s)" and "rows_shown s" and "k \<le> rows s"
  shows "\<exists>s' ps. paint_rows (colors d) (baseline d) [k..<rows s] s = Some (s', ps) \<and>
    rows_painted d k s s' p (foldl apply_paint p ps)"
  using assms
proof (induction "rows s - k" arbitrary: k s p)
  case 0
  then have "rows_painted d k s s p p"
    by (intro rows_painted_none) simp
  with 0 show ?case by simp
next
  case (Suc n)
  have n: "n = rows s - Suc k" using Suc.hyps(2) by simp
  from Suc have k: "k < rows s" "[k..<rows s] = k # [Suc k..<rows s]" by (simp_all add: upt_conv_Cons)
  obtain l where l: "get_line s (shown_ref s k) = Some l" "line_ok (cols s) l"
    using Suc.prems(2) k(1) by (auto simp: rows_shown_def)
  then have line: "shown_line s k = l" by (simp add: shown_line_def)
  show ?case
  proof (cases "to_paint s k")
    case False
    then have "\<not> dirty l \<and> \<not> full_repaint s" by (simp add: to_paint_def line)
    moreover obtain s' ps where "paint_rows (colors d) (baseline d) [Suc k..<rows s] s = Some (s', ps)"
      "rows_painted d (Suc k) s s' p (foldl apply_paint p ps)"
      using Suc.hyps(1) [OF n Suc.prems(1,2)] k(1) by (meson Suc_leI)
    ultimately show ?thesis using rows_painted_skip [OF _ False] by (auto simp: k(2) l(1))
  next
    case paint: True
    then have d: "\<not> (\<not> dirty l \<and> \<not> full_repaint s)" by (auto simp: to_paint_def line)
    show ?thesis
    proof (cases "k * character_height (font s) \<ge> SCREEN_HEIGHT")
      case True
      then have "rows_painted d k s s p p" by (intro rows_painted_none) (meson le_trans mult_le_mono1)
      with True d show ?thesis by (auto simp: k(2) l(1))
    next
      case False
      let ?s = "put_line s (shown_ref s k) (l\<lparr>dirty := False\<rparr>)"
      obtain ps where ps: "paint_cells (colors d) (baseline d) (font s) k 0 (zip (chars l) (line_attrs l)) = Some ps"
        using paint_cells_total [OF Suc.prems(1)] by blast
      have "rows_shown ?s" using Suc.prems(2) l by (intro rows_shown_put) simp_all
      then obtain s' ps' where tail: "paint_rows (colors d) (baseline d) [Suc k..<rows s] ?s = Some (s', ps')"
        "rows_painted d (Suc k) ?s s' (foldl apply_paint p ps) (foldl apply_paint (foldl apply_paint p ps) ps')"
        using Suc.hyps(1) [of ?s "Suc k" "foldl apply_paint p ps"] n Suc.prems(1) k(1)
        by (metis Suc_leI put_line_frame(1,3))
      have "rows_painted d k s s' p (foldl apply_paint p (ps @ ps'))"
        using rows_painted_row [OF l(1) k(1) paint _ l(2) ps tail(2)] False by simp
      with False d ps tail(1) show ?thesis by (auto simp: k(2) l(1))
    qed
  qed
qed

section \<open>An update\<close>

definition block_at :: "screen \<Rightarrow> nat \<Rightarrow> nat \<Rightarrow> bool" where
  "block_at s x y \<longleftrightarrow> x = cursor_x s \<and> y = cursor_y s
     \<and> x * cell_width (font s) < SCREEN_WIDTH \<and> y * character_height (font s) < SCREEN_HEIGHT"

definition overlay_drawn :: "'c display \<Rightarrow> screen \<Rightarrow> bool \<Rightarrow> nat \<Rightarrow> 'c draw_op list option" where
  "overlay_drawn d s recording level =
     map_option (\<lambda>t. draw_overlay (colors d) (slate_gray d) (baseline d) s t recording level) (overlay s)"

definition cleared :: "screen \<Rightarrow> 'c panel \<Rightarrow> 'c panel" where
  "cleared s p = (if full_repaint s then \<lparr>pcell = \<lambda>_ _. Blank, pover = None\<rparr> else p)"

lemma shown_line_full [simp]: "shown_line (s\<lparr>full_repaint := b\<rparr>) y = shown_line s y"
proof -
  have "shown_ref (s\<lparr>full_repaint := b\<rparr>) y = shown_ref s y" by (simp add: shown_ref_def Let_def)
  then show ?thesis by (cases "shown_ref s y") (simp_all add: shown_line_def)
qed

lemma screen_inv_full [simp]: "screen_inv ly (s\<lparr>full_repaint := b\<rparr>) = screen_inv ly s"
  by (simp add: screen_inv_def)

definition updated ::
    "'c display \<Rightarrow> bool \<Rightarrow> nat \<Rightarrow> screen \<Rightarrow> screen \<Rightarrow> 'c panel \<Rightarrow> 'c panel \<Rightarrow> bool" where
  "updated d recording level s s' p p' \<longleftrightarrow>
     rows s' = rows s \<and> cols s' = cols s \<and> font s' = font s \<and> overlay s' = overlay s
     \<and> cursor_x s' = cursor_x s \<and> cursor_y s' = cursor_y s \<and> viewport_offset s' = viewport_offset s
     \<and> overlay_deadline_ms s' = overlay_deadline_ms s \<and> \<not> full_repaint s'
     \<and> (\<forall>ly. screen_inv ly s \<longrightarrow> screen_inv ly s')
     \<and> (\<forall>y. shown_line s' y = cleaned 0 s y)
     \<and> pover p' = (if overlay s = None then pover (cleared s p) else overlay_drawn d s' recording level)
     \<and> (\<forall>x y. pcell p' x y = (if block_at s x y then Block else drawn d 0 s (cleared s p) x y))"

lemma foldl_if: "foldl f p (if b then [x] else []) = (if b then f p x else p)"
  by simp

lemma paint_cursor_shows:
  "pover (foldl apply_paint p (paint_cursor d s)) = pover p"
  "pcell (foldl apply_paint p (paint_cursor d s)) x y = (if block_at s x y then Block else pcell p x y)"
  unfolding paint_cursor_def block_at_def Let_def foldl_if by simp_all blast

lemma paint_overlay_shows:
  "pcell (foldl apply_paint p (paint_overlay d s r l)) = pcell p"
  "pover (foldl apply_paint p (paint_overlay d s r l)) = (if overlay s = None then pover p else overlay_drawn d s r l)"
  by (auto simp: paint_overlay_def overlay_drawn_def split: option.splits)

lemma update_display_spec:
  assumes "paintable (font s)" and "screen_inv ly s"
  shows "\<exists>s' ps. update_display d s recording level = Some (s', ps) \<and>
    updated d recording level s s' p (foldl apply_paint p ps)"
proof -
  obtain s1 ps where rows: "paint_rows (colors d) (baseline d) [0..<rows s] s = Some (s1, ps)"
    "rows_painted d 0 s s1 (cleared s p) (foldl apply_paint (cleared s p) ps)"
    using paint_rows_spec [OF assms(1) rows_shown_inv [OF assms(2)], of 0 d "cleared s p"] by auto
  let ?s = "s1\<lparr>full_repaint := False\<rparr>"
  let ?clear = "if full_repaint s then [PClear (px_black (colors d))] else []"
  let ?p2 = "foldl apply_paint (cleared s p) ps"
  have "foldl apply_paint p ?clear = cleared s p" by (simp add: cleared_def)
  moreover have same: "rows_same s s1" using rows(2) by (simp add: rows_painted_def)
  then have "block_at ?s = block_at s" by (simp add: block_at_def rows_same_def fun_eq_iff)
  moreover have "screen_inv ly ?s" if "screen_inv ly s" for ly
    using that same by (simp add: rows_same_def)
  ultimately have "updated d recording level s ?s p
      (foldl apply_paint (foldl apply_paint ?p2 (paint_cursor d ?s)) (paint_overlay d ?s recording level))"
    using same rows(2)
    by (simp add: updated_def rows_painted_def rows_same_def paint_cursor_shows paint_overlay_shows)
  moreover have "foldl apply_paint p (?clear @ ps @ paint_cursor d ?s @ paint_overlay d ?s recording level)
      = foldl apply_paint (foldl apply_paint ?p2 (paint_cursor d ?s)) (paint_overlay d ?s recording level)"
    by (simp add: cleared_def)
  ultimately show ?thesis
    using rows(1) by (intro exI [of _ ?s] exI [of _ "?clear @ ps @ paint_cursor d ?s @ paint_overlay d ?s recording level"])
      (simp add: update_display_def Let_def)
qed

section \<open>Marking\<close>

text \<open>
  An operation on the model keeps the painter informed: unless it asks for a full repaint, every row it makes show
  another line, or changes, is marked; and an overlay does not go without a repaint.
\<close>

definition follows :: "screen \<Rightarrow> screen \<Rightarrow> bool" where
  "follows s s' \<longleftrightarrow> rows s' = rows s \<and> cols s' = cols s \<and> font s' = font s \<and> (full_repaint s \<longrightarrow> full_repaint s') \<and>
     (full_repaint s' \<or> (overlay s' = None \<longrightarrow> overlay s = None) \<and>
        (\<forall>y. shown_line s' y = shown_line s y \<or> dirty (shown_line s' y)))"

lemma follows_refl [simp]: "follows s s"
  by (simp add: follows_def)

lemma follows_trans: "follows s s' \<Longrightarrow> follows s' s'' \<Longrightarrow> follows s s''"
  unfolding follows_def by metis

lemma follows_full:
  "full_repaint s' \<Longrightarrow> rows s' = rows s \<Longrightarrow> cols s' = cols s \<Longrightarrow> font s' = font s \<Longrightarrow> follows s s'"
  by (simp add: follows_def)

lemma follows_edit:
  assumes "rows s' = rows s" "cols s' = cols s" "font s' = font s" "overlay s' = overlay s" "full_repaint s' = full_repaint s"
    and "scrollback s' = scrollback s" "viewport_offset s' = viewport_offset s" "length (lines s') = length (lines s)"
    and "\<And>i. i < length (lines s) \<Longrightarrow> lines s' ! i = lines s ! i \<or> dirty (lines s' ! i)"
  shows "follows s s'"
proof -
  have ref: "shown_ref s' y = shown_ref s y" for y using assms(1,6,7) by (simp add: shown_ref_def Let_def)
  have "shown_line s' y = shown_line s y \<or> dirty (shown_line s' y)" for y
    using assms(6,8,9) by (cases "shown_ref s y") (auto simp: shown_line_def ref vec_get_def)
  with assms(1-5) show ?thesis by (simp add: follows_def)
qed

lemma follows_put_line: "dirty l \<Longrightarrow> follows s (s\<lparr>lines := (lines s)[i := l]\<rparr>)"
proof (rule follows_edit)
  fix j
  assume "dirty l" "j < length (lines s)"
  then show "lines (s\<lparr>lines := (lines s)[i := l]\<rparr>) ! j = lines s ! j \<or> dirty (lines (s\<lparr>lines := (lines s)[i := l]\<rparr>) ! j)"
    by (cases "j = i") simp_all
qed simp_all

lemma follows_state [simp]:
  "follows s (s\<lparr>cursor_x := x\<rparr>)" "follows s (s\<lparr>cursor_y := y\<rparr>)" "follows s (s\<lparr>cursor_y := y, cursor_x := x\<rparr>)"
  "follows s (s\<lparr>cursor_x := x, cursor_y := y\<rparr>)" "follows s (s\<lparr>current_attrs := a\<rparr>)"
  "follows s (s\<lparr>scroll_top := t, scroll_bottom := b\<rparr>)"
  by (rule follows_edit; simp)+

lemma follows_reset_view [simp]: "follows s (reset_view s)"
  by (cases "viewport_offset s = 0") (simp_all add: reset_view_def follows_full)

lemma follows_scroll_if: "follows s (scroll_if_cursor_past_bottom s)"
  by (cases "lines s")
    (auto simp: scroll_if_cursor_past_bottom_def scroll_up_def push_scrollback_def Let_def intro: follows_full)

lemma follows_print:
  assumes "screen_inv ly s" and "print_char s c = Some s'"
  shows "follows s s'"
proof -
  let ?r = "reset_view s"
  have "follows ?r (wrapped ?r)" by (auto simp: wrapped_def intro: follows_full)
  moreover have "follows (wrapped ?r) (print_cell (wrapped ?r) c)"
    unfolding print_cell_def
    by (rule follows_trans [OF follows_put_line follows_state(1)]) simp
  ultimately show ?thesis
    using assms(2) follows_trans follows_reset_view unfolding print_char_eq [OF assms(1)] by (metis option.inject)
qed

lemma follows_execute: "follows s (execute s b)"
proof -
  let ?r = "reset_view s"
  have "follows ?r (scroll_if_cursor_past_bottom (?r\<lparr>cursor_y := cursor_y ?r + 1\<rparr>))"
    by (rule follows_trans [OF follows_state(2) follows_scroll_if])
  then have "follows ?r (execute s b)" by (simp add: execute_def Let_def)
  then show ?thesis using follows_trans follows_reset_view by blast
qed

lemma sl_erase_dirty: "sl_erase st e a l = Some l' \<Longrightarrow> dirty l'"
  by (auto simp: sl_erase_def)

lemma follows_erase_current: "erase_current s st e = Some s' \<Longrightarrow> follows s s'"
  by (auto simp: erase_current_def split: bind_splits dest!: sl_erase_dirty intro: follows_put_line)

lemma follows_clear_lines: "clear_lines is s = Some s' \<Longrightarrow> follows s s'"
proof (induction "is" arbitrary: s)
  case (Cons i "is")
  then obtain l where "clear_lines is (s\<lparr>lines := (lines s)[i := sl_clear l]\<rparr>) = Some s'"
    by (auto split: bind_splits)
  with Cons.IH have "follows (s\<lparr>lines := (lines s)[i := sl_clear l]\<rparr>) s'" by blast
  moreover have "follows s (s\<lparr>lines := (lines s)[i := sl_clear l]\<rparr>)"
    by (rule follows_put_line) (simp add: sl_clear_def)
  ultimately show ?case using follows_trans by blast
qed simp

lemma follows_screen_clear: "follows s (screen_clear s)"
  by (rule follows_full) (simp_all add: screen_clear_def)

lemma follows_erase_in_display: "erase_in_display s ps = Some s' \<Longrightarrow> follows s s'"
  unfolding erase_in_display_def Let_def
  by (elim if_eqE)
    (auto split: bind_splits intro: follows_trans follows_clear_lines follows_erase_current follows_screen_clear)

lemma follows_mark: "follows s (mark_current_dirty s)"
  unfolding mark_current_dirty_def by (rule follows_put_line) simp

lemma follows_erase_in_line: "erase_in_line s ps = Some s' \<Longrightarrow> follows s s'"
  unfolding erase_in_line_def Let_def
  by (elim if_eqE) (auto intro: follows_trans follows_mark follows_erase_current split: if_splits)

lemma follows_erase_characters: "erase_characters s ps = Some s' \<Longrightarrow> follows s s'"
  by (auto simp: erase_characters_def split: bind_splits intro: follows_erase_current)

lemma follows_region:
  "screen_inv ly s \<Longrightarrow> scroll_region_up s n = Some s' \<Longrightarrow> follows s s'"
  by (auto simp: scroll_region_up_eq region_scrolled_def Let_def intro: follows_full split: if_splits)

lemma follows_margins: "follows s (set_margins s ps)"
  by (simp add: set_margins_def Let_def)

lemmas follows_csi = follows_erase_in_display follows_erase_in_line follows_erase_characters

lemma follows_csi_dispatch:
  assumes "screen_inv ly s" and "csi_dispatch s ps is ig a = Some s'"
  shows "follows s s'"
proof -
  have *: "Some t = Some s' \<Longrightarrow> follows s t \<Longrightarrow> follows s s'" for t by simp
  show ?thesis
    using assms(2) unfolding csi_dispatch_def set_graphics_def
    by (elim if_eqE)
      (erule follows_csi | erule follows_region [OF assms(1)] | (erule *, simp add: follows_margins))+
qed

lemma follows_perform: "screen_inv ly s \<Longrightarrow> perform s e = Some s' \<Longrightarrow> follows s s'"
  by (cases e) (auto simp: follows_execute intro: follows_print follows_csi_dispatch)

text \<open>
  The cap of the scrollback can be lowered under a view that is scrolled further back; the code then moves the view
  without asking for a repaint. Every other operation follows.
\<close>

definition keeps_view :: "layout \<Rightarrow> screen \<Rightarrow> screen_op \<Rightarrow> bool" where
  "keeps_view ly s e =
     (case e of SetMaxScrollback n \<Rightarrow> viewport_offset s \<le> min n (max_safe_scrollback ly s) | _ \<Rightarrow> True)"

lemma follows_overlay_op:
  assumes "overlay_op e" and "screen_step ly s e = Some s'"
  shows "follows s s'"
proof -
  have "rows s' = rows s \<and> cols s' = cols s \<and> font s' = font s \<and> (full_repaint s \<longrightarrow> full_repaint s')
      \<and> (full_repaint s' \<longrightarrow> True)"
    using assms by (cases e) (auto simp: show_overlay_def show_timed_overlay_def replace_overlay_def tick_overlay_def
        clear_overlay_def Let_def split: option.splits)
  moreover have "cells_of s' = cells_of s" "overlay s \<noteq> None \<and> overlay s' \<noteq> overlay s \<longrightarrow> full_repaint s'"
    using overlay_is_transparent [OF assms] by auto
  moreover from this(1) calculation(1) have "shown_line s' y = shown_line s y" for y
    by (cases "shown_ref s y") (auto simp: cells_of_def shown_line_def shown_ref_def Let_def split: if_splits)
  ultimately show ?thesis by (auto simp: follows_def)
qed

lemma follows_set_max:
  assumes "screen_inv ly s" and "viewport_offset s \<le> min n (max_safe_scrollback ly s)"
  shows "follows s (set_max_scrollback ly s n)"
proof -
  define m where "m = min n (max_safe_scrollback ly s)"
  let ?s = "set_max_scrollback ly s n"
  let ?sb = "scrollback s"
  have vo: "viewport_offset s \<le> length ?sb" "viewport_offset s \<le> m" using assms by (auto simp: screen_inv_def m_def)
  show ?thesis
  proof (cases "length ?sb > m")
    case False
    then have "?s = s\<lparr>max_scrollback := m\<rparr>" by (simp add: set_max_scrollback_def Let_def m_def [symmetric])
    then show ?thesis by (auto intro: follows_edit)
  next
    case True
    then have s: "?s = s\<lparr>max_scrollback := m, scrollback := drop (length ?sb - m) ?sb\<rparr>"
      using vo by (auto simp: set_max_scrollback_def Let_def m_def [symmetric])
    have len: "length (drop (length ?sb - m) ?sb) = m" using True by simp
    have "shown_line ?s y = shown_line s y" for y
    proof (cases "y < viewport_offset s")
      case below: True
      then have "shown_ref s y = InScrollback (length ?sb - viewport_offset s + y)"
        using vo by (simp add: shown_ref_def Let_def sat_sub_def)
      moreover have "shown_ref ?s y = InScrollback (m - viewport_offset s + y)"
        using below vo len unfolding s by (simp add: shown_ref_def Let_def sat_sub_def)
      ultimately show ?thesis
        using below vo len True unfolding s by (simp add: shown_line_def vec_get_def)
    next
      case False
      then have "shown_ref s y = InLines (y - viewport_offset s)"
        using vo by (auto simp: shown_ref_def Let_def sat_sub_def)
      moreover have "shown_ref ?s y = InLines (y - viewport_offset s)"
        using False vo len unfolding s by (auto simp: shown_ref_def Let_def sat_sub_def)
      ultimately show ?thesis unfolding s by (simp add: shown_line_def)
    qed
    then show ?thesis by (simp add: follows_def s)
  qed
qed

text \<open>Marking is complete.\<close>

lemma screen_step_follows:
  assumes "screen_inv ly s" and "screen_step ly s e = Some s'" and "keeps_view ly s e"
  shows "follows s s'"
proof (cases e)
  case (Vt v)
  with assms(1,2) show ?thesis by (simp add: follows_perform)
next
  case (SetMaxScrollback n)
  with assms follows_set_max [of ly s n] show ?thesis by (simp add: keeps_view_def)
qed (use assms(2) follows_overlay_op [OF _ assms(2)] in
    \<open>auto simp: scroll_view_up_def scroll_view_down_def follows_screen_clear intro: follows_full\<close>)

section \<open>The panel and the model\<close>

definition faithful :: "'c display \<Rightarrow> screen \<Rightarrow> 'c panel \<Rightarrow> bool" where
  "faithful d s p \<longleftrightarrow> full_repaint s \<or>
     (\<forall>x y. on_panel s x y \<and> \<not> dirty (shown_line s y) \<longrightarrow> pcell p x y \<in> {content d s x y, Block})
     \<and> (overlay s = None \<longrightarrow> pover p = None)"

lemma faithful_follows:
  assumes "faithful d s p" and "follows s s'"
  shows "faithful d s' p"
proof (cases "full_repaint s'")
  case False
  with assms(2) have s: "\<not> full_repaint s" "rows s' = rows s" "cols s' = cols s" "font s' = font s"
    "overlay s' = None \<longrightarrow> overlay s = None" "\<And>y. shown_line s' y = shown_line s y \<or> dirty (shown_line s' y)"
    by (auto simp: follows_def)
  have "pcell p x y \<in> {content d s' x y, Block}" if "on_panel s' x y" "\<not> dirty (shown_line s' y)" for x y
  proof -
    have "shown_line s' y = shown_line s y" using s(6) that(2) by blast
    with that s(1-4) assms(1) show ?thesis by (auto simp: faithful_def on_panel_def content_def)
  qed
  moreover have "overlay s' = None \<longrightarrow> pover p = None" using s(1,5) assms(1) by (auto simp: faithful_def)
  ultimately show ?thesis by (simp add: faithful_def)
qed (simp add: faithful_def)

text \<open>One update of a panel that was faithful.\<close>

lemma updated_content:
  assumes "updated d r l s s' p p'" and "on_panel s x y"
  shows "content d s' x y = content d s x y \<and> \<not> dirty (shown_line s' y)"
  using assms by (simp add: updated_def content_def on_panel_def cleaned_def cell_view_def)

lemma updated_shows:
  assumes "updated d r l s s' p p'" and "faithful d s p"
  shows "\<not> full_repaint s'" and "pover p' = overlay_drawn d s' r l"
    and "on_panel s' x y \<Longrightarrow> pcell p' x y \<in> {content d s' x y, Block}"
    and "block_at s' x y \<Longrightarrow> pcell p' x y = Block"
    and "on_panel s' x y \<Longrightarrow> \<not> block_at s' x y \<Longrightarrow> to_paint s y \<Longrightarrow> pcell p' x y = content d s' x y"
proof -
  have same: "on_panel s' = on_panel s" "block_at s' = block_at s" "overlay s' = overlay s"
    using assms(1) by (simp_all add: updated_def on_panel_def block_at_def fun_eq_iff)
  have cell: "pcell p' x y = (if block_at s x y then Block else drawn d 0 s (cleared s p) x y)"
    using assms(1) by (simp add: updated_def)
  have over: "overlay s = None \<Longrightarrow> pover (cleared s p) = None"
    using assms(2) by (auto simp: faithful_def cleared_def)
  show "\<not> full_repaint s'" using assms(1) by (simp add: updated_def)
  show "pover p' = overlay_drawn d s' r l"
    using assms(1) over by (simp add: updated_def overlay_drawn_def split: if_splits)
  show "block_at s' x y \<Longrightarrow> pcell p' x y = Block" using cell same by simp
  have paint: "pcell p' x y = content d s' x y" if "on_panel s x y" "\<not> block_at s x y" "to_paint s y"
    using that cell updated_content [OF assms(1) that(1)] by (simp add: drawn_def)
  then show "on_panel s' x y \<Longrightarrow> \<not> block_at s' x y \<Longrightarrow> to_paint s y \<Longrightarrow> pcell p' x y = content d s' x y"
    using same by simp
  show "pcell p' x y \<in> {content d s' x y, Block}" if "on_panel s' x y"
  proof (cases "block_at s x y \<or> to_paint s y")
    case True
    with that paint cell same show ?thesis by auto
  next
    case False
    then have "\<not> full_repaint s" "\<not> dirty (shown_line s y)" by (simp_all add: to_paint_def)
    moreover have "pcell p' x y = pcell p x y" using False cell by (simp add: drawn_def cleared_def to_paint_def)
    moreover have "on_panel s x y" using that same by simp
    ultimately show ?thesis
      using assms(2) updated_content [OF assms(1), of x y] by (auto simp: faithful_def)
  qed
qed

lemma updated_faithful: "updated d r l s s' p p' \<Longrightarrow> faithful d s p \<Longrightarrow> faithful d s' p'"
  using updated_shows [of d r l s s' p p'] by (simp add: faithful_def overlay_drawn_def)

text \<open>Everything that can happen to the screen and the panel: changes of the model and updates, in any order.\<close>

inductive painted :: "layout \<Rightarrow> 'c display \<Rightarrow> screen \<Rightarrow> 'c panel \<Rightarrow> bool" for ly d where
  painted_start: "font_fits f \<Longrightarrow> paintable f \<Longrightarrow> painted ly d (screen_default ly f) \<lparr>pcell = \<lambda>_ _. Blank, pover = None\<rparr>"
| painted_change: "painted ly d s p \<Longrightarrow> keeps_view ly s e \<Longrightarrow> screen_step ly s e = Some s' \<Longrightarrow> painted ly d s' p"
| painted_update: "painted ly d s p \<Longrightarrow> screen_update_display d s now r l = Some (s', ps) \<Longrightarrow>
     painted ly d s' (foldl apply_paint p ps)"

definition painter_inv :: "layout \<Rightarrow> 'c display \<Rightarrow> screen \<Rightarrow> 'c panel \<Rightarrow> bool" where
  "painter_inv ly d s p \<longleftrightarrow> screen_inv ly s \<and> paintable (font s) \<and> faithful d s p"

lemma painter_inv_follows:
  "painter_inv ly d s p \<Longrightarrow> screen_inv ly s' \<Longrightarrow> follows s s' \<Longrightarrow> painter_inv ly d s' p"
  by (auto simp: painter_inv_def follows_def [of s s'] intro: faithful_follows)

lemma painter_inv_tick:
  assumes "painter_inv ly d s p"
  shows "painter_inv ly d (tick_overlay s now) p"
proof (rule painter_inv_follows [OF assms])
  show "screen_inv ly (tick_overlay s now)" using assms by (simp add: painter_inv_def inv_intros)
  show "follows s (tick_overlay s now)" by (rule follows_overlay_op [of "TickOverlay now" ly]) simp_all
qed

lemma painter_inv_update:
  assumes "painter_inv ly d s p"
  shows "\<exists>s' ps. screen_update_display d s now r l = Some (s', ps) \<and>
    updated d r l (tick_overlay s now) s' p (foldl apply_paint p ps) \<and> painter_inv ly d s' (foldl apply_paint p ps)"
proof -
  let ?t = "tick_overlay s now"
  have inv: "screen_inv ly ?t" "paintable (font ?t)" "faithful d ?t p"
    using painter_inv_tick [OF assms] by (simp_all add: painter_inv_def)
  obtain s' ps where up: "update_display d ?t r l = Some (s', ps)" "updated d r l ?t s' p (foldl apply_paint p ps)"
    using update_display_spec [OF inv(2,1)] by blast
  moreover have "painter_inv ly d s' (foldl apply_paint p ps)"
    using up(2) inv updated_faithful [OF up(2)] by (simp add: painter_inv_def updated_def)
  ultimately show ?thesis by (auto simp: screen_update_display_def)
qed

lemma painted_inv: "painted ly d s p \<Longrightarrow> painter_inv ly d s p"
proof (induction rule: painted.induct)
  case (painted_start f)
  then show ?case
    by (simp add: painter_inv_def screen_inv_default faithful_def) (simp add: screen_default_def Let_def)
next
  case (painted_change s p e s')
  then show ?case
    using screen_inv_step screen_step_follows by (metis painter_inv_def painter_inv_follows)
next
  case (painted_update s p now r l s' ps)
  then show ?case using painter_inv_update [of ly d s p now r l] by auto
qed

section \<open>Properties\<close>

text \<open>
  The view of the terminal, without the painter's indices: the lines of the history and the screen in a row, seen from
  the bottom up to the offset of the viewport.
\<close>

definition view_line :: "screen \<Rightarrow> nat \<Rightarrow> screen_line" where
  "view_line s y = (scrollback s @ lines s) ! (length (scrollback s) - viewport_offset s + y)"

definition view_content :: "'c display \<Rightarrow> screen \<Rightarrow> nat \<Rightarrow> nat \<Rightarrow> 'c cell_view" where
  "view_content d s x y = cell_view d (font s) (view_line s y) x y"

lemma shown_line_view: "screen_inv ly s \<Longrightarrow> y < rows s \<Longrightarrow> shown_line s y = view_line s y"
  by (auto simp: shown_line_def view_line_def shown_ref_def screen_inv_def vec_get_def sat_sub_def nth_append Let_def)



text \<open>the cursor's block is not taken back when the cursor leaves its row without the row changing: after a line
  feed within the screen the next update paints the cursor one row lower, and the block of the previous update stays
  where it was, over what the model has there.\<close>

theorem line_feed_leaves_block:
  assumes "painted ly d s p" and "viewport_offset s = 0" and "overlay_deadline_ms s = None"
    and "cursor_y s + 1 < rows s" and "on_panel s (cursor_x s) (cursor_y s)"
    and "screen_update_display d s now r l = Some (s1, ps1)"
    and "screen_update_display d (execute s1 10) now' r' l' = Some (s2, ps2)"
  shows "cursor_y s2 = cursor_y s + 1 \<and>
    pcell (foldl apply_paint p (ps1 @ ps2)) (cursor_x s) (cursor_y s) = Block"
proof -
  let ?x = "cursor_x s" and ?y = "cursor_y s" and ?p1 = "foldl apply_paint p ps1"
  have tick: "tick_overlay s now = s" using assms(3) by (simp add: tick_overlay_def)
  have up1: "updated d r l s s1 p ?p1"
    using painter_inv_update [OF painted_inv [OF assms(1)], of now r l] assms(6) by (auto simp: tick)
  then have s1: "viewport_offset s1 = 0" "overlay_deadline_ms s1 = None" "cursor_x s1 = ?x" "cursor_y s1 = ?y"
    "rows s1 = rows s" "\<not> full_repaint s1"
    using assms(2,3) by (simp_all add: updated_def)
  have clean: "\<not> dirty (shown_line s1 ?y)" using updated_content [OF up1 assms(5)] by blast
  have block: "pcell ?p1 ?x ?y = Block" using up1 assms(5) by (simp add: updated_def block_at_def on_panel_def)
  let ?s = "s1\<lparr>cursor_y := ?y + 1\<rparr>"
  have lf: "execute s1 10 = ?s"
    using s1 assms(4) by (simp add: execute_def reset_view_def scroll_if_cursor_past_bottom_def)
  have tick': "tick_overlay ?s now' = ?s" using s1(2) by (simp add: tick_overlay_def)
  have "painted ly d s1 ?p1" using assms(1,6) by (rule painted_update)
  then have "painted ly d ?s ?p1"
    by (rule painted_change [where e = "Vt (Execute 10)"]) (simp_all add: keeps_view_def lf)
  from painter_inv_update [OF painted_inv [OF this], of now' r' l']
  have up2: "updated d r' l' ?s s2 ?p1 (foldl apply_paint ?p1 ps2)"
    using assms(7) unfolding lf tick' by auto
  have "shown_line ?s y = shown_line s1 y" for y
    by (cases "shown_ref s1 y") (simp_all add: shown_line_def shown_ref_def Let_def s1)
  then have "\<not> to_paint ?s ?y" using clean s1(6) by (simp add: to_paint_def)
  then have "pcell (foldl apply_paint ?p1 ps2) ?x ?y = Block"
    using up2 block s1(6) by (simp add: updated_def block_at_def drawn_def cleared_def)
  with up2 show ?thesis by (simp add: updated_def)
qed

theorem line_feed_leaves_block_witness:
  "\<forall>ly (d :: 'c display). \<exists>s1 ps1 s2 ps2. screen_update_display d
      (screen_default ly \<lparr>character_width = 6, character_height = 11, character_spacing = 0\<rparr>) 0 False 0 = Some (s1, ps1)
    \<and> screen_update_display d (execute s1 10) 200 False 0 = Some (s2, ps2) \<and> cursor_y s2 = 1
    \<and> pcell (foldl apply_paint \<lparr>pcell = \<lambda>_ _. Blank, pover = None\<rparr> (ps1 @ ps2)) 0 0 = Block"
proof (intro allI)
  fix ly and d :: "'c display"
  let ?f = "\<lparr>character_width = 6, character_height = 11, character_spacing = 0\<rparr>"
  let ?s = "screen_default ly ?f" and ?p = "\<lparr>pcell = \<lambda>_ _. Blank, pover = None\<rparr> :: 'c panel"
  have "font_fits ?f" "paintable ?f"
    by (simp_all add: font_fits_def paintable_def cell_width_def SCREEN_WIDTH_def SCREEN_HEIGHT_def)
  then have start: "painted ly d ?s ?p" by (rule painted_start)
  from painter_inv_update [OF painted_inv [OF this]] obtain s1 ps1
    where one: "screen_update_display d ?s 0 False 0 = Some (s1, ps1)" by blast
  have "painted ly d s1 (foldl apply_paint ?p ps1)" using start one by (rule painted_update)
  then have "painted ly d (execute s1 10) (foldl apply_paint ?p ps1)"
    by (rule painted_change [where e = "Vt (Execute 10)"]) (simp_all add: keeps_view_def)
  from painter_inv_update [OF painted_inv [OF this]] obtain s2 ps2
    where two: "screen_update_display d (execute s1 10) 200 False 0 = Some (s2, ps2)" by blast
  have s: "viewport_offset ?s = 0" "overlay_deadline_ms ?s = None" "cursor_y ?s + 1 < rows ?s" "cursor_x ?s = 0" "cursor_y ?s = 0"
    "on_panel ?s (cursor_x ?s) (cursor_y ?s)"
    by (simp_all add: screen_default_def on_panel_def cell_width_def SCREEN_WIDTH_def SCREEN_HEIGHT_def)
  from line_feed_leaves_block [OF start s(1-3) s(6) one two]
  have "cursor_y s2 = 1 \<and> pcell (foldl apply_paint ?p (ps1 @ ps2)) 0 0 = Block" unfolding s(4,5) by simp
  with one two show "\<exists>s1 ps1 s2 ps2. screen_update_display d ?s 0 False 0 = Some (s1, ps1)
    \<and> screen_update_display d (execute s1 10) 200 False 0 = Some (s2, ps2) \<and> cursor_y s2 = 1
    \<and> pcell (foldl apply_paint ?p (ps1 @ ps2)) 0 0 = Block" by blast
qed

end
