(* ===== verification/Storage.thy ===== *)
theory Storage
  imports Shell "HOL-Library.List_Lexorder"
begin

text \<open>
  The SD card (\<open>src/storage.rs\<close>): the state machine behind \<open>STORAGE\<close>, driven by the card-detect pin and by
  whether the card answers, and the volume manager its users get. The card driver and the volume manager are
  \<open>embedded_sdmmc\<close>: a card is a value of type \<open>'c\<close>, and a volume manager is its state together with its
  operations (\<open>vol_mgr_lawful\<close> states what its documentation promises of them).
\<close>

section \<open>The volume manager\<close>

datatype open_mode = ReadOnly | ReadWriteCreate | ReadWriteCreateOrTruncate

text \<open>The errors the code tells apart; any other is known by its \<open>Debug\<close> text.\<close>

datatype sd_error = NotFound | FileAlreadyExists | OtherError rstr

text \<open>
  At most one file is open at a time; \<open>open_at\<close> is its name and position. \<open>card_files\<close> are the files of the root
  directory of the first volume, with their bytes; names are compared without case by the driver.
\<close>

record 'v vol_mgr =
  vm_state :: 'v
  open_volume :: "'v \<Rightarrow> nat \<Rightarrow> 'v \<times> (sd_error + unit)"
  open_root_dir :: "'v \<Rightarrow> 'v \<times> (sd_error + unit)"
  open_file_in_dir :: "'v \<Rightarrow> rstr \<Rightarrow> open_mode \<Rightarrow> 'v \<times> (sd_error + unit)"
  file_read :: "'v \<Rightarrow> nat \<Rightarrow> 'v \<times> (sd_error + rstr)"
  file_write :: "'v \<Rightarrow> rstr \<Rightarrow> 'v \<times> (sd_error + unit)"
  file_close :: "'v \<Rightarrow> 'v \<times> (sd_error + unit)"
  card_files :: "'v \<Rightarrow> rstr \<Rightarrow> rstr option"
  open_at :: "'v \<Rightarrow> (rstr \<times> nat) option"

definition reading_lawful :: "'v vol_mgr \<Rightarrow> bool" where
  "reading_lawful vm \<longleftrightarrow>
     (\<forall>v n v' r. open_volume vm v n = (v', r) \<longrightarrow> card_files vm v' = card_files vm v)
   \<and> (\<forall>v v' r. open_root_dir vm v = (v', r) \<longrightarrow> card_files vm v' = card_files vm v)
   \<and> (\<forall>v name v' r. open_file_in_dir vm v name ReadOnly = (v', r) \<longrightarrow>
        card_files vm v' = card_files vm v
        \<and> (r = Inr () \<longrightarrow> card_files vm v name \<noteq> None \<and> open_at vm v' = Some (name, 0))
        \<and> (r = Inl NotFound \<longrightarrow> card_files vm v name = None))
   \<and> (\<forall>v name pos data n v' bs. open_at vm v = Some (name, pos) \<and> card_files vm v name = Some data
        \<and> file_read vm v n = (v', Inr bs) \<longrightarrow>
          card_files vm v' = card_files vm v
          \<and> bs = take (length bs) (drop pos data) \<and> length bs \<le> n \<and> (bs = [] \<longrightarrow> n = 0 \<or> length data \<le> pos)
          \<and> open_at vm v' = Some (name, pos + length bs))
   \<and> (\<forall>v n v' e. file_read vm v n = (v', Inl e) \<longrightarrow> card_files vm v' = card_files vm v)"

definition writing_lawful :: "'v vol_mgr \<Rightarrow> bool" where
  "writing_lawful vm \<longleftrightarrow>
     (\<forall>v name v' r. open_file_in_dir vm v name ReadWriteCreate = (v', r) \<longrightarrow>
        (r = Inr () \<longrightarrow> card_files vm v name = None))
   \<and> (\<forall>v name mode v'. mode \<noteq> ReadOnly \<and> open_file_in_dir vm v name mode = (v', Inr ()) \<longrightarrow>
        card_files vm v' = (card_files vm v)(name \<mapsto> []) \<and> open_at vm v' = Some (name, 0))
   \<and> (\<forall>v name mode v' e. open_file_in_dir vm v name mode = (v', Inl e) \<longrightarrow> card_files vm v' = card_files vm v)
   \<and> (\<forall>v name pos data bs v'. open_at vm v = Some (name, pos) \<and> card_files vm v name = Some data
        \<and> file_write vm v bs = (v', Inr ()) \<longrightarrow>
          card_files vm v' = (card_files vm v)(name \<mapsto> take pos data @ bs)
          \<and> open_at vm v' = Some (name, pos + length bs))
   \<and> (\<forall>v name pos bs v' e j. open_at vm v = Some (name, pos) \<and> file_write vm v bs = (v', Inl e) \<and> j \<noteq> name \<longrightarrow>
        card_files vm v' j = card_files vm v j)
   \<and> (\<forall>v v' r. file_close vm v = (v', r) \<longrightarrow> card_files vm v' = card_files vm v)"

definition vol_mgr_lawful :: "'v vol_mgr \<Rightarrow> bool" where
  "vol_mgr_lawful vm \<longleftrightarrow> reading_lawful vm \<and> writing_lawful vm"

lemma lawful_upd [simp]:
  "reading_lawful (vm\<lparr>vm_state := v\<rparr>) = reading_lawful vm"
  "writing_lawful (vm\<lparr>vm_state := v\<rparr>) = writing_lawful vm"
  "vol_mgr_lawful (vm\<lparr>vm_state := v\<rparr>) = vol_mgr_lawful vm"
  by (simp_all add: reading_lawful_def writing_lawful_def vol_mgr_lawful_def)

text \<open>A card whose files are a map, which never fails: its state is the files and the open file.\<close>

type_synonym map_card = "(rstr \<Rightarrow> rstr option) \<times> (rstr \<times> nat) option"

definition map_open :: "map_card \<Rightarrow> rstr \<Rightarrow> open_mode \<Rightarrow> map_card \<times> (sd_error + unit)" where
  "map_open v name mode =
     (let fs = fst v
      in case mode of
           ReadOnly \<Rightarrow> (if fs name = None then (v, Inl NotFound) else ((fs, Some (name, 0)), Inr ()))
         | ReadWriteCreate \<Rightarrow>
             (if fs name \<noteq> None then (v, Inl FileAlreadyExists) else ((fs(name \<mapsto> []), Some (name, 0)), Inr ()))
         | ReadWriteCreateOrTruncate \<Rightarrow> ((fs(name \<mapsto> []), Some (name, 0)), Inr ()))"

definition map_read :: "map_card \<Rightarrow> nat \<Rightarrow> map_card \<times> (sd_error + rstr)" where
  "map_read v n =
     (case snd v of
        None \<Rightarrow> (v, Inl (OtherError ''BadHandle''))
      | Some (name, pos) \<Rightarrow>
          (case fst v name of
             None \<Rightarrow> (v, Inl (OtherError ''BadHandle''))
           | Some data \<Rightarrow>
               let bs = take n (drop pos data) in ((fst v, Some (name, pos + length bs)), Inr bs)))"

definition map_write :: "map_card \<Rightarrow> rstr \<Rightarrow> map_card \<times> (sd_error + unit)" where
  "map_write v bs =
     (case snd v of
        None \<Rightarrow> (v, Inl (OtherError ''BadHandle''))
      | Some (name, pos) \<Rightarrow>
          (case fst v name of
             None \<Rightarrow> (v, Inl (OtherError ''BadHandle''))
           | Some data \<Rightarrow> (((fst v)(name \<mapsto> take pos data @ bs), Some (name, pos + length bs)), Inr ())))"

definition map_vol_mgr :: "(rstr \<Rightarrow> rstr option) \<Rightarrow> map_card vol_mgr" where
  "map_vol_mgr fs = \<lparr>vm_state = (fs, None), open_volume = \<lambda>v n. (v, Inr ()), open_root_dir = \<lambda>v. (v, Inr ()),
     open_file_in_dir = map_open, file_read = map_read, file_write = map_write,
     file_close = \<lambda>v. ((fst v, None), Inr ()), card_files = fst, open_at = snd\<rparr>"

lemma map_vol_mgr_lawful: "vol_mgr_lawful (map_vol_mgr fs)"
proof -
  have "reading_lawful (map_vol_mgr fs)"
    by (auto simp: reading_lawful_def map_vol_mgr_def map_open_def map_read_def Let_def min_def
        split: option.splits if_splits)
  moreover have "writing_lawful (map_vol_mgr fs)"
    by (auto simp: writing_lawful_def map_vol_mgr_def map_open_def map_write_def Let_def 
        split: open_mode.splits option.splits if_splits)
  ultimately show ?thesis by (simp add: vol_mgr_lawful_def)
qed

section \<open>The state machine\<close>

text \<open>What the code asks of the card, alone or as the device of a volume manager.\<close>

record ('c, 'v) sd_driver =
  num_bytes :: "'c \<Rightarrow> 'c \<times> (rstr + nat)"
  mark_card_uninit :: "'c \<Rightarrow> 'c"
  new_vol_mgr :: "'c \<Rightarrow> 'v"
  device :: "'v \<Rightarrow> 'c"
  with_device :: "'v \<Rightarrow> 'c \<Rightarrow> 'v"

datatype ('c, 'v) storage = PendingInit | NotPlugged 'c | Loaded 'v | Unplugged 'v

fun vol_mgr_of :: "('c, 'v) storage \<Rightarrow> 'v option" where
  "vol_mgr_of (Loaded vm) = Some vm"
| "vol_mgr_of _ = None"

definition print_sd_card_error :: "rstr \<Rightarrow> rstr" where
  "print_sd_card_error e = [CHR 0x1b] @ ''[1mSD Card error: '' @ e @ [CHR 0x1b] @ ''[0m'' @ crlf"

text \<open>\<open>check_card\<close>: the new state and what is printed; \<open>present\<close> is the card-detect pin, read low.\<close>

definition check_loaded :: "('c, 'v) sd_driver \<Rightarrow> bool \<Rightarrow> 'v \<Rightarrow> ('c, 'v) storage \<times> rstr" where
  "check_loaded d present vm =
     (if \<not> present then (Unplugged (with_device d vm (mark_card_uninit d (device d vm))), [])
      else let (c, r) = num_bytes d (device d vm)
           in (case r of
                 Inr bytes \<Rightarrow> (Loaded (with_device d vm c), [])
               | Inl e \<Rightarrow> (Unplugged (with_device d vm c), print_sd_card_error e)))"

fun check_card :: "('c, 'v) sd_driver \<Rightarrow> bool \<Rightarrow> ('c, 'v) storage \<Rightarrow> ('c, 'v) storage \<times> rstr" where
  "check_card d present PendingInit = (PendingInit, [])"
| "check_card d present (NotPlugged sdcard) =
     (if \<not> present then (NotPlugged (mark_card_uninit d sdcard), [])
      else let (c, r) = num_bytes d sdcard
           in (case r of
                 Inr bytes \<Rightarrow> (Loaded (new_vol_mgr d c), [])
               | Inl e \<Rightarrow> (NotPlugged c, print_sd_card_error e)))"
| "check_card d present (Loaded vm) = check_loaded d present vm"
| "check_card d present (Unplugged vm) = check_loaded d present vm"

text \<open>\<open>init_storage\<close> and then \<open>sdcard_hot_plug\<close>: a check at boot and one after each edge of the pin.\<close>

fun storage_run :: "('c, 'v) sd_driver \<Rightarrow> bool list \<Rightarrow> ('c, 'v) storage \<Rightarrow> ('c, 'v) storage" where
  "storage_run d [] s = s"
| "storage_run d (present # edges) s = storage_run d edges (fst (check_card d present s))"

definition init_storage :: "('c, 'v) sd_driver \<Rightarrow> 'c \<Rightarrow> bool \<Rightarrow> bool list \<Rightarrow> ('c, 'v) storage" where
  "init_storage d sdcard present edges = storage_run d (present # edges) (NotPlugged sdcard)"

text \<open>What the boot prints of the volumes: \<open>byte_size\<close> formats the card's size.\<close>

fun volume_names :: "('v \<Rightarrow> nat \<Rightarrow> 'v \<times> bool) \<Rightarrow> nat list \<Rightarrow> 'v \<Rightarrow> rstr \<Rightarrow> 'v \<times> rstr" where
  "volume_names open_vol [] vm volumes = (vm, volumes)"
| "volume_names open_vol (idx # is) vm volumes =
     (let (vm', ok) = open_vol vm idx
      in if ok then volume_names open_vol is vm' (volumes @ (if volumes \<noteq> [] then '' '' else []) @ ''vol'' @ show_nat idx)
         else (vm', volumes))"

definition init_report ::
    "('c, 'v) sd_driver \<Rightarrow> ('v \<Rightarrow> nat \<Rightarrow> 'v \<times> bool) \<Rightarrow> (nat \<Rightarrow> rstr) \<Rightarrow> ('c, 'v) storage \<Rightarrow> ('c, 'v) storage \<times> rstr" where
  "init_report d open_vol byte_size s =
     (case vol_mgr_of s of
        None \<Rightarrow> (s, ''No SD card is present'' @ crlf)
      | Some vm \<Rightarrow>
          let (c, r) = num_bytes d (device d vm); vm1 = with_device d vm c
          in (case r of
                Inl e \<Rightarrow> (Loaded vm1, print_sd_card_error e)
              | Inr bytes \<Rightarrow>
                  let (vm2, volumes) = volume_names open_vol [0..<5] vm1 []
                  in (Loaded vm2, ''SD card '' @ byte_size bytes @ '', '' @ volumes @ crlf)))"

lemma check_card_running:
  assumes "s \<noteq> PendingInit"
  shows "fst (check_card d present s) \<noteq> PendingInit"
    and "vol_mgr_of (fst (check_card d present s)) \<noteq> None \<Longrightarrow> present"
  using assms
  by (cases s; auto simp: check_loaded_def Let_def split: sum.splits prod.splits if_splits)+

lemma storage_run_append: "storage_run d (xs @ ys) s = storage_run d ys (storage_run d xs s)"
  by (induction xs arbitrary: s) simp_all

lemma storage_run_running: "s \<noteq> PendingInit \<Longrightarrow> storage_run d edges s \<noteq> PendingInit"
  by (induction edges arbitrary: s) (simp_all add: check_card_running)

text \<open>users get a volume manager only while a card was present at the last check, and whatever happened before, a
  check that finds a card that answers gives them one; once started the storage is never without its card again.\<close>

theorem storage_follows_card:
  fixes d :: "('c, 'v) sd_driver"
  shows "init_storage d sdcard seen edges \<noteq> PendingInit
    \<and> (vol_mgr_of (init_storage d sdcard seen edges) \<noteq> None \<longrightarrow> last (seen # edges))
    \<and> (last (seen # edges) \<and> (\<forall>c. \<exists>bytes. snd (num_bytes d c) = Inr bytes) \<longrightarrow>
         vol_mgr_of (init_storage d sdcard seen edges) \<noteq> None)"
proof -
  let ?s = "storage_run d (butlast (seen # edges)) (NotPlugged sdcard)" and ?last = "last (seen # edges)"
  have last: "init_storage d sdcard seen edges = fst (check_card d ?last ?s)"
    using storage_run_append [of d "butlast (seen # edges)" "[?last]"]
    by (simp only: init_storage_def append_butlast_last_id list.distinct not_False_eq_True storage_run.simps)
  have run: "?s \<noteq> PendingInit" by (rule storage_run_running) simp
  have "vol_mgr_of (fst (check_card d True t)) \<noteq> None"
    if "t \<noteq> PendingInit" "\<forall>c. \<exists>bytes. snd (num_bytes d c) = Inr bytes" for t :: "('c, 'v) storage"
    using that by (cases t) (auto simp: check_loaded_def Let_def split: prod.splits sum.splits, (metis snd_conv sum.distinct(1))+)
  moreover have "last xs = True \<or> last xs = False" for xs by blast
  ultimately show ?thesis
    using check_card_running [OF run, of d ?last] run unfolding last by metis
qed

text \<open>A driver whose cards are the size they report.\<close>

theorem storage_follows_card_witness:
  "\<exists>vm. vol_mgr_of (init_storage \<lparr>num_bytes = \<lambda>c :: nat. (c, Inr c), mark_card_uninit = id, new_vol_mgr = id, device = id,
     with_device = \<lambda>v c. c\<rparr> 7 False [True, False, True]) = Some vm"
  using storage_follows_card [of "\<lparr>num_bytes = \<lambda>c :: nat. (c, Inr c), mark_card_uninit = id, new_vol_mgr = id, device = id,
     with_device = \<lambda>v c. c\<rparr>" 7 False "[True, False, True]"] by simp

section \<open>Listing a directory\<close>

text \<open>What \<open>ls_command\<close> reads of a directory entry; the three texts are its \<open>Debug\<close> and \<open>Display\<close> forms.\<close>

record dir_entry =
  is_directory :: bool
  base_name :: rstr
  attrs_text :: rstr
  size_text :: rstr
  name_text :: rstr

record 'd directory =
  change_dir :: "'d \<Rightarrow> rstr \<Rightarrow> rstr + 'd"
  find_directory_entry :: "'d \<Rightarrow> rstr \<Rightarrow> rstr + dir_entry"
  entries_of :: "'d \<Rightarrow> dir_entry list"

definition pad_chars_right :: "nat \<Rightarrow> rstr \<Rightarrow> rstr" where
  "pad_chars_right n s = s @ replicate (n - length (str_chars s)) (CHR 0x20)"

definition pad_chars_left :: "nat \<Rightarrow> rstr \<Rightarrow> rstr" where
  "pad_chars_left n s = replicate (n - length (str_chars s)) (CHR 0x20) @ s"

definition print_entry :: "dir_entry \<Rightarrow> rstr" where
  "print_entry e =
     (let (amount, unit) = (case split_once (CHR '' '') (size_text e) of Some parts \<Rightarrow> parts | None \<Rightarrow> (size_text e, []))
      in pad_chars_right 3 (attrs_text e) @ '' '' @ pad_chars_left 7 amount @ '' '' @ pad_chars_right 3 unit @ '' '' @ name_text e @ crlf)"

text \<open>The loop over the components of the path: the directory reached, or the component that failed.\<close>

fun enter_dirs :: "'d directory \<Rightarrow> 'd \<Rightarrow> rstr list \<Rightarrow> (rstr \<times> rstr) + 'd" where
  "enter_dirs ops dir [] = Inr dir"
| "enter_dirs ops dir (part # parts) =
     (case change_dir ops dir part of
        Inr dir' \<Rightarrow> enter_dirs ops dir' parts
      | Inl e \<Rightarrow> Inl (part, e))"

definition print_dir :: "dir_entry list \<Rightarrow> rstr" where
  "print_dir es = concat (map print_entry (sort_key (\<lambda>e. map nat_of_byte (base_name e)) es))"

text \<open>\<open>ls_command\<close> on an open root directory; \<open>dbg\<close> is the \<open>Debug\<close> text of the optional directory part.\<close>

definition ls_in_root :: "(rstr option \<Rightarrow> rstr) \<Rightarrow> 'd directory \<Rightarrow> 'd \<Rightarrow> rstr list \<Rightarrow> rstr" where
  "ls_in_root dbg ops root args =
     (let path = (if 1 < length args then args ! 1 else []);
          (dirs, entry_name) = (case rsplit_once (CHR ''/'') path of
              Some (dirs, entry_name) \<Rightarrow> (Some dirs, entry_name) | None \<Rightarrow> (None, path))
      in case (case dirs of None \<Rightarrow> Inr root | Some p \<Rightarrow> enter_dirs ops root (str_split (CHR ''/'') p)) of
           Inl (part, e) \<Rightarrow> ''Failed to open '' @ part @ '' in '' @ (case dirs of Some p \<Rightarrow> p | None \<Rightarrow> []) @ '': '' @ e @ crlf
         | Inr dir \<Rightarrow>
             (if entry_name = [] then print_dir (entries_of ops dir)
              else (case find_directory_entry ops dir entry_name of
                      Inl e \<Rightarrow> ''Failed to find '' @ entry_name @ '' in '' @ dbg dirs @ '': '' @ e @ crlf
                    | Inr entry \<Rightarrow>
                        (if is_directory entry
                         then print_dir (entries_of ops
                           (case change_dir ops dir entry_name of Inr dir' \<Rightarrow> dir' | Inl _ \<Rightarrow> dir))
                         else print_entry entry))))"

text \<open>The command itself; the errors of opening the volume and its root directory are their \<open>Debug\<close> texts.\<close>

definition ls_command ::
    "(rstr option \<Rightarrow> rstr) \<Rightarrow> ('v \<Rightarrow> rstr + 'w) \<Rightarrow> ('w \<Rightarrow> rstr + 'd) \<Rightarrow> 'd directory \<Rightarrow> ('c, 'v) storage \<Rightarrow>
     rstr list \<Rightarrow> rstr" where
  "ls_command dbg open_vol open_root ops storage args =
     (case vol_mgr_of storage of
        None \<Rightarrow> ''No SD card is present'' @ crlf
      | Some mgr \<Rightarrow>
          (case open_vol mgr of
             Inl e \<Rightarrow> ''Failed to open vol0: '' @ e @ crlf
           | Inr vol \<Rightarrow>
               (case open_root vol of
                  Inl e \<Rightarrow> ''Failed to open root dir on vol0: '' @ e @ crlf
                | Inr root \<Rightarrow> ls_in_root dbg ops root args)))"

end
