(* ===== verification/SshKey.thy ===== *)
theory SshKey
  imports KeyFile Config Storage
begin

text \<open>
  The device's SSH key (\<open>src/sshkey.rs\<close>): kept in the configuration store, printed as an \<open>authorized_keys\<close> line,
  mirrored to the SD card, and backed up to and restored from a file there. An Ed25519 signing key is its 32-byte
  seed; \<open>vk\<close> gives the public key (\<open>ed25519_dalek\<close>), \<open>dbg\<close> the \<open>Debug\<close> text of an error of the card. The result
  \<^term>\<open>None\<close> is the panic of a configuration without flash, or of a driver that returns more than it was asked for.
\<close>

definition SSH_KEY_CONFIG :: rstr where "SSH_KEY_CONFIG = ''ssh_key''"
definition KEY_FILE_NAME :: rstr where "KEY_FILE_NAME = ''ssh_key.hex''"
definition PUBLIC_KEY_FILE_NAME :: rstr where "PUBLIC_KEY_FILE_NAME = ''ssh_key.pub''"
definition MAX_KEY_FILE_BYTES :: nat where "MAX_KEY_FILE_BYTES = 128"

text \<open>An apostrophe, for the messages.\<close>

definition quote :: rstr where "quote = [CHR 0x27]"

section \<open>The key in the store\<close>

definition load_signing_key :: "'f configuration \<Rightarrow> ('f configuration \<times> u8 list option) option" where
  "load_signing_key c = do {
     (c', r) \<leftarrow> config_fetch c SSH_KEY_CONFIG;
     Some (c', case r of Inr (Some stored) \<Rightarrow> decode_seed_exact stored | _ \<Rightarrow> None)
   }"

definition store_signing_key :: "'f configuration \<Rightarrow> u8 list \<Rightarrow> ('f configuration \<times> bool) option" where
  "store_signing_key c seed =
     (case from_utf8 (encode_seed seed) of
        None \<Rightarrow> Some (c, False)
      | Some hex \<Rightarrow>
          (case fixed_try_into STR_VALUE_LEN hex of
             Inl _ \<Rightarrow> Some (c, False)
           | Inr v \<Rightarrow> do { (c', r) \<leftarrow> config_store c SSH_KEY_CONFIG v; Some (c', r = Inr ()) }))"

section \<open>The public key\<close>

definition to_be_bytes :: "u32 \<Rightarrow> u8 list" where
  "to_be_bytes w = [ucast (drop_bit 24 w), ucast (drop_bit 16 w), ucast (drop_bit 8 w), ucast w]"

definition bytes_of :: "rstr \<Rightarrow> u8 list" where
  "bytes_of s = map (\<lambda>b. of_nat (nat_of_byte b)) s"

text \<open>\<open>blob[a..a + src.len()].copy_from_slice(src)\<close>.\<close>

definition copy_into :: "u8 list \<Rightarrow> nat \<Rightarrow> u8 list \<Rightarrow> u8 list" where
  "copy_into blob a src = take a blob @ src @ drop (a + length src) blob"

definition pubkey_blob :: "u8 list \<Rightarrow> u8 list" where
  "pubkey_blob pubkey =
     (let name = bytes_of ''ssh-ed25519'';
          blob = replicate 51 0;
          blob = copy_into blob 0 (to_be_bytes (of_nat (length name)));
          blob = copy_into blob 4 name;
          blob = copy_into blob 15 (to_be_bytes (of_nat (length pubkey)))
      in copy_into blob 19 pubkey)"

definition B64_ALPHABET :: rstr where
  "B64_ALPHABET = ''ABCDEFGHIJKLMNOPQRSTUVWXYZabcdefghijklmnopqrstuvwxyz0123456789+/''"

definition b64_char :: "u32 \<Rightarrow> char" where
  "b64_char n = B64_ALPHABET ! unat (n AND 0x3f)"

text \<open>\<open>heapless::String::push\<close> whose error is dropped: a full string stays as it is.\<close>

definition push96 :: "rstr \<Rightarrow> char \<Rightarrow> rstr" where
  "push96 out c = (if length out < 96 then out @ [c] else out)"

definition b64_word :: "u8 list \<Rightarrow> u32" where
  "b64_word chunk =
     (let b0 = ucast (chunk ! 0);
          b1 = (if 1 < length chunk then ucast (chunk ! 1) else 0);
          b2 = (if 2 < length chunk then ucast (chunk ! 2) else 0)
      in (push_bit 16 b0) OR (push_bit 8 b1) OR b2)"

definition b64_chunk :: "rstr \<Rightarrow> u8 list \<Rightarrow> rstr" where
  "b64_chunk out chunk =
     (let n = b64_word chunk;
          out = push96 out (b64_char (drop_bit 18 n));
          out = push96 out (b64_char (drop_bit 12 n));
          out = push96 out (if length chunk > 1 then b64_char (drop_bit 6 n) else CHR ''='')
      in push96 out (if length chunk > 2 then b64_char n else CHR ''=''))"

fun b64_from :: "rstr \<Rightarrow> u8 list \<Rightarrow> rstr" where
  "b64_from out [] = out"
| "b64_from out [a] = b64_chunk out [a]"
| "b64_from out [a, b] = b64_chunk out [a, b]"
| "b64_from out (a # b # c # bs) = b64_from (b64_chunk out [a, b, c]) bs"

definition base64_encode :: "u8 list \<Rightarrow> rstr" where
  "base64_encode input = b64_from [] input"

section \<open>Files in the root directory\<close>

text \<open>Opening the volume, its root directory and a file, which three commands do in the same order.\<close>

datatype open_failure = NoVolume sd_error | NoRoot sd_error | NoFile sd_error

definition open_root_file :: "'v vol_mgr \<Rightarrow> rstr \<Rightarrow> open_mode \<Rightarrow> 'v vol_mgr \<times> open_failure option" where
  "open_root_file vm name mode =
     (let (v1, r1) = open_volume vm (vm_state vm) 0
      in case r1 of
           Inl e \<Rightarrow> (vm\<lparr>vm_state := v1\<rparr>, Some (NoVolume e))
         | Inr _ \<Rightarrow>
             let (v2, r2) = open_root_dir vm v1
             in (case r2 of
                   Inl e \<Rightarrow> (vm\<lparr>vm_state := v2\<rparr>, Some (NoRoot e))
                 | Inr _ \<Rightarrow>
                     let (v3, r3) = open_file_in_dir vm v2 name mode
                     in (vm\<lparr>vm_state := v3\<rparr>, case r3 of Inl e \<Rightarrow> Some (NoFile e) | Inr _ \<Rightarrow> None)))"

definition close_file :: "'v vol_mgr \<Rightarrow> 'v vol_mgr \<times> (sd_error + unit)" where
  "close_file vm = (let (v, r) = file_close vm (vm_state vm) in (vm\<lparr>vm_state := v\<rparr>, r))"

text \<open>\<open>write\<close> chained by \<open>and_then\<close>: the first error, or none.\<close>

fun write_all :: "'v vol_mgr \<Rightarrow> rstr list \<Rightarrow> 'v vol_mgr \<times> sd_error option" where
  "write_all vm [] = (vm, None)"
| "write_all vm (bs # bss) =
     (let (v, r) = file_write vm (vm_state vm) bs; vm' = vm\<lparr>vm_state := v\<rparr>
      in case r of Inl e \<Rightarrow> (vm', Some e) | Inr _ \<Rightarrow> write_all vm' bss)"

definition not_mirroring :: rstr where
  "not_mirroring = ''; not mirroring the public key to '' @ PUBLIC_KEY_FILE_NAME @ ''.'' @ crlf"

definition mirrored_text :: rstr where
  "mirrored_text = ''Mirrored the public key to '' @ PUBLIC_KEY_FILE_NAME @ '' in the SD card'' @ quote
     @ ''s root directory.'' @ crlf"

definition public_file_error :: "rstr \<Rightarrow> rstr" where
  "public_file_error e = ''Failed to write '' @ PUBLIC_KEY_FILE_NAME @ '' to the SD card: '' @ e @ crlf"

definition write_public_key_to_sd ::
    "(sd_error \<Rightarrow> rstr) \<Rightarrow> rstr \<Rightarrow> 'v vol_mgr option \<Rightarrow> 'v vol_mgr option \<times> rstr" where
  "write_public_key_to_sd dbg encoded storage =
     (case storage of
        None \<Rightarrow> (None, ''No SD card is present'' @ not_mirroring)
      | Some vm \<Rightarrow>
          (case open_root_file vm PUBLIC_KEY_FILE_NAME ReadWriteCreateOrTruncate of
             (vm1, Some (NoVolume e)) \<Rightarrow> (Some vm1, ''Failed to open vol0: '' @ dbg e @ not_mirroring)
           | (vm1, Some (NoRoot e)) \<Rightarrow> (Some vm1, ''Failed to open the root directory on vol0: '' @ dbg e @ not_mirroring)
           | (vm1, Some (NoFile e)) \<Rightarrow> (Some vm1, public_file_error (dbg e))
           | (vm1, None) \<Rightarrow>
               (case write_all vm1 [''ssh-ed25519 '', encoded, '' picocalc-ssh-client'' @ [CHR 0x0a]] of
                  (vm2, Some e) \<Rightarrow> (Some (fst (close_file vm2)), public_file_error (dbg e))
                | (vm2, None) \<Rightarrow>
                    (case close_file vm2 of
                       (vm3, Inl e) \<Rightarrow> (Some vm3, public_file_error (dbg e))
                     | (vm3, Inr _) \<Rightarrow> (Some vm3, mirrored_text)))))"

text \<open>The line of \<open>authorized_keys\<close>; it is logged as well.\<close>

definition public_key_line :: "(u8 list \<Rightarrow> u8 list) \<Rightarrow> u8 list \<Rightarrow> rstr" where
  "public_key_line vk seed = ''ssh-ed25519 '' @ base64_encode (pubkey_blob (vk seed)) @ '' picocalc-ssh-client''"

definition print_public_key ::
    "(sd_error \<Rightarrow> rstr) \<Rightarrow> (u8 list \<Rightarrow> u8 list) \<Rightarrow> u8 list \<Rightarrow> 'v vol_mgr option \<Rightarrow> 'v vol_mgr option \<times> rstr" where
  "print_public_key dbg vk seed storage =
     (let encoded = base64_encode (pubkey_blob (vk seed));
          (storage', text) = write_public_key_to_sd dbg encoded storage
      in (storage', public_key_line vk seed @ crlf @ text))"

section \<open>The commands\<close>

definition no_key :: rstr where
  "no_key = ''No SSH key configured. Run `keygen` to create one.'' @ crlf"

definition key_exists :: "rstr \<Rightarrow> rstr" where
  "key_exists cmd = ''A key already exists. Use `'' @ cmd @ ''` to replace it (servers you'' @ quote
     @ ''ve already authorized will stop accepting it).'' @ crlf"

definition open_error :: "(sd_error \<Rightarrow> rstr) \<Rightarrow> rstr \<Rightarrow> open_failure \<Rightarrow> rstr" where
  "open_error dbg verb f =
     (case f of
        NoVolume e \<Rightarrow> ''Failed to open vol0: '' @ dbg e @ crlf
      | NoRoot e \<Rightarrow> ''Failed to open the root directory on vol0: '' @ dbg e @ crlf
      | NoFile e \<Rightarrow> ''Failed to '' @ verb @ '' '' @ KEY_FILE_NAME @ '' on the SD card: '' @ dbg e @ crlf)"

definition incomplete_copy :: rstr where
  "incomplete_copy = ''The SD card may now hold an incomplete copy; do not rely on it.'' @ crlf"

definition saved_text :: rstr where
  "saved_text = ''Saved the SSH private key to '' @ KEY_FILE_NAME @ '' in the SD card'' @ quote @ ''s root directory.'' @ crlf
     @ ''That file is the private key in plain text: treat the card as a secret, and don'' @ quote
     @ ''t leave it lying around.'' @ crlf"

text \<open>\<open>keygen save\<close> once the key is known.\<close>

definition save_to_card :: "(sd_error \<Rightarrow> rstr) \<Rightarrow> bool \<Rightarrow> u8 list \<Rightarrow> 'v vol_mgr \<Rightarrow> 'v vol_mgr \<times> rstr" where
  "save_to_card dbg force seed vm =
     (case open_root_file vm KEY_FILE_NAME (if force then ReadWriteCreateOrTruncate else ReadWriteCreate) of
        (vm1, Some f) \<Rightarrow>
          (vm1, if f = NoFile FileAlreadyExists
                then KEY_FILE_NAME @ '' already exists on the SD card. Use `keygen save force` to overwrite it.'' @ crlf
                else open_error dbg ''create'' f)
      | (vm1, None) \<Rightarrow>
          (case write_all vm1 [encode_seed seed] of
             (vm2, Some e) \<Rightarrow>
               (fst (close_file vm2), ''Failed to write '' @ KEY_FILE_NAME @ '': '' @ dbg e @ crlf @ incomplete_copy)
           | (vm2, None) \<Rightarrow>
               (case close_file vm2 of
                  (vm3, Inl e) \<Rightarrow> (vm3, ''Failed to save '' @ KEY_FILE_NAME @ '': '' @ dbg e @ crlf @ incomplete_copy)
                | (vm3, Inr _) \<Rightarrow> (vm3, saved_text))))"

definition save_key_command ::
    "(sd_error \<Rightarrow> rstr) \<Rightarrow> bool \<Rightarrow> 'f configuration \<Rightarrow> 'v vol_mgr option \<Rightarrow>
     ('f configuration \<times> 'v vol_mgr option \<times> rstr) option" where
  "save_key_command dbg force c storage = do {
     (c', key) \<leftarrow> load_signing_key c;
     Some (case key of
        None \<Rightarrow> (c', storage, no_key)
      | Some seed \<Rightarrow>
          (case storage of
             None \<Rightarrow> (c', None, ''No SD card is present'' @ crlf)
           | Some vm \<Rightarrow> (let (vm', text) = save_to_card dbg force seed vm in (c', Some vm', text))))
   }"

text \<open>The loop that reads the file into the buffer of 128 bytes.\<close>

datatype read_result = ReadText rstr | TooLarge | ReadFailed sd_error

function read_key_file :: "'v vol_mgr \<Rightarrow> rstr \<Rightarrow> ('v vol_mgr \<times> read_result) option" where
  "read_key_file vm buf =
     (let room = MAX_KEY_FILE_BYTES - length buf; (v, r) = file_read vm (vm_state vm) room; vm' = vm\<lparr>vm_state := v\<rparr>
      in case r of
           Inl e \<Rightarrow> Some (vm', ReadFailed e)
         | Inr bs \<Rightarrow>
             (if bs = [] then Some (vm', ReadText buf)
              else if length bs < room then read_key_file vm' (buf @ bs)
              else if length bs = room then Some (vm', TooLarge)
              else None))"
  by pat_completeness auto
termination
  by (relation "measure (\<lambda>(_, buf). MAX_KEY_FILE_BYTES - length buf)") (auto simp flip: length_greater_0_conv)

declare read_key_file.simps [simp del]

definition malformed :: "rstr \<Rightarrow> rstr" where
  "malformed why = KEY_FILE_NAME @ '' is malformed: '' @ why @ ''.'' @ crlf"

text \<open>What is read, before the configuration is touched: the seed, or the message.\<close>

definition seed_of_read :: "(sd_error \<Rightarrow> rstr) \<Rightarrow> read_result \<Rightarrow> rstr + u8 list" where
  "seed_of_read dbg r =
     (case r of
        ReadFailed e \<Rightarrow> Inl (''Failed to read '' @ KEY_FILE_NAME @ '': '' @ dbg e @ crlf)
      | TooLarge \<Rightarrow>
          Inl (malformed (''it is larger than '' @ show_nat MAX_KEY_FILE_BYTES @ '' bytes, not '' @ show_nat HEX_LEN
            @ '' hex characters''))
      | ReadText bytes \<Rightarrow>
          (case from_utf8 bytes of
             None \<Rightarrow> Inl (malformed ''it is not ASCII text'')
           | Some text \<Rightarrow>
               (case decode_seed_file text of
                  Inl err \<Rightarrow> Inl (malformed (show_key_file_error err))
                | Inr seed \<Rightarrow> Inr seed)))"

definition read_seed :: "(sd_error \<Rightarrow> rstr) \<Rightarrow> 'v vol_mgr \<Rightarrow> ('v vol_mgr \<times> (rstr + u8 list)) option" where
  "read_seed dbg vm =
     (case open_root_file vm KEY_FILE_NAME ReadOnly of
        (vm1, Some f) \<Rightarrow>
          Some (vm1, Inl (if f = NoFile NotFound
                then ''No '' @ KEY_FILE_NAME @ '' in the SD card'' @ quote @ ''s root directory.'' @ crlf
                else open_error dbg ''open'' f))
      | (vm1, None) \<Rightarrow> do {
          (vm2, r) \<leftarrow> read_key_file vm1 [];
          Some (fst (close_file vm2), seed_of_read dbg r)
        })"

text \<open>Storing a key and showing it, the end of \<open>keygen\<close> and of \<open>keygen load\<close>.\<close>

definition adopt_key ::
    "(sd_error \<Rightarrow> rstr) \<Rightarrow> (u8 list \<Rightarrow> u8 list) \<Rightarrow> rstr \<Rightarrow> u8 list \<Rightarrow> 'f configuration \<Rightarrow> 'v vol_mgr option \<Rightarrow>
     ('f configuration \<times> 'v vol_mgr option \<times> rstr) option" where
  "adopt_key dbg vk done_text seed c storage = do {
     (c', stored) \<leftarrow> store_signing_key c seed;
     Some (if stored
       then let (storage', text) = print_public_key dbg vk seed storage in (c', storage', done_text @ text)
       else (c', storage, ''failed to store key'' @ crlf))
   }"

definition load_key_command ::
    "(sd_error \<Rightarrow> rstr) \<Rightarrow> (u8 list \<Rightarrow> u8 list) \<Rightarrow> bool \<Rightarrow> 'f configuration \<Rightarrow> 'v vol_mgr option \<Rightarrow>
     ('f configuration \<times> 'v vol_mgr option \<times> rstr) option" where
  "load_key_command dbg vk force c storage = do {
     (c1, key) \<leftarrow> (if force then Some (c, None) else load_signing_key c);
     if key \<noteq> None then Some (c1, storage, key_exists ''keygen load force'')
     else (case storage of
        None \<Rightarrow> Some (c1, None, ''No SD card is present'' @ crlf)
      | Some vm \<Rightarrow> do {
          (vm', r) \<leftarrow> read_seed dbg vm;
          case r of
            Inl text \<Rightarrow> Some (c1, Some vm', text)
          | Inr seed \<Rightarrow>
              adopt_key dbg vk (''Loaded the SSH private key from '' @ KEY_FILE_NAME @ '' on the SD card.'' @ crlf @ crlf)
                seed c1 (Some vm')
        })
   }"

definition generate_key_command ::
    "(sd_error \<Rightarrow> rstr) \<Rightarrow> (u8 list \<Rightarrow> u8 list) \<Rightarrow> rstr + u8 list \<Rightarrow> bool \<Rightarrow> 'f configuration \<Rightarrow> 'v vol_mgr option \<Rightarrow>
     ('f configuration \<times> 'v vol_mgr option \<times> rstr) option" where
  "generate_key_command dbg vk generated force c storage = do {
     (c1, key) \<leftarrow> (if force then Some (c, None) else load_signing_key c);
     if key \<noteq> None then Some (c1, storage, key_exists ''keygen force'')
     else (case generated of
        Inl err \<Rightarrow> Some (c1, storage, ''keygen failed: '' @ err @ crlf)
      | Inr seed \<Rightarrow>
          adopt_key dbg vk (''New SSH key generated. Add this line to the server'' @ quote @ ''s ~/.ssh/authorized_keys:''
            @ crlf @ crlf) seed c1 storage)
   }"

definition keygen_usage :: rstr where
  "keygen_usage = ''Usage: keygen [force|show]'' @ crlf
     @ ''       keygen save [force]   (write the key to '' @ KEY_FILE_NAME @ '' on the SD card)'' @ crlf
     @ ''       keygen load [force]   (restore the key from '' @ KEY_FILE_NAME @ '' on the SD card)'' @ crlf
     @ ''       (the public key is also mirrored to '' @ PUBLIC_KEY_FILE_NAME
     @ '' on the SD card whenever it'' @ quote @ ''s generated or shown)'' @ crlf"

text \<open>\<open>keygen_command\<close>; \<open>generated\<close> is what \<open>SignKey::generate\<close> returns.\<close>

definition keygen_command ::
    "(sd_error \<Rightarrow> rstr) \<Rightarrow> (u8 list \<Rightarrow> u8 list) \<Rightarrow> rstr + u8 list \<Rightarrow> rstr list \<Rightarrow> 'f configuration \<Rightarrow> 'v vol_mgr option \<Rightarrow>
     ('f configuration \<times> 'v vol_mgr option \<times> rstr) option" where
  "keygen_command dbg vk generated args c storage =
     (if args = [''keygen''] \<or> args = [''keygen'', ''force'']
      then generate_key_command dbg vk generated (length args = 2) c storage
      else if args = [''keygen'', ''show''] then do {
        (c', key) \<leftarrow> load_signing_key c;
        Some (case key of
           Some seed \<Rightarrow> (let (storage', text) = print_public_key dbg vk seed storage in (c', storage', text))
         | None \<Rightarrow> (c', storage, no_key))
      }
      else if args = [''keygen'', ''save''] \<or> args = [''keygen'', ''save'', ''force'']
      then save_key_command dbg (length args = 3) c storage
      else if args = [''keygen'', ''load''] \<or> args = [''keygen'', ''load'', ''force'']
      then load_key_command dbg vk (length args = 3) c storage
      else Some (c, storage, keygen_usage))"

section \<open>Base64\<close>

text \<open>What the encoding has to mean: the usual decoder, four characters to at most three bytes.\<close>

fun char_index :: "rstr \<Rightarrow> char \<Rightarrow> nat option" where
  "char_index [] c = None"
| "char_index (a # as) c = (if a = c then Some 0 else map_option Suc (char_index as c))"

definition b64_val :: "char \<Rightarrow> u32 option" where
  "b64_val c = map_option of_nat (char_index B64_ALPHABET c)"

definition b64_group :: "char \<Rightarrow> char \<Rightarrow> char \<Rightarrow> char \<Rightarrow> u8 list option" where
  "b64_group a b c d = do {
     x \<leftarrow> b64_val a;
     y \<leftarrow> b64_val b;
     z \<leftarrow> (if c = CHR ''='' then Some 0 else b64_val c);
     w \<leftarrow> (if d = CHR ''='' then Some 0 else b64_val d);
     let n = push_bit 18 x OR push_bit 12 y OR push_bit 6 z OR w;
     Some (ucast (drop_bit 16 n)
       # (if c = CHR ''='' then [] else ucast (drop_bit 8 n) # (if d = CHR ''='' then [] else [ucast n])))
   }"

fun base64_decode :: "rstr \<Rightarrow> u8 list option" where
  "base64_decode [] = Some []"
| "base64_decode (a # b # c # d # cs) = do {
     bs \<leftarrow> b64_group a b c d;
     rest \<leftarrow> base64_decode cs;
     Some (bs @ rest)
   }"
| "base64_decode _ = None"

lemma char_index_nth: "distinct as \<Longrightarrow> i < length as \<Longrightarrow> char_index as (as ! i) = Some i"
proof (induction as arbitrary: i)
  case (Cons a as)
  then show ?case by (cases i) (auto simp: in_set_conv_nth)
qed simp

lemma B64_ALPHABET_facts: "length B64_ALPHABET = 64" "distinct B64_ALPHABET" "CHR ''='' \<notin> set B64_ALPHABET"
  by (simp_all add: B64_ALPHABET_def)

lemma sextet_bound: "unat (n AND 0x3f) < 64" for n :: u32
proof -
  have "n AND 0x3f \<le> 0x3f" by (rule word_and_le1)
  then show ?thesis by (simp add: word_le_nat_alt)
qed

lemma b64_val_char: "b64_val (b64_char n) = Some (n AND 0x3f)"
  using char_index_nth [of B64_ALPHABET "unat (n AND 0x3f)"] sextet_bound [of n]
  by (simp add: b64_val_def b64_char_def B64_ALPHABET_facts)

lemma b64_char_not_pad: "b64_char n \<noteq> CHR ''=''"
proof -
  have "b64_char n \<in> set B64_ALPHABET"
    using sextet_bound [of n] unfolding b64_char_def by (intro nth_mem) (simp add: B64_ALPHABET_facts)
  then show ?thesis using B64_ALPHABET_facts(3) by metis
qed

text \<open>The sextets of a word of 24 bits, put together again.\<close>

lemma bit_sextet_mask: "bit (0x3f :: u32) i \<longleftrightarrow> i < 6"
proof -
  have "(0x3f :: u32) = mask 6" by (simp add: mask_eq_exp_minus_1)
  then show ?thesis by (simp only: bit_mask_iff) auto
qed

lemma sextets_join_mask:
  fixes n m :: u32
  assumes m: "\<And>i. bit m i \<longleftrightarrow> i < 6"
  shows "push_bit 18 (drop_bit 18 n AND m) OR push_bit 12 (drop_bit 12 n AND m)
     OR push_bit 6 (drop_bit 6 n AND m) OR (n AND m) = take_bit 24 n"
proof (rule bit_word_eqI)
  fix i :: nat
  consider "i < 6" | "6 \<le> i" "i < 12" | "12 \<le> i" "i < 18" | "18 \<le> i" by linarith
  then show "bit (push_bit 18 (drop_bit 18 n AND m) OR push_bit 12 (drop_bit 12 n AND m)
     OR push_bit 6 (drop_bit 6 n AND m) OR (n AND m)) i = bit (take_bit 24 n) i"
    by cases (auto simp: bit_simps m less_diff_conv2)
qed

lemma sextets_join:
  "push_bit 18 (drop_bit 18 n AND 0x3f) OR push_bit 12 (drop_bit 12 n AND 0x3f)
     OR push_bit 6 (drop_bit 6 n AND 0x3f) OR (n AND 0x3f) = take_bit 24 n" for n :: u32
  by (rule sextets_join_mask [OF bit_sextet_mask])

lemma bytes_of_word:
  fixes a b c :: u8
  defines "n \<equiv> push_bit 16 (ucast a) OR push_bit 8 (ucast b) OR (ucast c :: u32)"
  shows "take_bit 24 n = n" and "ucast (drop_bit 16 n) = a" and "ucast (drop_bit 8 n) = b" and "ucast n = c"
proof -
  have byte: "bit x i \<Longrightarrow> i < 8" for x :: u8 and i using bit_imp_le_length [of x i] by simp
  show "take_bit 24 n = n" by (rule bit_word_eqI) (auto simp: n_def bit_simps dest: byte)
  show "ucast (drop_bit 16 n) = a" by (rule bit_word_eqI) (auto simp: n_def bit_simps dest: byte)
  show "ucast (drop_bit 8 n) = b" by (rule bit_word_eqI) (auto simp: n_def bit_simps dest: byte)
  show "ucast n = c" by (rule bit_word_eqI) (auto simp: n_def bit_simps dest: byte)
qed

text \<open>The four characters of a chunk decode to the chunk.\<close>

definition b64_quad :: "u8 list \<Rightarrow> rstr" where
  "b64_quad chunk =
     (let n = b64_word chunk
      in [b64_char (drop_bit 18 n), b64_char (drop_bit 12 n),
          if length chunk > 1 then b64_char (drop_bit 6 n) else CHR ''='',
          if length chunk > 2 then b64_char n else CHR ''=''])"

fun b64_quads :: "u8 list \<Rightarrow> rstr" where
  "b64_quads [] = []"
| "b64_quads [a] = b64_quad [a]"
| "b64_quads [a, b] = b64_quad [a, b]"
| "b64_quads (a # b # c # bs) = b64_quad [a, b, c] @ b64_quads bs"

lemma b64_word_eq:
  "b64_word [a, b, c] = push_bit 16 (ucast a) OR push_bit 8 (ucast b) OR ucast c"
  "b64_word [a, b] = push_bit 16 (ucast a) OR push_bit 8 (ucast b) OR ucast (0 :: u8)"
  "b64_word [a] = push_bit 16 (ucast a) OR push_bit 8 (ucast (0 :: u8)) OR ucast (0 :: u8)"
  by (simp_all add: b64_word_def)

lemma low_sextets_zero_mask:
  fixes a b :: u8 and m :: u32
  assumes m: "\<And>i. bit m i \<longleftrightarrow> i < 6"
  shows "(push_bit 16 (ucast a) OR push_bit 8 (ucast b) OR ucast (0 :: u8)) AND m = 0"
    and "drop_bit 6 (push_bit 16 (ucast a) OR push_bit 8 (ucast (0 :: u8)) OR ucast (0 :: u8)) AND m = 0"
  by (rule bit_word_eqI; auto simp: bit_simps m)+

lemmas low_sextets_zero = low_sextets_zero_mask [OF bit_sextet_mask]

lemma b64_group_word:
  fixes n :: u32
  assumes "push_bit 18 (drop_bit 18 n AND 0x3f) OR push_bit 12 (drop_bit 12 n AND 0x3f)
        OR push_bit 6 (drop_bit 6 n AND 0x3f) OR (n AND 0x3f) = n"
  shows "b64_group (b64_char (drop_bit 18 n)) (b64_char (drop_bit 12 n)) (b64_char (drop_bit 6 n)) (b64_char n)
      = Some [ucast (drop_bit 16 n), ucast (drop_bit 8 n), ucast n]"
    and "n AND 0x3f = 0 \<Longrightarrow>
      b64_group (b64_char (drop_bit 18 n)) (b64_char (drop_bit 12 n)) (b64_char (drop_bit 6 n)) (CHR ''='')
      = Some [ucast (drop_bit 16 n), ucast (drop_bit 8 n)]"
    and "n AND 0x3f = 0 \<Longrightarrow> drop_bit 6 n AND 0x3f = 0 \<Longrightarrow>
      b64_group (b64_char (drop_bit 18 n)) (b64_char (drop_bit 12 n)) (CHR ''='') (CHR ''='')
      = Some [ucast (drop_bit 16 n)]"
  using assms by (simp_all only: b64_group_def b64_val_char b64_char_not_pad if_False if_True bind.bind_lunit Let_def refl)

lemma b64_group_quad:
  shows "base64_decode (b64_quad [a, b, c] @ cs) = map_option ((@) [a, b, c]) (base64_decode cs)"
    and "base64_decode (b64_quad [a, b]) = Some [a, b]"
    and "base64_decode (b64_quad [a]) = Some [a]"
proof -
  have word: "ucast (drop_bit 16 n) = x \<and> ucast (drop_bit 8 n) = y \<and> ucast n = z
      \<and> push_bit 18 (drop_bit 18 n AND 0x3f) OR push_bit 12 (drop_bit 12 n AND 0x3f)
        OR push_bit 6 (drop_bit 6 n AND 0x3f) OR (n AND 0x3f) = n"
    if "n = push_bit 16 (ucast x) OR push_bit 8 (ucast y) OR ucast z" for n :: u32 and x y z :: u8
    using bytes_of_word [of x y z] unfolding sextets_join that by simp
  note quad = b64_quad_def Let_def b64_group_word
  show "base64_decode (b64_quad [a, b, c] @ cs) = map_option ((@) [a, b, c]) (base64_decode cs)"
    using word [OF b64_word_eq(1) [of a b c]] by (cases "base64_decode cs") (simp_all add: quad)
  show "base64_decode (b64_quad [a, b]) = Some [a, b]"
    using word [OF b64_word_eq(2) [of a b]] low_sextets_zero(1) [of a b, folded b64_word_eq(2)] by (simp add: quad)
  show "base64_decode (b64_quad [a]) = Some [a]"
    using word [OF b64_word_eq(3) [of a]] low_sextets_zero(1) [of a 0, folded b64_word_eq(3)]
      low_sextets_zero(2) [of a, folded b64_word_eq(3)] by (simp add: quad)
qed

lemma decode_quads: "base64_decode (b64_quads bs) = Some bs"
  by (induction bs rule: b64_quads.induct) (simp_all add: b64_group_quad)

lemma length_quad [simp]: "length (b64_quad chunk) = 4"
  by (simp add: b64_quad_def Let_def)

lemma length_quads: "length (b64_quads bs) = 4 * ((length bs + 2) div 3)"
proof (induction bs rule: b64_quads.induct)
  case (4 a b c bs)
  have "(5 + n) div 3 = Suc (Suc (Suc n) div 3)" for n :: nat by linarith
  with 4 show ?case by simp
qed simp_all

lemma b64_chunk_quad: "length out + 4 \<le> 96 \<Longrightarrow> b64_chunk out chunk = out @ b64_quad chunk"
  by (simp add: b64_chunk_def b64_quad_def push96_def Let_def)

lemma b64_from_quads: "length out + length (b64_quads bs) \<le> 96 \<Longrightarrow> b64_from out bs = out @ b64_quads bs"
  by (induction out bs rule: b64_from.induct) (simp_all add: b64_chunk_quad)

lemma base64_fits:
  assumes "length input \<le> 72"
  shows "base64_decode (base64_encode input) = Some input"
    and "length (base64_encode input) = 4 * ((length input + 2) div 3)"
proof -
  have "(length input + 2) div 3 \<le> 74 div 3" using assms by (intro div_le_mono) simp
  then have "4 * ((length input + 2) div 3) \<le> 96" by simp
  then have "base64_encode input = b64_quads input"
    using b64_from_quads [of "[]" input] by (simp add: base64_encode_def length_quads)
  then show "base64_decode (base64_encode input) = Some input"
    and "length (base64_encode input) = 4 * ((length input + 2) div 3)"
    by (simp_all add: decode_quads length_quads)
qed

lemma to_be_bytes_lengths: "to_be_bytes 11 = [0, 0, 0, 11]" "to_be_bytes 32 = [0, 0, 0, 32]"
  by (simp_all add: to_be_bytes_def)

lemma pubkey_blob_eq:
  assumes "length pk = 32"
  shows "pubkey_blob pk = [0, 0, 0, 11] @ bytes_of ''ssh-ed25519'' @ [0, 0, 0, 32] @ pk"
  using assms by (simp add: pubkey_blob_def copy_into_def bytes_of_def to_be_bytes_lengths Let_def)

text \<open>C32: the line shown for a key, and mirrored to the card, is one \<open>authorized_keys\<close> line whose middle field is base64
  of 68 characters that decodes to the key as SSH encodes it: the name and the public key, each preceded by its length.\<close>

theorem public_key_line_decodes:
  assumes "length (vk seed) = 32"
  shows "\<exists>field. public_key_line vk seed = ''ssh-ed25519 '' @ field @ '' picocalc-ssh-client''
    \<and> length field = 68
    \<and> base64_decode field = Some ([0, 0, 0, 11] @ bytes_of ''ssh-ed25519'' @ [0, 0, 0, 32] @ vk seed)"
proof -
  let ?blob = "pubkey_blob (vk seed)"
  have "length ?blob = 51" by (simp add: pubkey_blob_eq [OF assms] bytes_of_def assms)
  then show ?thesis
    using base64_fits [of ?blob] pubkey_blob_eq [OF assms] by (auto simp: public_key_line_def)
qed

theorem public_key_line_decodes_witness:
  "\<exists>field. public_key_line id (replicate 32 7) = ''ssh-ed25519 '' @ field @ '' picocalc-ssh-client'' \<and> length field = 68"
  using public_key_line_decodes [of id "replicate 32 7"] by auto

end
