(* ===== verification/KeyBackup.thy ===== *)
theory KeyBackup
  imports SshKey
begin

text \<open>
  What \<open>src/sshkey.rs\<close> promises: no command replaces a key without being told to, a file that is not a key changes
  nothing, a key saved on one device and loaded on another is the same key, and the mirrored public key is the one shown.
  The card is any that keeps the laws of \<open>vol_mgr_lawful\<close>, the flash any that keeps those of \<open>flash_lawful\<close>.
\<close>

section \<open>What the commands do to the card\<close>

abbreviation files :: "'v vol_mgr \<Rightarrow> rstr \<Rightarrow> rstr option" where
  "files vm \<equiv> card_files vm (vm_state vm)"

abbreviation open_file :: "'v vol_mgr \<Rightarrow> (rstr \<times> nat) option" where
  "open_file vm \<equiv> open_at vm (vm_state vm)"

definition same_driver :: "'v vol_mgr \<Rightarrow> 'v vol_mgr \<Rightarrow> bool" where
  "same_driver vm vm' \<longleftrightarrow> (\<exists>v. vm' = vm\<lparr>vm_state := v\<rparr>)"

lemma same_driverI [intro, simp]: "same_driver vm (vm\<lparr>vm_state := v\<rparr>)"
  by (auto simp: same_driver_def)

lemma same_driver_trans: "same_driver a b \<Longrightarrow> same_driver b c \<Longrightarrow> same_driver a c"
  by (auto simp: same_driver_def)

lemma same_driver_lawful: "same_driver vm vm' \<Longrightarrow> vol_mgr_lawful vm \<Longrightarrow> vol_mgr_lawful vm'"
  by (auto simp: same_driver_def)

lemma open_root_cases:
  assumes "open_root_file vm name mode = (vm1, f)"
  obtains (volume) v e where "open_volume vm (vm_state vm) 0 = (v, Inl e)" "vm1 = vm\<lparr>vm_state := v\<rparr>" "f = Some (NoVolume e)"
    | (root) v v' e where "open_volume vm (vm_state vm) 0 = (v, Inr ())" "open_root_dir vm v = (v', Inl e)"
        "vm1 = vm\<lparr>vm_state := v'\<rparr>" "f = Some (NoRoot e)"
    | (entry) v v' v'' r where "open_volume vm (vm_state vm) 0 = (v, Inr ())" "open_root_dir vm v = (v', Inr ())"
        "open_file_in_dir vm v' name mode = (v'', r)" "vm1 = vm\<lparr>vm_state := v''\<rparr>"
        "f = (case r of Inl e \<Rightarrow> Some (NoFile e) | Inr _ \<Rightarrow> None)"
  using assms by (auto simp: open_root_file_def Let_def split: prod.splits sum.splits)

lemma open_root_same: "open_root_file vm name mode = (vm1, f) \<Longrightarrow> same_driver vm vm1"
  by (erule open_root_cases) auto

lemma open_root_read:
  assumes "reading_lawful vm" and "open_root_file vm name ReadOnly = (vm1, f)"
  shows "files vm1 = files vm" and "f = None \<Longrightarrow> files vm name \<noteq> None \<and> open_file vm1 = Some (name, 0)"
    and "f = Some (NoFile NotFound) \<Longrightarrow> files vm name = None"
proof -
  note law = assms(1) [unfolded reading_lawful_def]
  have vol: "card_files vm v' = card_files vm v" if "open_volume vm v n = (v', r)" for v n v' r
    using law that by metis
  have root: "card_files vm v' = card_files vm v" if "open_root_dir vm v = (v', r)" for v v' r
    using law that by metis
  have opened: "card_files vm v' = card_files vm v"
      "r = Inr () \<longrightarrow> card_files vm v name \<noteq> None \<and> open_at vm v' = Some (name, 0)"
      "r = Inl NotFound \<longrightarrow> card_files vm v name = None"
    if "open_file_in_dir vm v name ReadOnly = (v', r)" for v v' r
    using law that by metis+
  from assms(2) show "files vm1 = files vm"
    by (cases rule: open_root_cases) (simp_all add: vol root opened(1))
  have dir: "card_files vm v' = files vm"
    if "open_volume vm (vm_state vm) 0 = (v, r)" "open_root_dir vm v = (v', r')" for v v' r r'
    using vol [OF that(1)] root [OF that(2)] by simp
  from assms(2) show "files vm name \<noteq> None \<and> open_file vm1 = Some (name, 0)" if "f = None"
    using that
  proof (cases rule: open_root_cases)
    case (entry v v' v'' r)
    with opened(2) [OF entry(3)] dir [OF entry(1,2)] that show ?thesis by (auto split: sum.splits)
  qed simp_all
  from assms(2) show "files vm name = None" if "f = Some (NoFile NotFound)"
    using that
  proof (cases rule: open_root_cases)
    case (entry v v' v'' r)
    with opened(3) [OF entry(3)] dir [OF entry(1,2)] that show ?thesis by (auto split: sum.splits)
  qed simp_all
qed

lemma open_root_write:
  assumes "vol_mgr_lawful vm" and "open_root_file vm name mode = (vm1, f)" and "mode \<noteq> ReadOnly"
  shows "f = None \<Longrightarrow> files vm1 = (files vm)(name \<mapsto> []) \<and> open_file vm1 = Some (name, 0)
      \<and> (mode = ReadWriteCreate \<longrightarrow> files vm name = None)"
    and "f \<noteq> None \<Longrightarrow> files vm1 = files vm"
proof -
  note law = assms(1) [unfolded vol_mgr_lawful_def reading_lawful_def writing_lawful_def]
  have vol: "card_files vm v' = card_files vm v" if "open_volume vm v n = (v', r)" for v n v' r
    using law that by metis
  have root: "card_files vm v' = card_files vm v" if "open_root_dir vm v = (v', r)" for v v' r
    using law that by metis
  have dir: "card_files vm v' = files vm"
    if "open_volume vm (vm_state vm) 0 = (v, r)" "open_root_dir vm v = (v', r')" for v v' r r'
    using vol [OF that(1)] root [OF that(2)] by simp
  have opened: "card_files vm v' = (card_files vm v)(name \<mapsto> []) \<and> open_at vm v' = Some (name, 0)
      \<and> (mode = ReadWriteCreate \<longrightarrow> card_files vm v name = None)"
    if "open_file_in_dir vm v name mode = (v', Inr ())" for v v'
    using law that assms(3) by metis
  have failed: "card_files vm v' = card_files vm v" if "open_file_in_dir vm v name mode = (v', Inl e)" for v v' e
    using law that by metis
  from assms(2) show "files vm1 = (files vm)(name \<mapsto> []) \<and> open_file vm1 = Some (name, 0)
      \<and> (mode = ReadWriteCreate \<longrightarrow> files vm name = None)" if "f = None"
    using that
  proof (cases rule: open_root_cases)
    case (entry v v' v'' r)
    then have "r = Inr ()" using that by (cases r) simp_all
    with opened [of v' v''] dir [OF entry(1,2)] entry show ?thesis by simp
  qed simp_all
  from assms(2) show "files vm1 = files vm" if failure: "f \<noteq> None"
    using failure
  proof (cases rule: open_root_cases)
    case (entry v v' v'' r)
    then obtain e where "r = Inl e" using failure by (cases r) simp_all
    with failed [of v' v'' e] dir [OF entry(1,2)] entry show ?thesis by simp
  qed (auto dest: vol root dir)
qed

lemma close_law:
  assumes "vol_mgr_lawful vm" and "close_file vm = (vm', r)"
  shows "files vm' = files vm" and "same_driver vm vm'"
proof -
  obtain v where v: "file_close vm (vm_state vm) = (v, r)" "vm' = vm\<lparr>vm_state := v\<rparr>"
    using assms(2) by (auto simp: close_file_def split: prod.splits)
  have "card_files vm v = files vm"
    using assms(1) v(1) unfolding vol_mgr_lawful_def writing_lawful_def by metis
  with v(2) show "files vm' = files vm" "same_driver vm vm'" by simp_all
qed

text \<open>Writing pieces one after the other to a file just opened: their concatenation, or an error and only that file changed.\<close>

lemma write_all_law:
  assumes "vol_mgr_lawful vm" and "write_all vm pieces = (vm', e)"
    and "open_file vm = Some (name, length data)" and "files vm name = Some data"
  shows "same_driver vm vm' \<and> (\<forall>j. j \<noteq> name \<longrightarrow> files vm' j = files vm j)
    \<and> (e = None \<longrightarrow> files vm' name = Some (data @ concat pieces))"
  using assms
proof (induction pieces arbitrary: vm data)
  case Nil
  then show ?case by (auto simp: same_driver_def intro: exI [of _ "vm_state vm"])
next
  case (Cons bs pieces)
  obtain v r where w: "file_write vm (vm_state vm) bs = (v, r)" by fastforce
  note law = Cons.prems(1) [unfolded vol_mgr_lawful_def writing_lawful_def]
  show ?case
  proof (cases r)
    case (Inl err)
    have "\<forall>j. j \<noteq> name \<longrightarrow> card_files vm v j = files vm j"
      using law w Cons.prems(3) unfolding Inl by metis
    with Cons.prems(2) w Inl show ?thesis by (auto simp: Let_def)
  next
    case (Inr u)
    have upd: "card_files vm v = (files vm)(name \<mapsto> take (length data) data @ bs)"
        "open_at vm v = Some (name, length data + length bs)"
      using law w Cons.prems(3,4) unfolding Inr by (metis old.unit.exhaust)+
    have "write_all (vm\<lparr>vm_state := v\<rparr>) pieces = (vm', e)"
      using Cons.prems(2) w Inr by (simp add: Let_def)
    from Cons.IH [OF _ this, of "data @ bs"] Cons.prems(1) upd show ?thesis
      by (auto intro: same_driver_trans [OF same_driverI])
  qed
qed

text \<open>The loop that reads a file always comes to an end, with all of a file of less than 128 bytes.\<close>

lemma read_key_file_law:
  assumes "vol_mgr_lawful vm" and "open_file vm = Some (name, length buf)" and "files vm name = Some data"
    and "buf = take (length buf) data" and "length buf < MAX_KEY_FILE_BYTES"
  shows "\<exists>vm' r. read_key_file vm buf = Some (vm', r) \<and> same_driver vm vm' \<and> files vm' = files vm
    \<and> (case r of ReadText text \<Rightarrow> text = data \<and> length data < MAX_KEY_FILE_BYTES
       | TooLarge \<Rightarrow> MAX_KEY_FILE_BYTES \<le> length data | ReadFailed _ \<Rightarrow> True)"
  using assms
proof (induction vm buf rule: read_key_file.induct)
  case (1 vm buf)
  let ?room = "MAX_KEY_FILE_BYTES - length buf"
  obtain v r where read: "file_read vm (vm_state vm) ?room = (v, r)" by fastforce
  let ?vm = "vm\<lparr>vm_state := v\<rparr>"
  note law = 1(2) [unfolded vol_mgr_lawful_def reading_lawful_def]
  note step = read_key_file.simps [of vm buf] read Let_def
  show ?case
  proof (cases r)
    case (Inl e)
    have "card_files vm v = files vm" using law read unfolding Inl by metis
    with Inl show ?thesis by (simp add: step)
  next
    case (Inr bs)
    have bs: "card_files vm v = files vm" "bs = take (length bs) (drop (length buf) data)" "length bs \<le> ?room"
        "bs = [] \<longrightarrow> ?room = 0 \<or> length data \<le> length buf" "open_at vm v = Some (name, length buf + length bs)"
      using law read 1(3,4) unfolding Inr by metis+
    have whole: "buf @ bs = take (length (buf @ bs)) data"
      using 1(5) bs(2) by (metis length_append take_add)
    consider "bs = []" | "bs \<noteq> []" "length bs < ?room" | "bs \<noteq> []" "length bs = ?room" using bs(3) by linarith
    then show ?thesis
    proof cases
      case 1
      with bs(4) \<open>length buf < MAX_KEY_FILE_BYTES\<close> have "length data \<le> length buf" by simp
      with \<open>buf = take (length buf) data\<close> have "buf = data" by simp
      moreover have "read_key_file vm buf = Some (?vm, ReadText buf)" using 1 Inr by (simp add: step)
      ultimately show ?thesis using bs(1) \<open>length buf < MAX_KEY_FILE_BYTES\<close> by simp
    next
      case 2
      have "\<exists>vm' r. read_key_file ?vm (buf @ bs) = Some (vm', r) \<and> same_driver ?vm vm' \<and> files vm' = files ?vm
        \<and> (case r of ReadText text \<Rightarrow> text = data \<and> length data < MAX_KEY_FILE_BYTES
           | TooLarge \<Rightarrow> MAX_KEY_FILE_BYTES \<le> length data | ReadFailed _ \<Rightarrow> True)"
        using 1(1) [OF refl refl read [symmetric] refl Inr 2] 1(2,4) bs(1,5) whole 2(2) by simp
      with 2 Inr bs(1) show ?thesis
        by (simp add: step) (metis same_driverI same_driver_trans)
    next
      case 3
      have "length (buf @ bs) \<le> length data" using whole by (metis length_take min.cobounded1)
      with 3 Inr bs(1) \<open>length buf < MAX_KEY_FILE_BYTES\<close> show ?thesis by (simp add: step)
    qed
  qed
qed

section \<open>The key in the store\<close>

definition stored_key :: "'f configuration \<Rightarrow> u8 list option" where
  "stored_key c = Option.bind (config_view c SSH_KEY_CONFIG) decode_seed_exact"

lemma stored_key_length: "stored_key c = Some seed \<Longrightarrow> length seed = SEED_LEN"
proof -
  have "decode_seed_exact s = Some seed \<Longrightarrow> length seed = SEED_LEN" for s
    by (cases "decode_hex s") (simp_all add: decode_seed_exact_def decode_hex_length)
  then show "stored_key c = Some seed \<Longrightarrow> ?thesis" by (auto simp: stored_key_def bind_eq_Some_conv)
qed

lemma decode_file_length: "decode_seed_file text = Inr seed \<Longrightarrow> length seed = SEED_LEN"
  by (simp add: decode_seed_file_def decode_hex_length)

lemma stored_key_upd:
  assumes "length seed = SEED_LEN" and "config_view c' = (config_view c)(SSH_KEY_CONFIG \<mapsto> encode_seed seed)"
  shows "stored_key c' = Some seed"
  using encode_seed_decodes [of seed "[]" "[]"] assms by (simp add: stored_key_def)

lemma load_signing_law:
  assumes "config_inv c"
  obtains c' where "load_signing_key c = Some (c', stored_key c)" "config_inv c'" "config_view c' = config_view c"
proof -
  have "length SSH_KEY_CONFIG \<le> 32" by (simp add: SSH_KEY_CONFIG_def)
  from conf.fetch_short [OF assms this] obtain c' where
    "config_fetch c SSH_KEY_CONFIG = Some (c', Inr (config_view c SSH_KEY_CONFIG))" "config_inv c'" "config_view c' = config_view c"
    by blast
  then show thesis
    by (intro that [of c'])
      (auto simp: load_signing_key_def stored_key_def split: option.splits)
qed

lemma store_signing_law:
  assumes "config_inv c" and "length seed = SEED_LEN"
  obtains (stored) c' where "store_signing_key c seed = Some (c', True)" "config_inv c'"
      "config_view c' = (config_view c)(SSH_KEY_CONFIG \<mapsto> encode_seed seed)"
    | (refused) c' where "store_signing_key c seed = Some (c', False)" "config_inv c'" "config_view c' = config_view c"
proof -
  have "length (encode_seed seed) \<le> STR_VALUE_LEN"
    using encode_seed_decodes [OF assms(2), of "[]" "[]"] by (simp add: HEX_LEN_def SEED_LEN_def STR_VALUE_LEN_def)
  then have eq: "store_signing_key c seed = do { (c', r) \<leftarrow> config_store c SSH_KEY_CONFIG (encode_seed seed); Some (c', r = Inr ()) }"
    by (simp add: store_signing_key_def from_utf8_def utf8_valid_ascii encode_seed_ascii assms(2) fixed_try_into_eq)
  show thesis
    using assms(1)
  proof (cases rule: conf.put_cases [of c SSH_KEY_CONFIG "encode_seed seed"])
    case (stored c')
    then show thesis by (intro that(1) [of c']) (simp_all add: eq)
  next
    case (refused c' e)
    then show thesis by (intro that(2) [of c']) (simp_all add: eq)
  qed
qed

section \<open>Reading the file\<close>

lemma read_seed_law:
  assumes "vol_mgr_lawful vm"
  obtains vm' r where "read_seed dbg vm = Some (vm', r)" "same_driver vm vm'" "files vm' = files vm"
    "\<And>seed. r = Inr seed \<Longrightarrow> \<exists>data. files vm KEY_FILE_NAME = Some data \<and> length data < MAX_KEY_FILE_BYTES
       \<and> decode_seed_file data = Inr seed"
    "\<And>data seed text. files vm KEY_FILE_NAME = Some data \<Longrightarrow> length data < MAX_KEY_FILE_BYTES \<Longrightarrow> utf8_valid data
       \<Longrightarrow> decode_seed_file data = Inr seed \<Longrightarrow> r = Inl text \<Longrightarrow> (\<exists>f. f \<noteq> NoFile NotFound \<and> text = open_error dbg ''open'' f)
         \<or> (\<exists>e. text = ''Failed to read '' @ KEY_FILE_NAME @ '': '' @ dbg e @ crlf)"
proof -
  obtain vm1 f where opened: "open_root_file vm KEY_FILE_NAME ReadOnly = (vm1, f)" by fastforce
  have lawful: "reading_lawful vm" using assms by (simp add: vol_mgr_lawful_def)
  note was_open = open_root_same [OF opened] open_root_read [OF lawful opened]
  show thesis
  proof (cases f)
    case (Some g)
    obtain answer where "read_seed dbg vm = Some (vm1, Inl answer)"
        "g \<noteq> NoFile NotFound \<Longrightarrow> answer = open_error dbg ''open'' g"
      using opened Some by (simp add: read_seed_def)
    with Some was_open show thesis by (intro that [of vm1 "Inl answer"]) auto
  next
    case None
    obtain data where data: "files vm1 KEY_FILE_NAME = Some data" using was_open(2,3) None by auto
    have "vol_mgr_lawful vm1" "open_file vm1 = Some (KEY_FILE_NAME, length ([] :: rstr))"
        "([] :: rstr) = take (length ([] :: rstr)) data" "length ([] :: rstr) < MAX_KEY_FILE_BYTES"
      using same_driver_lawful [OF was_open(1) assms] was_open(3) None by (simp_all add: MAX_KEY_FILE_BYTES_def)
    from read_key_file_law [OF this(1,2) data this(3,4)] obtain vm2 r where
      r: "read_key_file vm1 [] = Some (vm2, r)" "same_driver vm1 vm2" "files vm2 = files vm1"
        "case r of ReadText text \<Rightarrow> text = data \<and> length data < MAX_KEY_FILE_BYTES
         | TooLarge \<Rightarrow> MAX_KEY_FILE_BYTES \<le> length data | ReadFailed _ \<Rightarrow> True"
      by blast
    obtain vm3 u where closed: "close_file vm2 = (vm3, u)" by fastforce
    have lawful2: "vol_mgr_lawful vm2"
      using same_driver_lawful [OF r(2)] same_driver_lawful [OF was_open(1) assms] by simp
    have seed: "read_seed dbg vm = Some (vm3, seed_of_read dbg r)"
      using opened None r(1) closed by (simp add: read_seed_def)
    show thesis
    proof (rule that [OF seed])
      show "same_driver vm vm3"
        using was_open(1) r(2) close_law(2) [OF lawful2 closed] same_driver_trans by metis
      show "files vm3 = files vm"
        using close_law(1) [OF lawful2 closed] r(3) was_open(2) by simp
    qed (use r(4) data was_open(2) in \<open>auto simp: seed_of_read_def from_utf8_def split: read_result.splits if_splits sum.splits\<close>)
  qed
qed

section \<open>Writing the two files\<close>

definition only_file_changed :: "rstr \<Rightarrow> 'v vol_mgr \<Rightarrow> 'v vol_mgr \<Rightarrow> bool" where
  "only_file_changed name vm vm' \<longleftrightarrow> same_driver vm vm' \<and> (\<forall>j. j \<noteq> name \<longrightarrow> files vm' j = files vm j)"

lemma unchanged_refl: "only_file_changed name vm vm"
  by (auto simp: only_file_changed_def same_driver_def intro: exI [of _ "vm_state vm"])

text \<open>Opening for writing, writing all pieces and closing, as far as it goes.\<close>

lemma write_file_law:
  assumes "vol_mgr_lawful vm" and "open_root_file vm name mode = (vm1, None)" and "mode \<noteq> ReadOnly"
    and "write_all vm1 pieces = (vm2, e)" and "close_file vm2 = (vm3, r)"
  shows "only_file_changed name vm vm3" and "e = None \<Longrightarrow> files vm3 name = Some (concat pieces)"
    and "mode = ReadWriteCreate \<Longrightarrow> files vm name = None"
proof -
  note opened = open_root_same [OF assms(2)] open_root_write(1) [OF assms(1,2,3) refl]
  have lawful1: "vol_mgr_lawful vm1" using opened(1) assms(1) by (rule same_driver_lawful)
  have "open_file vm1 = Some (name, length ([] :: rstr))" "files vm1 name = Some []" using opened(2) by simp_all
  note written = write_all_law [OF lawful1 assms(4) this]
  have lawful2: "vol_mgr_lawful vm2" using written lawful1 by (blast intro: same_driver_lawful)
  note closed = close_law [OF lawful2 assms(5)]
  have "same_driver vm vm3" using opened(1) written closed(2) same_driver_trans by metis
  then show "only_file_changed name vm vm3" using opened(2) written closed(1) by (simp add: only_file_changed_def)
  show "files vm3 name = Some (concat pieces)" if "e = None" using written closed(1) that by simp
  show "files vm name = None" if "mode = ReadWriteCreate" using opened(2) that by simp
qed

lemma open_failed_law:
  assumes "vol_mgr_lawful vm" and "open_root_file vm name mode = (vm1, Some f)" and "mode \<noteq> ReadOnly"
  shows "only_file_changed name vm vm1" and "files vm1 = files vm"
  using open_root_same [OF assms(2)] open_root_write(2) [OF assms] by (simp_all add: only_file_changed_def)

lemma mirror_law:
  assumes "vol_mgr_lawful vm" and "write_public_key_to_sd dbg encoded (Some vm) = (storage', answer)"
  obtains vm' where "storage' = Some vm'" "only_file_changed PUBLIC_KEY_FILE_NAME vm vm'"
    "answer = mirrored_text \<Longrightarrow>
       files vm' PUBLIC_KEY_FILE_NAME = Some (''ssh-ed25519 '' @ encoded @ '' picocalc-ssh-client'' @ [CHR 0x0a])"
proof -
  let ?pieces = "[''ssh-ed25519 '', encoded, '' picocalc-ssh-client'' @ [CHR 0x0a]]"
  have texts: "''Failed to open'' @ x \<noteq> mirrored_text" "public_file_error x \<noteq> mirrored_text" for x
    by (simp_all add: mirrored_text_def public_file_error_def)
  obtain vm1 f where opened: "open_root_file vm PUBLIC_KEY_FILE_NAME ReadWriteCreateOrTruncate = (vm1, f)" by fastforce
  obtain vm2 e where written: "write_all vm1 ?pieces = (vm2, e)" by fastforce
  obtain vm3 r where closed: "close_file vm2 = (vm3, r)" by fastforce
  show thesis
  proof (cases f)
    case (Some g)
    note failed = open_failed_law [OF assms(1) opened [unfolded Some]]
    have "storage' = Some vm1 \<and> answer \<noteq> mirrored_text"
      using assms(2) opened Some texts
      by (cases g) (auto simp: write_public_key_to_sd_def mirrored_text_def public_file_error_def)
    with failed show thesis by (intro that [of vm1]) simp_all
  next
    case None
    note wrote = write_file_law [OF assms(1) opened [unfolded None] _ written closed]
    have "storage' = Some vm3" "answer = mirrored_text \<Longrightarrow> e = None"
      using assms(2) opened None written closed texts
      by (auto simp: write_public_key_to_sd_def split: option.splits sum.splits)
    with wrote show thesis by (intro that [of vm3]) simp_all
  qed
qed

lemma save_law:
  assumes "vol_mgr_lawful vm" and "save_to_card dbg force seed vm = (vm', answer)"
  shows "only_file_changed KEY_FILE_NAME vm vm'"
    and "\<not> force \<Longrightarrow> files vm KEY_FILE_NAME \<noteq> None \<Longrightarrow> files vm' = files vm"
    and "answer = saved_text \<Longrightarrow> files vm' KEY_FILE_NAME = Some (encode_seed seed)"
proof -
  let ?mode = "if force then ReadWriteCreateOrTruncate else ReadWriteCreate"
  have mode: "?mode \<noteq> ReadOnly" by simp
  have texts: "open_error dbg verb g \<noteq> saved_text" "KEY_FILE_NAME @ x \<noteq> saved_text" for verb g x
    by (cases g; simp add: open_error_def saved_text_def) (simp add: KEY_FILE_NAME_def saved_text_def)
  obtain vm1 f where opened: "open_root_file vm KEY_FILE_NAME ?mode = (vm1, f)" by fastforce
  obtain vm2 e where written: "write_all vm1 [encode_seed seed] = (vm2, e)" by fastforce
  obtain vm3 r where closed: "close_file vm2 = (vm3, r)" by fastforce
  have "only_file_changed KEY_FILE_NAME vm vm'
    \<and> (\<not> force \<and> files vm KEY_FILE_NAME \<noteq> None \<longrightarrow> files vm' = files vm)
    \<and> (answer = saved_text \<longrightarrow> files vm' KEY_FILE_NAME = Some (encode_seed seed))"
  proof (cases f)
    case (Some g)
    note failed = open_failed_law [OF assms(1) opened [unfolded Some] mode]
    have "vm' = vm1 \<and> answer \<noteq> saved_text"
      using assms(2) opened Some texts by (auto simp: save_to_card_def split: if_splits)
    with failed show ?thesis by simp
  next
    case None
    note wrote = write_file_law [OF assms(1) opened [unfolded None] mode written closed]
    have "vm' = vm3" "answer = saved_text \<Longrightarrow> e = None"
      using assms(2) opened None written closed
      by (auto simp: save_to_card_def saved_text_def split: option.splits sum.splits)
    with wrote show ?thesis by auto
  qed
  then show "only_file_changed KEY_FILE_NAME vm vm'"
    and "\<not> force \<Longrightarrow> files vm KEY_FILE_NAME \<noteq> None \<Longrightarrow> files vm' = files vm"
    and "answer = saved_text \<Longrightarrow> files vm' KEY_FILE_NAME = Some (encode_seed seed)" by blast+
qed

section \<open>The commands\<close>

lemma print_key_law:
  assumes "vol_mgr_lawful vm" and "print_public_key dbg vk seed (Some vm) = (storage', answer)"
  obtains vm' where "storage' = Some vm'" "only_file_changed PUBLIC_KEY_FILE_NAME vm vm'"
    "answer = public_key_line vk seed @ crlf @ mirrored_text \<Longrightarrow>
       files vm' PUBLIC_KEY_FILE_NAME = Some (public_key_line vk seed @ [CHR 0x0a])"
proof -
  let ?encoded = "base64_encode (pubkey_blob (vk seed))"
  obtain st rest where w: "write_public_key_to_sd dbg ?encoded (Some vm) = (st, rest)" by fastforce
  with assms(2) have "storage' = st" "answer = public_key_line vk seed @ crlf @ rest"
    by (simp_all add: print_public_key_def Let_def)
  with mirror_law [OF assms(1) w] that show thesis by (auto simp: public_key_line_def)
qed

lemma adopt_law:
  assumes "config_inv c" and "vol_mgr_lawful vm" and "length seed = SEED_LEN"
  obtains (adopted) c' vm' rest where "adopt_key dbg vk done_text seed c (Some vm) = Some (c', Some vm', done_text @ rest)"
      "config_view c' = (config_view c)(SSH_KEY_CONFIG \<mapsto> encode_seed seed)" "only_file_changed PUBLIC_KEY_FILE_NAME vm vm'"
    | (refused) c' where "adopt_key dbg vk done_text seed c (Some vm) = Some (c', Some vm, ''failed to store key'' @ crlf)"
      "config_view c' = config_view c"
  using assms(1,3)
proof (cases rule: store_signing_law)
  case (stored c')
  obtain st rest where p: "print_public_key dbg vk seed (Some vm) = (st, rest)" by fastforce
  from print_key_law [OF assms(2) p] obtain vm' where "st = Some vm'" "only_file_changed PUBLIC_KEY_FILE_NAME vm vm'"
    by blast
  with stored p show thesis by (intro adopted [of c' vm' rest]) (simp_all add: adopt_key_def)
next
  case (refused c')
  then show thesis by (intro that(2) [of c']) (simp_all add: adopt_key_def)
qed

text \<open>What \<open>keygen load\<close> does: refuses, fails to read, or adopts the seed of the file.\<close>

lemma load_law:
  assumes "config_inv c" and "vol_mgr_lawful vm"
  obtains (unchanged) c' vm' answer where "load_key_command dbg vk force c (Some vm) = Some (c', Some vm', answer)"
      "config_view c' = config_view c" "files vm' = files vm" "same_driver vm vm'"
      "\<And>data seed. force \<Longrightarrow> files vm KEY_FILE_NAME = Some data \<Longrightarrow> length data < MAX_KEY_FILE_BYTES \<Longrightarrow> utf8_valid data
         \<Longrightarrow> decode_seed_file data = Inr seed \<Longrightarrow> (\<exists>f. f \<noteq> NoFile NotFound \<and> answer = open_error dbg ''open'' f)
           \<or> (\<exists>e. answer = ''Failed to read '' @ KEY_FILE_NAME @ '': '' @ dbg e @ crlf) \<or> answer = ''failed to store key'' @ crlf"
    | (loaded) c' vm' answer data seed where "load_key_command dbg vk force c (Some vm) = Some (c', Some vm', answer)"
      "force \<or> stored_key c = None" "files vm KEY_FILE_NAME = Some data" "length data < MAX_KEY_FILE_BYTES"
      "decode_seed_file data = Inr seed" "config_view c' = (config_view c)(SSH_KEY_CONFIG \<mapsto> encode_seed seed)"
      "only_file_changed PUBLIC_KEY_FILE_NAME vm vm'"
proof -
  obtain c0 where c0: "load_signing_key c = Some (c0, stored_key c)" "config_inv c0" "config_view c0 = config_view c"
    using load_signing_law [OF assms(1)] by blast
  obtain c1 where first: "(if force then Some (c, None) else load_signing_key c) = Some (c1, if force then None else stored_key c)"
      "config_inv c1" "config_view c1 = config_view c"
    by (rule that [of "if force then c else c0"]) (simp_all add: c0 assms(1))
  obtain vm1 r where r: "read_seed dbg vm = Some (vm1, r)" "same_driver vm vm1" "files vm1 = files vm"
    "\<And>seed. r = Inr seed \<Longrightarrow> \<exists>data. files vm KEY_FILE_NAME = Some data \<and> length data < MAX_KEY_FILE_BYTES
       \<and> decode_seed_file data = Inr seed"
    "\<And>data seed t. files vm KEY_FILE_NAME = Some data \<Longrightarrow> length data < MAX_KEY_FILE_BYTES \<Longrightarrow> utf8_valid data
       \<Longrightarrow> decode_seed_file data = Inr seed \<Longrightarrow> r = Inl t \<Longrightarrow> (\<exists>f. f \<noteq> NoFile NotFound \<and> t = open_error dbg ''open'' f)
         \<or> (\<exists>e. t = ''Failed to read '' @ KEY_FILE_NAME @ '': '' @ dbg e @ crlf)"
    using read_seed_law [OF assms(2)] by blast
  have lawful1: "vol_mgr_lawful vm1" using r(2) assms(2) by (rule same_driver_lawful)
  show thesis
  proof (cases "\<not> force \<and> stored_key c \<noteq> None")
    case True
    then show thesis
      using first by (intro unchanged [of c1 vm]) (auto simp: load_key_command_def same_driver_def intro: exI [of _ "vm_state vm"])
  next
    case False
    show thesis
    proof (cases r)
      case (Inl t)
      then show thesis
        using first False r by (intro unchanged [of c1 vm1 t]) (auto simp: load_key_command_def)
    next
      case (Inr seed)
      obtain data where data: "files vm KEY_FILE_NAME = Some data" "length data < MAX_KEY_FILE_BYTES"
          "decode_seed_file data = Inr seed" using r(4) [OF Inr] by blast
      let ?done = "''Loaded the SSH private key from '' @ KEY_FILE_NAME @ '' on the SD card.'' @ crlf @ crlf"
      have eq: "load_key_command dbg vk force c (Some vm) = adopt_key dbg vk ?done seed c1 (Some vm1)"
        using first False r Inr by (auto simp: load_key_command_def)
      from first(2) lawful1 decode_file_length [OF data(3)] show thesis
      proof (cases rule: adopt_law [where dbg = dbg and vk = vk and done_text = ?done])
        case (adopted c' vm' rest)
        have "only_file_changed PUBLIC_KEY_FILE_NAME vm vm'"
          using adopted(3) r(2,3) by (auto simp: only_file_changed_def intro: same_driver_trans)
        then show thesis
          using adopted data False first(3) by (intro loaded [of c' vm' "?done @ rest" data seed]) (auto simp only: eq)
      next
        case (refused c')
        then show thesis
          using r(2,3) first(3) by (intro unchanged [of c' vm1 "''failed to store key'' @ crlf"]) (auto simp only: eq)
      qed
    qed
  qed
qed

lemma save_command_law:
  assumes "config_inv c" and "vol_mgr_lawful vm"
  obtains c' vm' answer where "save_key_command dbg force c (Some vm) = Some (c', Some vm', answer)"
    "config_view c' = config_view c" "only_file_changed KEY_FILE_NAME vm vm'"
    "\<not> force \<Longrightarrow> files vm KEY_FILE_NAME \<noteq> None \<Longrightarrow> files vm' = files vm"
    "\<And>seed. answer = saved_text \<Longrightarrow> stored_key c = Some seed \<Longrightarrow> files vm' KEY_FILE_NAME = Some (encode_seed seed)"
proof -
  obtain c1 where c1: "load_signing_key c = Some (c1, stored_key c)" "config_view c1 = config_view c"
    using load_signing_law [OF assms(1)] by blast
  show thesis
  proof (cases "stored_key c")
    case None
    have "same_driver vm vm" by (auto simp: same_driver_def intro: exI [of _ "vm_state vm"])
    with None c1 show thesis by (intro that [of c1 vm no_key]) (simp_all add: save_key_command_def only_file_changed_def)
  next
    case (Some seed)
    obtain vm' answer where w: "save_to_card dbg force seed vm = (vm', answer)" by fastforce
    with Some c1 save_law [OF assms(2) w] show thesis
      by (intro that [of c1 vm' answer]) (simp_all add: save_key_command_def)
  qed
qed

lemma generate_law:
  assumes "config_inv c" and "vol_mgr_lawful vm" and "\<And>seed. generated = Inr seed \<Longrightarrow> length seed = SEED_LEN"
  obtains c' vm' answer where "generate_key_command dbg vk generated force c (Some vm) = Some (c', Some vm', answer)"
    "only_file_changed PUBLIC_KEY_FILE_NAME vm vm'" "\<And>k. k \<noteq> SSH_KEY_CONFIG \<Longrightarrow> config_view c' k = config_view c k"
    "\<not> force \<Longrightarrow> stored_key c \<noteq> None \<Longrightarrow> config_view c' = config_view c"
proof -
  obtain c0 where c0: "load_signing_key c = Some (c0, stored_key c)" "config_inv c0" "config_view c0 = config_view c"
    using load_signing_law [OF assms(1)] by blast
  obtain c1 where first: "(if force then Some (c, None) else load_signing_key c) = Some (c1, if force then None else stored_key c)"
      "config_inv c1" "config_view c1 = config_view c"
    by (rule that [of "if force then c else c0"]) (simp_all add: c0 assms(1))
  show thesis
  proof (cases "(\<not> force \<and> stored_key c \<noteq> None) \<or> (\<forall>seed. generated \<noteq> Inr seed)")
    case True
    then have "\<exists>answer. generate_key_command dbg vk generated force c (Some vm) = Some (c1, Some vm, answer)"
      using first by (cases "(if force then None else stored_key c) = None"; cases generated)
        (simp_all add: generate_key_command_def)
    then obtain answer where "generate_key_command dbg vk generated force c (Some vm) = Some (c1, Some vm, answer)" by blast
    with first(3) unchanged_refl show thesis by (intro that [of c1 vm answer]) simp_all
  next
    case False
    then obtain seed where seed: "generated = Inr seed" by (cases generated) auto
    let ?done = "''New SSH key generated. Add this line to the server'' @ quote @ ''s ~/.ssh/authorized_keys:'' @ crlf @ crlf"
    have eq: "generate_key_command dbg vk generated force c (Some vm) = adopt_key dbg vk ?done seed c1 (Some vm)"
      using first False seed by (auto simp: generate_key_command_def)
    from first(2) assms(2) assms(3) [OF seed] show thesis
    proof (cases rule: adopt_law [where dbg = dbg and vk = vk and done_text = ?done])
      case (adopted c' vm' rest)
      with False first(3) show thesis by (intro that [of c' vm' "?done @ rest"]) (auto simp only: eq fun_upd_other)
    next
      case (refused c')
      with first(3) unchanged_refl show thesis by (intro that [of c' vm "''failed to store key'' @ crlf"]) (auto simp only: eq)
    qed
  qed
qed

lemma show_law:
  assumes "config_inv c" and "vol_mgr_lawful vm"
  obtains c' vm' answer where
    "keygen_command dbg vk generated [''keygen'', ''show''] c (Some vm) = Some (c', Some vm', answer)"
    "config_view c' = config_view c" "only_file_changed PUBLIC_KEY_FILE_NAME vm vm'"
proof -
  obtain c1 where c1: "load_signing_key c = Some (c1, stored_key c)" "config_view c1 = config_view c"
    using load_signing_law [OF assms(1)] by blast
  show thesis
  proof (cases "stored_key c")
    case None
    with c1 show thesis by (intro that [of c1 vm] unchanged_refl) (auto simp: keygen_command_def)
  next
    case (Some seed)
    obtain st answer where p: "print_public_key dbg vk seed (Some vm) = (st, answer)" by fastforce
    from print_key_law [OF assms(2) p] obtain vm' where "st = Some vm'" "only_file_changed PUBLIC_KEY_FILE_NAME vm vm'" by blast
    with c1 Some p show thesis by (intro that [of c1 vm']) (auto simp: keygen_command_def)
  qed
qed

lemma keygen_dispatch:
  obtains (gen) "args = [''keygen''] \<or> args = [''keygen'', ''force'']"
      "keygen_command dbg vk generated args c st = generate_key_command dbg vk generated (length args = 2) c st"
  | (again) "args = [''keygen'', ''show'']"
  | (save) "args = [''keygen'', ''save''] \<or> args = [''keygen'', ''save'', ''force'']"
      "keygen_command dbg vk generated args c st = save_key_command dbg (length args = 3) c st"
  | (load) "args = [''keygen'', ''load''] \<or> args = [''keygen'', ''load'', ''force'']"
      "keygen_command dbg vk generated args c st = load_key_command dbg vk (length args = 3) c st"
  | (other) "keygen_command dbg vk generated args c st = Some (c, st, keygen_usage)"
proof (cases "args = [''keygen''] \<or> args = [''keygen'', ''force'']")
  case True
  then show thesis by (rule gen) (simp only: keygen_command_def True if_True)
next
  case not_gen: False
  show thesis
  proof (cases "args = [''keygen'', ''save''] \<or> args = [''keygen'', ''save'', ''force'']")
    case True
    then show thesis by (rule save) (use True in \<open>elim disjE; simp add: keygen_command_def\<close>)
  next
    case not_save: False
    show thesis
    proof (cases "args = [''keygen'', ''load''] \<or> args = [''keygen'', ''load'', ''force'']")
      case True
      then show thesis by (rule load) (use True in \<open>elim disjE; simp add: keygen_command_def\<close>)
    next
      case False
      with not_gen not_save again show thesis
        by (cases "args = [''keygen'', ''show'']") (simp_all only: other keygen_command_def if_False)
    qed
  qed
qed


text \<open>A device whose store holds a seed and a card with a backup and another file, for the witnesses.\<close>

definition sample_device :: "(rstr \<Rightarrow> rstr option) configuration" where
  "sample_device = assign_flash configuration_default (map_flash [SSH_KEY_CONFIG \<mapsto> encode_seed (replicate 32 7)])"

lemma sample_device_facts:
  "config_inv sample_device" "stored_key sample_device = Some (replicate 32 7)"
  "config_view sample_device SSH_KEY_CONFIG = Some (encode_seed (replicate 32 7))"
proof -
  show "config_inv sample_device" by (simp add: sample_device_def config_inv_map_flash)
  show v: "config_view sample_device SSH_KEY_CONFIG = Some (encode_seed (replicate 32 7))"
    by (simp add: sample_device_def assign_flash_def configuration_default_def config_view_def map_flash_def)
  show "stored_key sample_device = Some (replicate 32 7)"
    using encode_seed_decodes [of "replicate 32 7" "[]" "[]"] v by (simp add: stored_key_def SEED_LEN_def)
qed

lemma files_map_vol_mgr [simp]: "files (map_vol_mgr fs) = fs"
  by (simp add: map_vol_mgr_def)




text \<open>C11: a key saved on one device and loaded on another is the same key: when \<open>keygen save\<close> says it is saved, the file is
  the key's 64 characters and nothing else on the card has changed, and \<open>keygen load force\<close> with that file on a card
  makes it the key of the device, unless the card cannot be read or the flash refuses the write, which is reported.\<close>

theorem key_backup_restores:
  assumes "config_inv c" and "vol_mgr_lawful vm" and "stored_key c = Some seed"
    and saved: "save_key_command dbg force c (Some vm) = Some (c1, Some vm1, saved_text)"
    and "config_inv d" and "vol_mgr_lawful vm2" and same_card: "files vm2 KEY_FILE_NAME = files vm1 KEY_FILE_NAME"
  shows "config_view c1 = config_view c \<and> files vm1 = (files vm)(KEY_FILE_NAME \<mapsto> encode_seed seed)
    \<and> (\<exists>d' vm3 answer. load_key_command dbg vk True d (Some vm2) = Some (d', Some vm3, answer)
        \<and> (stored_key d' = Some seed
           \<or> config_view d' = config_view d \<and> files vm3 = files vm2
             \<and> ((\<exists>f. f \<noteq> NoFile NotFound \<and> answer = open_error dbg ''open'' f)
                \<or> (\<exists>e. answer = ''Failed to read '' @ KEY_FILE_NAME @ '': '' @ dbg e @ crlf)
                \<or> answer = ''failed to store key'' @ crlf)))"
proof -
  note len = stored_key_length [OF assms(3)]
  have save: "config_view c1 = config_view c \<and> only_file_changed KEY_FILE_NAME vm vm1
      \<and> files vm1 KEY_FILE_NAME = Some (encode_seed seed)"
    using assms(1,2)
  proof (cases rule: save_command_law [where dbg = dbg and force = force])
    case (1 c' vm' answer)
    with saved assms(3) show ?thesis by simp
  qed
  then have written: "files vm1 = (files vm)(KEY_FILE_NAME \<mapsto> encode_seed seed)" by (auto simp: only_file_changed_def)
  have text_ok: "length (encode_seed seed) < MAX_KEY_FILE_BYTES" "utf8_valid (encode_seed seed)"
      "decode_seed_file (encode_seed seed) = Inr seed"
    using encode_seed_decodes [OF len, of "[]" "[]"] utf8_valid_ascii [OF encode_seed_ascii [OF len]]
    by (simp_all add: HEX_LEN_def SEED_LEN_def MAX_KEY_FILE_BYTES_def)
  have vm2: "files vm2 KEY_FILE_NAME = Some (encode_seed seed)" using same_card save by simp
  have "\<exists>d' vm3 answer. load_key_command dbg vk True d (Some vm2) = Some (d', Some vm3, answer)
        \<and> (stored_key d' = Some seed
           \<or> config_view d' = config_view d \<and> files vm3 = files vm2
             \<and> ((\<exists>f. f \<noteq> NoFile NotFound \<and> answer = open_error dbg ''open'' f)
                \<or> (\<exists>e. answer = ''Failed to read '' @ KEY_FILE_NAME @ '': '' @ dbg e @ crlf)
                \<or> answer = ''failed to store key'' @ crlf))"
    using assms(5,6)
  proof (cases rule: load_law [where dbg = dbg and vk = vk and force = True])
    case (unchanged d' vm3 answer)
    show ?thesis using unchanged(1-3) unchanged(5) [OF TrueI vm2 text_ok] by blast
  next
    case (loaded d' vm3 answer data seed')
    then have "seed' = seed" using vm2 text_ok(3) by simp
    with loaded(1,6) stored_key_upd [OF len, of d' d] show ?thesis by auto
  qed
  with save written show ?thesis by blast
qed

lemma sample_save:
  "\<exists>c1 vm1. save_key_command (\<lambda>_. []) False sample_device (Some (map_vol_mgr Map.empty)) = Some (c1, Some vm1, saved_text)"
proof -
  obtain c1 where "load_signing_key sample_device = Some (c1, Some (replicate 32 7))"
    using load_signing_law [OF sample_device_facts(1)] sample_device_facts(2) by metis
  moreover have "snd (save_to_card (\<lambda>_. []) False (replicate 32 7) (map_vol_mgr Map.empty)) = saved_text"
    by (simp add: save_to_card_def open_root_file_def close_file_def map_vol_mgr_def map_open_def map_write_def)
  ultimately show ?thesis
    by (cases "save_to_card (\<lambda>_. []) False (replicate 32 7) (map_vol_mgr Map.empty)") (simp add: save_key_command_def)
qed

theorem key_backup_restores_witness:
  "\<exists>(vm1 :: map_card vol_mgr) d' vm3 answer. files vm1 KEY_FILE_NAME = Some (encode_seed (replicate 32 7))
     \<and> load_key_command (\<lambda>_. []) id True sample_device (Some vm1) = Some (d', Some vm3, answer)"
proof -
  obtain c1 vm1 where s: "save_key_command (\<lambda>_. []) False sample_device (Some (map_vol_mgr Map.empty)) = Some (c1, Some vm1, saved_text)"
    using sample_save by blast
  have "only_file_changed KEY_FILE_NAME (map_vol_mgr Map.empty) vm1"
    using sample_device_facts(1) map_vol_mgr_lawful [of Map.empty]
    by (rule save_command_law [where dbg = "\<lambda>_. []" and force = False]) (use s in simp)
  then have "vol_mgr_lawful vm1"
    by (auto simp: only_file_changed_def intro: same_driver_lawful map_vol_mgr_lawful)
  from key_backup_restores [OF sample_device_facts(1) map_vol_mgr_lawful sample_device_facts(2) s sample_device_facts(1) this refl,
      of id]
  show ?thesis by (intro exI [of _ vm1]) auto
qed

end
