(* ===== verification/ConfigCommand.thy ===== *)
theory ConfigCommand
  imports SshSession MicStore ScreenModel SshKey
begin

text \<open>
  The \<open>config\<close> command (\<open>config_command\<close> of \<open>src/config.rs\<close>) over the configuration store, and the scrollback cap
  it shares with the boot (\<open>main\<close> of \<open>src/main.rs\<close>). The result is the configuration, the screen as far as the
  command sets its cap, what is printed, and the messages the microphone settings hand to \<open>ptt_fail\<close>; \<^term>\<open>None\<close>
  is a panic. The \<open>Debug\<close> texts of the storage's results are parameters.
\<close>

section \<open>The command\<close>

type_synonym 'f config_result = "('f configuration \<times> screen \<times> rstr \<times> rstr list) option"

record debug_texts =
  dbg_error :: "storage_error \<Rightarrow> rstr"
  dbg_unit :: "(storage_error + unit) \<Rightarrow> rstr"
  dbg_value :: "(storage_error + rstr option) \<Rightarrow> rstr"

definition USIZE_BOUND :: nat where "USIZE_BOUND = 2 ^ 32"

definition parse_usize :: "rstr \<Rightarrow> nat option" where
  "parse_usize = parse_uint USIZE_BOUND"

definition config_format_command :: "debug_texts \<Rightarrow> 'f configuration \<Rightarrow> screen \<Rightarrow> 'f config_result" where
  "config_format_command d c s = do { (c', r) \<leftarrow> config_format c; Some (c', s, dbg_unit d r, []) }"

text \<open>The loop of \<open>config list\<close>.\<close>

fun list_settings ::
    "debug_texts \<Rightarrow> 'f configuration \<Rightarrow> (rstr \<times> rstr) list \<Rightarrow> ('f configuration \<times> rstr \<times> rstr list) option" where
  "list_settings d c [] = Some (c, [], [])"
| "list_settings d c ((k, v) # items) = do {
     (c1, r, fails) \<leftarrow> mic_effective_setting (dbg_error d) c k;
     (c2, out, fails') \<leftarrow> list_settings d c1 items;
     Some (c2, k @ ''='' @ (case r of Some effective \<Rightarrow> effective | None \<Rightarrow> v) @ crlf @ out, fails @ fails')
   }"

definition too_many_keys :: "rstr \<times> rstr \<Rightarrow> rstr" where
  "too_many_keys kv = ''Configuration::get_all: too many keys. Ignoring '' @ fst kv @ '' -> '' @ snd kv @ crlf"

definition config_list_command :: "debug_texts \<Rightarrow> 'f configuration \<Rightarrow> screen \<Rightarrow> 'f config_result" where
  "config_list_command d c s = do {
     (c1, r) \<leftarrow> config_get_all c;
     (case r of
        Inl e \<Rightarrow> Some (c1, s, dbg_error d e @ crlf, [])
      | Inr (items, ignored) \<Rightarrow> do {
          (c2, out, fails) \<leftarrow> list_settings d c1 items;
          Some (c2, s, concat (map too_many_keys ignored) @ out, fails)
        })
   }"

definition config_get_command :: "debug_texts \<Rightarrow> 'f configuration \<Rightarrow> screen \<Rightarrow> rstr \<Rightarrow> 'f config_result" where
  "config_get_command d c s key =
     (if key = ''scroll'' then do {
        (c', r) \<leftarrow> config_fetch c key;
        Some (c', s, case r of
            Inr (Some val) \<Rightarrow> val @ crlf
          | Inr None \<Rightarrow> show_nat (max_scrollback s) @ crlf
          | Inl e \<Rightarrow> dbg_error d e @ crlf, [])
      }
      else do {
        (c1, r, fails) \<leftarrow> mic_effective_setting (dbg_error d) c key;
        (case r of
           Some v \<Rightarrow> Some (c1, s, v @ crlf, fails)
         | None \<Rightarrow>
             if key = PTT_SSH_CMD_KEY then do {
               (c2, cmd) \<leftarrow> effective_ssh_audio_command c1;
               Some (c2, s, case cmd of Some chosen \<Rightarrow> describe chosen @ crlf | None \<Rightarrow> ''(disabled)'' @ crlf, fails)
             }
             else do {
               (c2, r2) \<leftarrow> config_fetch c1 key;
               Some (c2, s, dbg_value d r2 @ crlf, fails)
             })
      })"

definition config_rm_command :: "debug_texts \<Rightarrow> layout \<Rightarrow> 'f configuration \<Rightarrow> screen \<Rightarrow> rstr \<Rightarrow> 'f config_result" where
  "config_rm_command d ly c s key =
     (let s' = (if key = ''scroll'' then set_max_scrollback ly s (max_safe_scrollback ly s) else s)
      in do { (c', r) \<leftarrow> config_remove c key; Some (c', s', dbg_unit d r @ crlf, []) })"

text \<open>\<open>config set scroll\<close>: the refusal, or the screen with the new cap.\<close>

definition set_scroll :: "layout \<Rightarrow> screen \<Rightarrow> rstr \<Rightarrow> rstr + screen" where
  "set_scroll ly s v =
     (case parse_usize v of
        Some val \<Rightarrow>
          let max_safe = max_safe_scrollback ly s
          in if val \<le> max_safe then Inr (set_max_scrollback ly s val)
             else Inl (''scroll value must be <= '' @ show_nat max_safe @ '' (heap-budget limit)'' @ crlf)
      | None \<Rightarrow> Inl (''scroll value must be a number'' @ crlf))"

text \<open>The conversion to a bounded string and the write, at the end of \<open>config set\<close>.\<close>

definition set_value :: "debug_texts \<Rightarrow> 'f configuration \<Rightarrow> screen \<Rightarrow> rstr \<Rightarrow> rstr \<Rightarrow> rstr list \<Rightarrow> 'f config_result" where
  "set_value d c s key v fails =
     (case fixed_try_into STR_VALUE_LEN v of
        Inl e \<Rightarrow> Some (c, s, ''value `'' @ v @ ''`: '' @ dbg_error d e @ crlf, fails)
      | Inr value \<Rightarrow> do {
          (c', r) \<leftarrow> config_store c key value;
          Some (c', s, case r of Inr _ \<Rightarrow> ''OK'' @ crlf | Inl e \<Rightarrow> dbg_error d e @ crlf, fails)
        })"

definition config_set_command ::
    "debug_texts \<Rightarrow> layout \<Rightarrow> 'f configuration \<Rightarrow> screen \<Rightarrow> rstr \<Rightarrow> rstr list \<Rightarrow> 'f config_result" where
  "config_set_command d ly c s key rest = do {
     let v = str_join '' '' rest;
     (c1, r, fails) \<leftarrow> validate_config_setting (dbg_error d) c key v;
     (case r of
        Inl message \<Rightarrow> Some (c1, s, message @ crlf, fails)
      | Inr _ \<Rightarrow>
          (case (if key = ''scroll'' then set_scroll ly s v else Inr s) of
             Inl message \<Rightarrow> Some (c1, s, message, fails)
           | Inr s' \<Rightarrow> set_value d c1 s' key v fails))
   }"

definition config_command ::
    "debug_texts \<Rightarrow> layout \<Rightarrow> 'f configuration \<Rightarrow> screen \<Rightarrow> rstr list \<Rightarrow> 'f config_result" where
  "config_command d ly c s args =
     (if args = [''config'', ''format''] then config_format_command d c s
      else if args = [''config'', ''list''] then config_list_command d c s
      else case args of
        cmd # sub # key # rest \<Rightarrow>
          if cmd = ''config'' \<and> sub = ''get'' \<and> rest = [] then config_get_command d c s key
          else if cmd = ''config'' \<and> sub = ''rm'' \<and> rest = [] then config_rm_command d ly c s key
          else if cmd = ''config'' \<and> sub = ''set'' then config_set_command d ly c s key rest
          else Some (c, s, ''invalid arguments'' @ crlf, [])
      | _ \<Rightarrow> Some (c, s, ''invalid arguments'' @ crlf, []))"

text \<open>The boot loads the stored cap.\<close>

definition load_scrollback :: "layout \<Rightarrow> 'f configuration \<Rightarrow> screen \<Rightarrow> ('f configuration \<times> screen) option" where
  "load_scrollback ly c s = do {
     (c', r) \<leftarrow> config_fetch c ''scroll'';
     Some (c', case r of
         Inr (Some v) \<Rightarrow> (case parse_usize v of Some val \<Rightarrow> set_max_scrollback ly s val | None \<Rightarrow> s)
       | _ \<Rightarrow> s)
   }"

section \<open>What the command keeps\<close>

lemma mic_effective_law:
  assumes "config_inv c"
  obtains c' r fails where "mic_effective_setting dbg c key = Some (c', r, fails)" "config_inv c'"
    "\<And>k. \<not> owns k \<Longrightarrow> config_view c' k = config_view c k" "\<not> owns key \<Longrightarrow> r = None"
proof -
  obtain c' out msgs where r: "read_and_reconcile dbg c = Some (c', out, msgs)" "config_inv c'"
      "\<forall>k. \<not> owns k \<longrightarrow> config_view c' k = config_view c k"
    using read_and_reconcile_spec [OF assms, of dbg] by blast
  have "\<not> owns key \<Longrightarrow> report_setting key s u = None" for s u
    by (simp add: report_setting_def effective_setting_def owns_def)
  with r show thesis 
    by (intro that [of c' "report_setting key (settings (outcome_resolved out))
        (map_option uk_stored (find (\<lambda>u. uk_key u = key) (unreconciled out)))" msgs])
      (simp_all add: mic_effective_setting_def Let_def)
qed

lemma validate_law:
  assumes "config_inv c"
  obtains c' r fails where "validate_config_setting dbg c key v = Some (c', r, fails)" "config_inv c'"
    "\<And>k. \<not> owns k \<Longrightarrow> config_view c' k = config_view c k" "\<not> owns key \<Longrightarrow> r = Inr ()"
proof -
  obtain c' out msgs where r: "read_and_reconcile dbg c = Some (c', out, msgs)" "config_inv c'"
      "\<forall>k. \<not> owns k \<longrightarrow> config_view c' k = config_view c k"
    using read_and_reconcile_spec [OF assms, of dbg] by blast
  have "\<not> owns key \<Longrightarrow> validate_setting_with_store st eff key v = Inr ()" for st eff
    by (simp add: validate_setting_with_store_def validate_setting_def set_changes_other_clock_key_def owns_def)
  with r show thesis 
    by (intro that [of c' "validate_setting_with_store (outcome_stored out) (settings (outcome_resolved out)) key v" msgs])
      (simp_all add: validate_config_setting_def Let_def)
qed

lemma with_flash_total:
  assumes "config_inv c"
  shows "\<exists>c' r. with_flash c op = Some (c', r) \<and> config_inv c'"
  using assms
proof (cases rule: config_cases)
  case (1 fl)
  obtain st r where "op fl = (st, r)" by fastforce
  with 1 have "with_flash c op = Some (c\<lparr>conf_flash := Some (fl\<lparr>flash_state := st\<rparr>)\<rparr>, r)" by (simp add: with_flash_def)
  moreover have "config_inv (c\<lparr>conf_flash := Some (fl\<lparr>flash_state := st\<rparr>)\<rparr>)" using 1 by (simp add: config_inv_def)
  ultimately show ?thesis by blast
qed

lemma config_get_all_total: "config_inv c \<Longrightarrow> \<exists>c' r. config_get_all c = Some (c', r) \<and> config_inv c'"
  unfolding config_get_all_def by (rule with_flash_total)

lemma list_settings_total:
  "config_inv c \<Longrightarrow> \<exists>c' out fails. list_settings d c items = Some (c', out, fails) \<and> config_inv c'"
proof (induction items arbitrary: c)
  case (Cons kv items)
  obtain k v where kv: "kv = (k, v)" by fastforce
  from Cons.prems obtain c1 r fails where "mic_effective_setting (dbg_error d) c k = Some (c1, r, fails)" "config_inv c1"
    by (rule mic_effective_law)
  with Cons.IH [of c1] show ?case by (auto simp: kv)
qed simp

definition cap_ok :: "layout \<Rightarrow> screen \<Rightarrow> screen \<Rightarrow> bool" where
  "cap_ok ly s s' \<longleftrightarrow> s' = s \<or> (\<exists>n. n \<le> max_safe_scrollback ly s \<and> s' = set_max_scrollback ly s n)"

lemma cap_ok_inv: "cap_ok ly s s' \<Longrightarrow> screen_inv ly s \<Longrightarrow> screen_inv ly s'"
  by (auto simp: cap_ok_def intro: screen_inv_set_max)

lemma set_scroll_cap: "set_scroll ly s v = Inr s' \<Longrightarrow>
    \<exists>n. parse_usize v = Some n \<and> n \<le> max_safe_scrollback ly s \<and> s' = set_max_scrollback ly s n"
  by (auto simp: set_scroll_def Let_def split: option.splits if_splits)

lemma set_value_total:
  assumes "config_inv c"
  shows "\<exists>c' out. set_value d c s key v fails = Some (c', s, out, fails) \<and> config_inv c'"
proof (cases "fixed_try_into STR_VALUE_LEN v")
  case (Inr w)
  from conf.put_law [OF assms, of key w] Inr show ?thesis by (auto simp: set_value_def)
qed (use assms in \<open>simp add: set_value_def\<close>)

lemma config_set_total:
  assumes "config_inv c"
  shows "\<exists>c' s' out fails. config_set_command d ly c s key rest = Some (c', s', out, fails) \<and> config_inv c' \<and> cap_ok ly s s'
    \<and> (key \<noteq> ''scroll'' \<longrightarrow> s' = s)"
proof -
  let ?v = "str_join '' '' rest"
  obtain c1 r fails where v: "validate_config_setting (dbg_error d) c key ?v = Some (c1, r, fails)" "config_inv c1"
    using validate_law [OF assms] by metis
  show ?thesis
  proof (cases r)
    case (Inr u)
    show ?thesis
    proof (cases "if key = ''scroll'' then set_scroll ly s ?v else Inr s")
      case (Inr s')
      have "cap_ok ly s s'" "key \<noteq> ''scroll'' \<longrightarrow> s' = s"
        using Inr set_scroll_cap [of ly s ?v s'] by (auto simp: cap_ok_def split: if_splits)
      with set_value_total [OF v(2), of d s' key ?v fails] v(1) \<open>r = Inr u\<close> Inr show ?thesis
        by (auto simp: config_set_command_def Let_def)
    qed (use v \<open>r = Inr u\<close> in \<open>auto simp: config_set_command_def Let_def cap_ok_def\<close>)
  qed (use v in \<open>auto simp: config_set_command_def Let_def cap_ok_def\<close>)
qed

lemma config_get_total:
  assumes "config_inv c"
  shows "\<exists>c' out fails. config_get_command d c s key = Some (c', s, out, fails) \<and> config_inv c'"
proof -
  obtain c1 r fails where m: "mic_effective_setting (dbg_error d) c key = Some (c1, r, fails)" "config_inv c1"
    using mic_effective_law [OF assms] by metis
  from conf.fetch_law [OF assms, of key] conf.fetch_law [OF m(2), of key] conf.fetch_law [OF m(2), of PTT_SSH_CMD_KEY] m
  show ?thesis by (auto simp: config_get_command_def effective_ssh_audio_command_def split: option.splits)
qed

lemma config_format_total:
  assumes "config_inv c"
  shows "\<exists>c' out. config_format_command d c s = Some (c', s, out, []) \<and> config_inv c'"
  using with_flash_total [OF assms, of "\<lambda>fl. erase_all fl (flash_state fl)"]
  by (auto simp: config_format_command_def config_format_def)

lemma config_list_total:
  assumes "config_inv c"
  shows "\<exists>c' out fails. config_list_command d c s = Some (c', s, out, fails) \<and> config_inv c'"
proof -
  obtain c1 r where r: "config_get_all c = Some (c1, r)" "config_inv c1"
    using config_get_all_total [OF assms] by blast
  show ?thesis
  proof (cases r)
    case (Inr p)
    with r list_settings_total [OF r(2), of d "fst p"] show ?thesis
      by (cases p) (auto simp: config_list_command_def)
  qed (use r in \<open>simp add: config_list_command_def\<close>)
qed

lemma config_rm_total:
  assumes "config_inv c"
  shows "\<exists>c' s' out fails. config_rm_command d ly c s key = Some (c', s', out, fails) \<and> config_inv c'
    \<and> cap_ok ly s s' \<and> (key \<noteq> ''scroll'' \<longrightarrow> s' = s)"
  using conf.del_law [OF assms, of key] by (auto simp: config_rm_command_def cap_ok_def)

lemma config_command_total:
  assumes "config_inv c"
  shows "\<exists>c' s' out fails. config_command d ly c s args = Some (c', s', out, fails) \<and> config_inv c' \<and> cap_ok ly s s'
    \<and> (s' \<noteq> s \<longrightarrow> (\<exists>rest. args = ''config'' # ''set'' # ''scroll'' # rest \<or> args = [''config'', ''rm'', ''scroll'']))"
proof (cases "args = [''config'', ''format''] \<or> args = [''config'', ''list'']")
  case True
  with config_format_total [OF assms, of d s] config_list_total [OF assms, of d s] show ?thesis by (auto simp: config_command_def cap_ok_def)
next
  case False
  show ?thesis
  proof (cases "\<exists>cmd sub key rest. args = cmd # sub # key # rest")
    case True
    then obtain cmd sub key rest where args: "args = cmd # sub # key # rest" by blast
    show ?thesis
      using config_get_total [OF assms, of d s key] config_rm_total [OF assms, of d ly s key]
        config_set_total [OF assms, of d ly s key rest] assms
      by (auto simp: config_command_def args cap_ok_def)
  next
    case no_key: False
    with False have "config_command d ly c s args = Some (c, s, ''invalid arguments'' @ crlf, [])"
      by (auto simp: config_command_def split: list.splits)
    with assms show ?thesis by (auto simp: cap_ok_def)
  qed
qed


text \<open>A screen and a configuration for the witnesses.\<close>

definition sample_texts :: debug_texts where
  "sample_texts = \<lparr>dbg_error = \<lambda>_. ''Err'', dbg_unit = \<lambda>_. ''Ok(())'',
     dbg_value = \<lambda>r. case r of Inr (Some v) \<Rightarrow> ''Ok(Some('' @ v @ ''))'' | _ \<Rightarrow> ''Ok(None)''\<rparr>"

definition sample_layout :: layout where
  "sample_layout = \<lparr>size_of_attrs = 11, size_of_screen_line = 28\<rparr>"

definition sample_screen :: screen where
  "sample_screen = screen_default sample_layout \<lparr>character_width = 8, character_height = 18, character_spacing = 0\<rparr>"

abbreviation sample_config :: "(rstr \<Rightarrow> rstr option) \<Rightarrow> (rstr \<Rightarrow> rstr option) configuration" where
  "sample_config m \<equiv> assign_flash configuration_default (map_flash m)"

lemma sample_screen_inv: "screen_inv sample_layout sample_screen"
  unfolding sample_screen_def by (rule screen_inv_default) (simp add: font_fits_def SCREEN_WIDTH_def SCREEN_HEIGHT_def)


section \<open>Set, then get\<close>

lemma ssh_cmd_not_owned: "\<not> owns PTT_SSH_CMD_KEY" "\<not> owns ''scroll''" "PTT_SSH_CMD_KEY \<noteq> ''scroll''"
    "length PTT_SSH_CMD_KEY \<le> 32"
  by (simp_all add: owns_def PTT_SSH_CMD_KEY_def BITS_KEY_def RATE_KEY_def EDGE_KEY_def)

text \<open>What \<open>config get\<close> prints for a stored value.\<close>

definition shown_value :: "debug_texts \<Rightarrow> rstr \<Rightarrow> rstr \<Rightarrow> rstr" where
  "shown_value d key v =
     (if key = ''scroll'' then v
      else if key = PTT_SSH_CMD_KEY then (if str_trim v = [] then ''(disabled)'' else str_trim v)
      else dbg_value d (Inr (Some v)))"

lemma config_get_stored:
  assumes "config_inv c" and "\<not> owns key" and "length key \<le> 32" and "config_view c key = Some v"
  shows "\<exists>c' fails. config_get_command d c s key = Some (c', s, shown_value d key v @ crlf, fails)"
proof -
  obtain c1 r fails where m: "mic_effective_setting (dbg_error d) c key = Some (c1, r, fails)" "config_inv c1"
      "config_view c1 key = Some v" "r = None"
    using mic_effective_law [OF assms(1)] assms(2,4) by metis
  from conf.fetch_short [OF assms(1,3)] obtain c2 where "config_fetch c key = Some (c2, Inr (Some v))"
    using assms(4) by metis
  moreover from conf.fetch_short [OF m(2) assms(3)] obtain c3 where "config_fetch c1 key = Some (c3, Inr (Some v))"
    using m(3) by metis
  ultimately show ?thesis
    using m by (auto simp: config_get_command_def shown_value_def effective_ssh_audio_command_def describe_def)
qed

lemma config_set_ok:
  assumes "config_inv c" and "\<not> owns key" and "\<And>e. dbg_error d e \<noteq> ''OK''"
    and "config_set_command d ly c s key rest = Some (c1, s1, ''OK'' @ crlf, fails)"
  shows "config_inv c1 \<and> length key \<le> 32 \<and> config_view c1 key = Some (str_join '' '' rest)
    \<and> (\<forall>j. \<not> owns j \<and> j \<noteq> key \<longrightarrow> config_view c1 j = config_view c j)
    \<and> (key \<noteq> ''scroll'' \<longrightarrow> s1 = s)
    \<and> (key = ''scroll'' \<longrightarrow> (\<exists>n. parse_usize (str_join '' '' rest) = Some n \<and> n \<le> max_safe_scrollback ly s
         \<and> s1 = set_max_scrollback ly s n))"
proof -
  let ?v = "str_join '' '' rest"
  obtain c0 r fs where v: "validate_config_setting (dbg_error d) c key ?v = Some (c0, r, fs)" "config_inv c0"
      "\<And>k. \<not> owns k \<Longrightarrow> config_view c0 k = config_view c k" "r = Inr ()"
  proof (rule validate_law [OF assms(1), where dbg = "dbg_error d" and key = key and v = ?v])
    fix c' r fs
    assume a: "validate_config_setting (dbg_error d) c key ?v = Some (c', r, fs)" "config_inv c'"
      "\<And>k. \<not> owns k \<Longrightarrow> config_view c' k = config_view c k" "\<not> owns key \<Longrightarrow> r = Inr ()"
    show thesis by (rule that [OF a(1,2)]) (use a(3,4) assms(2) in simp_all)
  qed
  obtain s' where s': "(if key = ''scroll'' then set_scroll ly s ?v else Inr s) = Inr s'"
      "set_value d c0 s' key ?v fs = Some (c1, s1, ''OK'' @ crlf, fails)"
    using assms(4) v(1,4)
    by (auto simp: config_set_command_def set_scroll_def Let_def split: if_splits sum.splits option.splits)
  have fits: "length ?v \<le> STR_VALUE_LEN"
    using s'(2) by (auto simp: set_value_def fixed_try_into_eq split: if_splits)
  from conf.put_law [OF v(2), of key ?v] obtain c2 r2 where p: "config_store c0 key ?v = Some (c2, r2)" "config_inv c2"
      "config_view c2 = (case r2 of Inr _ \<Rightarrow> (config_view c0)(key \<mapsto> ?v) | Inl _ \<Rightarrow> config_view c0)"
      "32 < length key \<longrightarrow> r2 = Inl ItemTooBig" by blast
  have w: "r2 = Inr ()" "s1 = s'" "c1 = c2"
    using s'(2) p(1) fits assms(3) by (cases r2; simp add: set_value_def fixed_try_into_eq)+
  with p have "config_inv c1" "config_view c1 = (config_view c0)(key \<mapsto> ?v)" "length key \<le> 32" by auto
  with v(3) w(2) s'(1) set_scroll_cap [of ly s ?v s'] show ?thesis by (auto split: if_splits)
qed



text \<open>the private key leaves the device without \<open>keygen save\<close>: \<open>config get ssh_key\<close> prints it.\<close>

theorem config_get_prints_private_key:
  assumes "config_inv c" and "config_view c SSH_KEY_CONFIG = Some hex"
  shows "\<exists>c' fails. config_command d ly c s [''config'', ''get'', SSH_KEY_CONFIG]
     = Some (c', s, dbg_value d (Inr (Some hex)) @ crlf, fails)"
proof -
  have key: "\<not> owns SSH_KEY_CONFIG" "length SSH_KEY_CONFIG \<le> 32" "SSH_KEY_CONFIG \<noteq> ''scroll''" "SSH_KEY_CONFIG \<noteq> PTT_SSH_CMD_KEY"
    by (simp_all add: SSH_KEY_CONFIG_def owns_def BITS_KEY_def RATE_KEY_def EDGE_KEY_def PTT_SSH_CMD_KEY_def)
  from config_get_stored [OF assms(1) key(1,2) assms(2), of d s] show ?thesis
    by (simp add: config_command_def shown_value_def key)
qed

theorem config_get_prints_private_key_witness:
  "\<exists>c' fails. config_command sample_texts sample_layout (sample_config [SSH_KEY_CONFIG \<mapsto> encode_seed (replicate 32 7)])
       sample_screen [''config'', ''get'', SSH_KEY_CONFIG]
     = Some (c', sample_screen, ''Ok(Some('' @ encode_seed (replicate 32 7) @ ''))'' @ crlf, fails)"
proof -
  have "config_view (sample_config [SSH_KEY_CONFIG \<mapsto> encode_seed (replicate 32 7)]) SSH_KEY_CONFIG
      = Some (encode_seed (replicate 32 7))"
    by (simp add: config_view_def assign_flash_def map_flash_def)
  from config_get_prints_private_key [OF config_inv_map_flash this, of sample_texts sample_layout sample_screen]
  show ?thesis by (simp add: sample_texts_def)
qed

end
