(* ===== verification/Logging.thy ===== *)
theory Logging
  imports Shell "HOL-Library.Sublist"
begin

text \<open>
  \<open>src/logging.rs\<close>: log lines on their way to the serial port through a bounded pipe, and the keys read back from it.
  The pipe is \<open>embassy_sync\<close>'s: \<open>pipe_lawful\<close> states what its documentation and the comment of \<open>write_slice\<close> say.
\<close>

section \<open>Writing to the log\<close>

record 'p byte_pipe =
  pipe_state :: 'p
  try_write :: "'p \<Rightarrow> rstr \<Rightarrow> 'p \<times> nat option"
  pipe_bytes :: "'p \<Rightarrow> rstr"
  pipe_room :: "'p \<Rightarrow> nat"

text \<open>
  A write takes a first part of the bytes, as much as lies before the end of the ring buffer, or nothing when the pipe
  is full; after a write that stopped at that end, a second one takes all the rest there is room for.
\<close>

definition pipe_lawful :: "'p byte_pipe \<Rightarrow> bool" where
  "pipe_lawful p \<longleftrightarrow>
     (\<forall>v b v' n. try_write p v b = (v', Some n) \<longrightarrow>
        n \<le> length b \<and> n \<le> pipe_room p v \<and> pipe_bytes p v' = pipe_bytes p v @ take n b \<and> pipe_room p v' = pipe_room p v - n)
   \<and> (\<forall>v b v'. try_write p v b = (v', None) \<longrightarrow>
        pipe_room p v = 0 \<and> pipe_bytes p v' = pipe_bytes p v \<and> pipe_room p v' = 0)
   \<and> (\<forall>v b v' n v'' m. try_write p v b = (v', Some n) \<and> n < length b \<and> try_write p v' (drop n b) = (v'', Some m) \<longrightarrow>
        m = min (length b - n) (pipe_room p v'))"

definition LF :: char where "LF = CHR 0x0a"
definition CR :: char where "CR = CHR 0x0d"

definition write_slice :: "'p byte_pipe \<Rightarrow> 'p \<Rightarrow> rstr \<Rightarrow> 'p" where
  "write_slice p v b =
     (case try_write p v b of
        (v', Some n) \<Rightarrow> if n < length b then fst (try_write p v' (drop n b)) else v'
      | (v', None) \<Rightarrow> v')"

text \<open>\<open>slice::split_inclusive\<close>: pieces that end with the separator, the last one perhaps not.\<close>

fun split_inclusive :: "char \<Rightarrow> rstr \<Rightarrow> rstr list" where
  "split_inclusive d [] = []"
| "split_inclusive d (c # cs) =
     (if c = d then [c] # split_inclusive d cs
      else (case split_inclusive d cs of [] \<Rightarrow> [[c]] | w # ws \<Rightarrow> (c # w) # ws))"

definition write_chunk :: "'p byte_pipe \<Rightarrow> 'p \<Rightarrow> rstr \<Rightarrow> 'p" where
  "write_chunk p v chunk =
     (let (stripped, emit_crlf) =
            (if chunk \<noteq> [] \<and> last chunk = LF then (butlast chunk, True) else (chunk, False));
          v1 = write_slice p v stripped
      in if emit_crlf then write_slice p v1 [CR, LF] else v1)"

definition log_write_str :: "'p byte_pipe \<Rightarrow> 'p \<Rightarrow> rstr \<Rightarrow> 'p" where
  "log_write_str p v s = foldl (write_chunk p) v (split_inclusive LF s)"

text \<open>A record: the pieces its arguments are formatted in, and the end of the line.\<close>

definition log_record :: "'p byte_pipe \<Rightarrow> 'p \<Rightarrow> rstr list \<Rightarrow> 'p" where
  "log_record p v pieces = foldl (log_write_str p) v (pieces @ [[LF]])"

section \<open>Reading from the serial ports\<close>

definition mcu_uart_message :: "(rstr \<Rightarrow> rstr) \<Rightarrow> rstr + rstr \<Rightarrow> rstr" where
  "mcu_uart_message hex r =
     (case r of
        Inr buf \<Rightarrow> (case from_utf8 buf of
            Some s \<Rightarrow> ''mcu_uart: '' @ s
          | None \<Rightarrow> ''mcu_uart: data not utf8: '' @ hex buf)
      | Inl err \<Rightarrow> ''mcu_uart: read failed: '' @ err)"

definition uart_key :: "rchar \<Rightarrow> key" where
  "uart_key c =
     (if c = 0x0a then KEnter
      else if c = 0x7f then KBackSpace
      else if c = 0x09 then KTab
      else if c = 0x1b then KEscape
      else KChar c)"

definition uart_report :: "rchar \<Rightarrow> key_report" where
  "uart_report c = \<lparr>rep_state = KsPressed, rep_key = uart_key c, rep_modifiers = MOD_NONE\<rparr>"

text \<open>What one read of at most 31 bytes gives the current process.\<close>

definition UART_BUF :: nat where "UART_BUF = 31"

definition uart_reports :: "rstr \<Rightarrow> key_report list" where
  "uart_reports buf =
     (case from_utf8 buf of
        Some s \<Rightarrow> map uart_report (filter (\<lambda>c. c \<noteq> 0x0d) (str_chars s))
      | None \<Rightarrow> [])"

section \<open>What reaches the port\<close>

text \<open>The text with every line feed made a carriage return and a line feed.\<close>

definition crlf_translate :: "rstr \<Rightarrow> rstr" where
  "crlf_translate s = concat (map (\<lambda>c. if c = LF then [CR, LF] else [c]) s)"

lemma crlf_translate_simps [simp]:
  "crlf_translate [] = []"
  "crlf_translate (c # s) = (if c = LF then [CR, LF] else [c]) @ crlf_translate s"
  "crlf_translate (s @ t) = crlf_translate s @ crlf_translate t"
  by (simp_all add: crlf_translate_def)

lemma crlf_translate_no_lf: "LF \<notin> set s \<Longrightarrow> crlf_translate s = s"
  by (induction s) auto

lemma concat_split_inclusive: "concat (split_inclusive d s) = s"
  by (induction s) (auto split: list.splits)

lemma split_inclusive_pieces: "w \<in> set (split_inclusive d s) \<Longrightarrow> w \<noteq> [] \<and> d \<notin> set (butlast w)"
proof (induction s arbitrary: w)
  case (Cons c s)
  show ?case
  proof (cases "c = d \<or> split_inclusive d s = []")
    case False
    then obtain v vs where "split_inclusive d s = v # vs" by (cases "split_inclusive d s") auto
    with Cons False show ?thesis by (auto split: if_splits)
  qed (use Cons in \<open>auto split: list.splits if_splits\<close>)
qed simp

text \<open>Appending with a loss: all of it when there is room, else only some of the bytes, in order.\<close>

definition appends :: "'p byte_pipe \<Rightarrow> 'p \<Rightarrow> 'p \<Rightarrow> rstr \<Rightarrow> bool" where
  "appends p v v' b \<longleftrightarrow>
     (\<exists>t. pipe_bytes p v' = pipe_bytes p v @ t \<and> subseq t b \<and> pipe_room p v' = pipe_room p v - length t
       \<and> length t \<le> pipe_room p v \<and> (length b \<le> pipe_room p v \<longrightarrow> t = b))"

lemma appends_refl [simp]: "appends p v v []"
  by (simp add: appends_def)

lemma appends_trans:
  assumes "appends p v v' a" and "appends p v' v'' b"
  shows "appends p v v'' (a @ b)"
proof -
  obtain s where s: "pipe_bytes p v' = pipe_bytes p v @ s" "subseq s a" "pipe_room p v' = pipe_room p v - length s"
      "length s \<le> pipe_room p v" "length a \<le> pipe_room p v \<longrightarrow> s = a"
    using assms(1) by (auto simp: appends_def)
  obtain t where t: "pipe_bytes p v'' = pipe_bytes p v' @ t" "subseq t b" "pipe_room p v'' = pipe_room p v' - length t"
      "length t \<le> pipe_room p v'" "length b \<le> pipe_room p v' \<longrightarrow> t = b"
    using assms(2) by (auto simp: appends_def)
  have "subseq (s @ t) (a @ b)" by (rule list_emb_append_mono [OF s(2) t(2)])
  with s t show ?thesis unfolding appends_def by (intro exI [of _ "s @ t"]) auto
qed

lemma write_slice_appends:
  assumes "pipe_lawful p"
  shows "appends p v (write_slice p v b) b"
proof -
  note law = assms [unfolded pipe_lawful_def]
  obtain v1 r where w1: "try_write p v b = (v1, r)" by fastforce
  show ?thesis
  proof (cases r)
    case None
    then have "pipe_room p v = 0" "pipe_bytes p v1 = pipe_bytes p v" "pipe_room p v1 = 0" using law w1 by metis+
    with w1 None show ?thesis by (auto simp: write_slice_def appends_def)
  next
    case (Some n)
    then have n: "n \<le> length b" "n \<le> pipe_room p v" "pipe_bytes p v1 = pipe_bytes p v @ take n b"
        "pipe_room p v1 = pipe_room p v - n" using law w1 by metis+
    have first: "subseq (take n b) b" by (rule prefix_imp_subseq) (rule take_is_prefix)
    show ?thesis
    proof (cases "n < length b")
      case False
      with w1 Some n first show ?thesis by (auto simp: write_slice_def appends_def)
    next
      case True
      obtain v2 r2 where w2: "try_write p v1 (drop n b) = (v2, r2)" by fastforce
      have result: "write_slice p v b = v2" using w1 w2 Some True by (simp add: write_slice_def)
      show ?thesis
      proof (cases r2)
        case None
        then have "pipe_room p v1 = 0" "pipe_bytes p v2 = pipe_bytes p v1" "pipe_room p v2 = 0" using law w2 by metis+
        with result n first True show ?thesis by (auto simp: appends_def intro!: exI [of _ "take n b"])
      next
        case (Some m)
        have m: "m = min (length b - n) (pipe_room p v1)" "pipe_bytes p v2 = pipe_bytes p v1 @ take m (drop n b)"
            "pipe_room p v2 = pipe_room p v1 - m"
          using law w1 w2 \<open>r = Some n\<close> Some True by metis+
        have bound: "n + m \<le> length b" "m \<le> pipe_room p v - n" using m(1) n(1,2,4) True by auto
        let ?t = "take (n + m) b"
        have "pipe_bytes p v2 = pipe_bytes p v @ ?t" using m(2) n(3) by (simp add: take_add)
        moreover have "subseq ?t b" by (rule prefix_imp_subseq) (rule take_is_prefix)
        moreover have "length ?t = n + m" using bound(1) by simp
        moreover have "length b \<le> pipe_room p v \<longrightarrow> ?t = b" using m(1) n(4) True by auto
        moreover have "pipe_room p v2 = pipe_room p v - (n + m)" using m(3) n(4) by simp
        moreover have "n + m \<le> pipe_room p v" using bound(2) n(2) by linarith
        ultimately show ?thesis unfolding appends_def result by metis
      qed
    qed
  qed
qed

lemma write_chunk_appends:
  assumes "pipe_lawful p" and "LF \<notin> set (butlast w)" and "w \<noteq> []"
  shows "appends p v (write_chunk p v w) (crlf_translate w)"
proof (cases w rule: rev_cases)
  case (snoc u x)
  note slice = write_slice_appends [OF assms(1)]
  have u: "LF \<notin> set u" using assms(2) snoc by simp
  show ?thesis
  proof (cases "x = LF")
    case True
    with snoc appends_trans [OF slice slice, of v u "[CR, LF]"] show ?thesis
      by (simp add: write_chunk_def crlf_translate_no_lf [OF u])
  next
    case False
    with snoc slice [of v w] u show ?thesis by (simp add: write_chunk_def crlf_translate_no_lf)
  qed
qed (use assms(3) in simp)

lemma log_write_str_appends:
  assumes "pipe_lawful p"
  shows "appends p v (log_write_str p v s) (crlf_translate s)"
proof -
  have "appends p v (foldl (write_chunk p) v ws) (crlf_translate (concat ws))"
    if "\<forall>w \<in> set ws. w \<noteq> [] \<and> LF \<notin> set (butlast w)" for ws
    using that
  proof (induction ws arbitrary: v)
    case (Cons w ws)
    then show ?case
      using appends_trans [OF write_chunk_appends [OF assms, of w v] Cons.IH [of "write_chunk p v w"]] by simp
  qed simp
  from this [of "split_inclusive LF s"] show ?thesis
    using split_inclusive_pieces [of _ LF s] by (simp add: log_write_str_def concat_split_inclusive)
qed

text \<open>a log record reaches the serial port as its text with every line feed made a carriage return and a line feed, and
  one more at its end, whatever pieces it is formatted in and wherever the ring buffer wraps, if the pipe has room for
  it; if not, bytes are dropped but those that pass keep their order, and nothing blocks.\<close>

theorem log_record_translates:
  assumes "pipe_lawful p"
  shows "\<exists>t. pipe_bytes p (log_record p v pieces) = pipe_bytes p v @ t
    \<and> subseq t (crlf_translate (concat pieces @ [LF]))
    \<and> (length (crlf_translate (concat pieces @ [LF])) \<le> pipe_room p v \<longrightarrow> t = crlf_translate (concat pieces @ [LF]))"
proof -
  have "appends p v (foldl (log_write_str p) v ws) (crlf_translate (concat ws))" for ws
  proof (induction ws arbitrary: v)
    case (Cons w ws)
    then show ?case using appends_trans [OF log_write_str_appends [OF assms, of v w] Cons.IH] by simp
  qed simp
  from this [of "pieces @ [[LF]]"] show ?thesis by (auto simp: log_record_def appends_def)
qed

text \<open>A ring buffer of eight bytes, of which nothing is read: its write position and its bytes.\<close>

definition ring_pipe :: "(nat \<times> rstr) byte_pipe" where
  "ring_pipe = \<lparr>pipe_state = (0, []),
     try_write = \<lambda>(w, bs) b.
       (if length bs \<ge> 8 then ((w, bs), None)
        else let n = min (length b) (min (8 - w mod 8) (8 - length bs)) in (((w + n) mod 8, bs @ take n b), Some n)),
     pipe_bytes = snd, pipe_room = \<lambda>(w, bs). 8 - length bs\<rparr>"

lemma ring_pipe_ops:
  "try_write ring_pipe (w, bs) b =
     (if 8 \<le> length bs then ((w, bs), None)
      else (((w + min (length b) (min (8 - w mod 8) (8 - length bs))) mod 8,
              bs @ take (min (length b) (min (8 - w mod 8) (8 - length bs))) b),
            Some (min (length b) (min (8 - w mod 8) (8 - length bs)))))"
  "pipe_bytes ring_pipe (w, bs) = bs" "pipe_room ring_pipe (w, bs) = 8 - length bs"
  by (simp_all add: ring_pipe_def Let_def)

lemma ring_write_some:
  assumes "try_write ring_pipe (w, bs) b = (v', Some n)"
  shows "length bs < 8" and "n = min (length b) (min (8 - w mod 8) (8 - length bs))" and "v' = ((w + n) mod 8, bs @ take n b)"
    and "n \<le> length b" and "n \<le> 8 - length bs" and "n \<le> 8 - w mod 8"
proof -
  show bs: "length bs < 8" using assms by (cases "8 \<le> length bs") (simp_all add: ring_pipe_ops)
  show n: "n = min (length b) (min (8 - w mod 8) (8 - length bs))"
    using assms bs by (simp only: ring_pipe_ops not_le [symmetric] if_False prod.inject option.inject)
  show "v' = ((w + n) mod 8, bs @ take n b)"
    using assms bs unfolding n by (simp only: ring_pipe_ops not_le [symmetric] if_False prod.inject)
  show "n \<le> length b" "n \<le> 8 - length bs" "n \<le> 8 - w mod 8"
    unfolding n by (rule min.cobounded1 min.coboundedI2 order_refl)+
qed

lemma ring_pipe_lawful: "pipe_lawful ring_pipe"
proof -
  have one: "n \<le> length b \<and> n \<le> pipe_room ring_pipe v \<and> pipe_bytes ring_pipe v' = pipe_bytes ring_pipe v @ take n b
      \<and> pipe_room ring_pipe v' = pipe_room ring_pipe v - n"
    if "try_write ring_pipe v b = (v', Some n)" for v b v' n
  proof -
    obtain w bs where v: "v = (w, bs)" by (cases v)
    note some = ring_write_some [OF that [unfolded v]]
    show ?thesis using some(4,5) unfolding v some(3) by (simp add: ring_pipe_ops(2,3))
  qed
  have full: "pipe_room ring_pipe v = 0 \<and> pipe_bytes ring_pipe v' = pipe_bytes ring_pipe v \<and> pipe_room ring_pipe v' = 0"
    if "try_write ring_pipe v b = (v', None)" for v b v'
  proof -
    obtain w bs where v: "v = (w, bs)" by (cases v)
    with that have "8 \<le> length bs" by (cases "8 \<le> length bs") (simp_all add: ring_pipe_ops(1))
    with that v show ?thesis by (auto simp: ring_pipe_ops)
  qed
  have again: "m = min (length b - n) (pipe_room ring_pipe v')"
    if again_write: "try_write ring_pipe v b = (v', Some n)" "n < length b" "try_write ring_pipe v' (drop n b) = (v'', Some m)"
    for v b v' n v'' m
  proof -
    obtain w bs w' bs' where v: "v = (w, bs)" "v' = (w', bs')" by (cases v; cases v') simp
    note some = ring_write_some [OF again_write(1) [unfolded v]]
    note rest = ring_write_some [OF again_write(3) [unfolded v]]
    have bs': "w' = (w + n) mod 8" "length bs' = length bs + n" using some(3,4) by simp_all
    then have "n < 8 - length bs" using rest(1) by linarith
    with some(2) again_write(2) have "n = 8 - w mod 8" by linarith
    then have "w' = 0" using bs'(1) by presburger
    with rest(2) show ?thesis by (simp add: v ring_pipe_ops(3))
  qed
  show ?thesis unfolding pipe_lawful_def using one full again by blast
qed

theorem log_record_translates_witness:
  "\<exists>t. pipe_bytes ring_pipe (log_record ring_pipe (6, []) [''a'' @ [LF], ''b'']) = t
     \<and> t = [CHR ''a'', CR, LF, CHR ''b'', CR, LF]"
  using log_record_translates [OF ring_pipe_lawful, of "(6, [])" "[''a'' @ [LF], ''b'']"]
  by (simp add: ring_pipe_def LF_def CR_def)

section \<open>What the keys of the serial port are\<close>

lemma uart_reports_ascii: "is_ascii s \<Longrightarrow> uart_reports s = map uart_report (filter (\<lambda>c. c \<noteq> 0x0d) (map nat_of_byte s))"
  by (simp add: uart_reports_def from_utf8_def utf8_valid_ascii str_chars_ascii)

text \<open>ASCII text typed at the serial port becomes one key press per character but carriage returns, with line feed,
  delete, tab and escape as the keys of those names, the same however the reads cut it into chunks.\<close>

theorem uart_reports_chunked:
  assumes "is_ascii (concat chunks)"
  shows "concat (map uart_reports chunks)
     = map uart_report (filter (\<lambda>c. c \<noteq> 0x0d) (map nat_of_byte (concat chunks)))"
  using assms
proof (induction chunks)
  case (Cons s chunks)
  then show ?case by (simp add: uart_reports_ascii is_ascii_def)
qed simp

theorem uart_reports_chunked_witness:
  "map rep_key (concat (map uart_reports [''l'', ''s'' @ [CR, LF]])) = [KChar 0x6c, KChar 0x73, KEnter]"
  by (subst uart_reports_chunked) (simp_all add: LF_def CR_def uart_report_def uart_key_def)

lemma utf8_valid_append_ascii: "is_ascii pre \<Longrightarrow> utf8_valid (pre @ s) = utf8_valid s"
proof (induction pre)
  case (Cons b pre)
  then have "utf8_first (b # pre @ s) = (1, True)" by (simp add: utf8_first_def Let_def)
  with Cons show ?case using utf8_valid.simps [of "b # pre @ s"] by simp
qed simp

text \<open>a character of two bytes that the end of a read falls into is lost, with all that was read before it in the first read
  and all that follows it in the second.\<close>

theorem uart_split_char_loses_chunks:
  assumes "is_ascii pre"
  shows "uart_reports [CHR 0xc3, CHR 0xa9] = [uart_report 0xe9]
    \<and> uart_reports (pre @ [CHR 0xc3]) = [] \<and> uart_reports (CHR 0xa9 # post) = []"
proof -
  have "utf8_first [CHR 0xc3, CHR 0xa9] = (2, True)" "utf8_first [CHR 0xc3] = (1, False)"
      "utf8_first (CHR 0xa9 # post) = (1, False)"
    by (simp_all add: utf8_first_def utf8_second_ok_def Let_def)
  then have "utf8_valid [CHR 0xc3, CHR 0xa9]" "\<not> utf8_valid [CHR 0xc3]" "\<not> utf8_valid (CHR 0xa9 # post)"
    using utf8_valid.simps [of "[CHR 0xc3, CHR 0xa9]"] utf8_valid.simps [of "[CHR 0xc3]"]
      utf8_valid.simps [of "CHR 0xa9 # post"] utf8_valid.simps [of "[]"] by simp_all
  then show ?thesis
    using utf8_valid_append_ascii [OF assms, of "[CHR 0xc3]"]
    by (simp add: uart_reports_def from_utf8_def utf8_width_def Let_def)
qed

theorem uart_split_char_loses_chunks_witness:
  "uart_reports (''caf'' @ [CHR 0xc3]) = [] \<and> uart_reports (CHR 0xa9 # '' au lait'') = []"
  using uart_split_char_loses_chunks [of "''caf''" "'' au lait''"] by simp

end
