(* ===== verification/Psram.thy ===== *)
theory Psram
  imports RustStd
begin

text \<open>
  The external RAM (\<open>src/psram.rs\<close>): finding it, computing its timing from the system clock, and the writes to the QMI
  peripheral that set it up. A register write is a value of \<open>qmi_op\<close>; what the peripheral does with it is the chip's.
\<close>

section \<open>Identification\<close>

definition PSRAM_CMD_QUAD_END :: u8 where "PSRAM_CMD_QUAD_END = 0xf5"
definition PSRAM_CMD_READ_ID :: u8 where "PSRAM_CMD_READ_ID = 0x9F"
definition PSRAM_CMD_NOOP :: u8 where "PSRAM_CMD_NOOP = 0xFF"
definition PSRAM_KNOWN_GOOD_DIE_PASS :: u8 where "PSRAM_KNOWN_GOOD_DIE_PASS = 0x5d"

definition psram_size :: "u16 \<Rightarrow> u16 \<Rightarrow> u32" where
  "psram_size kgd eid =
     (if kgd = ucast PSRAM_KNOWN_GOOD_DIE_PASS then
        (let param_size = 1024 * 1024; size_id = drop_bit 5 eid
         in if eid = 0x26 \<or> size_id = 2 then param_size * 8
            else if size_id = 0 then param_size * 2
            else if size_id = 1 then param_size * 4
            else param_size)
      else 0)"

text \<open>The loop over the seven replies, of which two are kept.\<close>

fun keep_replies :: "nat \<Rightarrow> u16 \<times> u16 \<Rightarrow> u16 list \<Rightarrow> u16 \<times> u16" where
  "keep_replies i (kgd, eid) [] = (kgd, eid)"
| "keep_replies i (kgd, eid) (v # vs) =
     keep_replies (Suc i) (if i = 5 then (v, eid) else if i = 6 then (kgd, v) else (kgd, eid)) vs"

datatype width = WSingle | WQuad

record psram_timing =
  max_select :: u8
  min_deselect :: u8
  rxdelay :: u8
  divisor :: u8

datatype qmi_op =
    DirectCsr "nat option" "bool option" "bool option" "bool option"
      \<comment> \<open>clock divider, enable, assert CS1, automatic CS1; \<^term>\<open>None\<close> leaves a field (or its reset value) alone\<close>
  | WaitIdle
  | WaitTxEmpty
  | DirectTx width bool u16 \<comment> \<open>width, output enable, data; the reply is pushed\<close>
  | DirectRx
  | Timing psram_timing
  | ReadFormat nat nat \<comment> \<open>quad everywhere; bits of the prefix and of the dummy cycles\<close>
  | ReadCommand u16
  | WriteFormat nat
  | WriteCommand u16
  | DirectOff
  | WritableM1

definition id_command :: "nat \<Rightarrow> u16" where
  "id_command i = ucast (if i = 0 then PSRAM_CMD_READ_ID else PSRAM_CMD_NOOP)"

definition detect_ops :: "qmi_op list" where
  "detect_ops =
     [DirectCsr (Some 30) (Some True) None None, WaitIdle, DirectCsr None None (Some True) None,
      DirectTx WQuad True (ucast PSRAM_CMD_QUAD_END), WaitIdle, DirectRx,
      DirectCsr None None (Some False) None, DirectCsr None None (Some True) None]
     @ concat (map (\<lambda>i. [DirectTx WSingle False (id_command i), WaitTxEmpty, WaitIdle, DirectRx]) [0..<7])
     @ [DirectCsr None (Some False) (Some False) None]"

definition detect_psram_qmi :: "u16 list \<Rightarrow> u32" where
  "detect_psram_qmi replies = (let (kgd, eid) = keep_replies 0 (0, 0) replies in psram_size kgd eid)"

section \<open>Timing\<close>

definition MAX_PSRAM_FREQ :: u32 where "MAX_PSRAM_FREQ = 133000000"

definition div_ceil :: "'a::len word \<Rightarrow> 'a word \<Rightarrow> 'a word" where
  "div_ceil a b = (if 0 < a mod b then a div b + 1 else a div b)"

definition psram_divisor :: "u32 \<Rightarrow> u32" where
  "psram_divisor clock_hz =
     (let d = div_ceil clock_hz MAX_PSRAM_FREQ
      in if d = 1 \<and> clock_hz > 100000000 then 2 else d)"

definition psram_rxdelay :: "u32 \<Rightarrow> u32" where
  "psram_rxdelay clock_hz =
     (let d = psram_divisor clock_hz
      in if clock_hz div d > 100000000 then d + 1 else d)"

definition clock_period_fs :: "u32 \<Rightarrow> u64" where
  "clock_period_fs clock_hz = 1000000000000000 div ucast clock_hz"

text \<open>The number of cycles the chip stays deselected, before it is cut to a byte; the subtraction must not wrap.\<close>

definition deselect_cycles :: "u32 \<Rightarrow> u64" where
  "deselect_cycles clock_hz =
     div_ceil (18 * 1000000) (clock_period_fs clock_hz) - ucast (psram_divisor clock_hz + 1) div 2"

definition psram_timing_of :: "u32 \<Rightarrow> psram_timing" where
  "psram_timing_of clock_hz =
     \<lparr>max_select = ucast ((125 * 1000000) div clock_period_fs clock_hz),
      min_deselect = ucast (ucast (deselect_cycles clock_hz) :: u32),
      rxdelay = ucast (psram_rxdelay clock_hz),
      divisor = ucast (psram_divisor clock_hz)\<rparr>"

text \<open>The write of \<open>0x35\<close> assigns the whole register after it has set \<open>nopush\<close>, which it clears again.\<close>

definition setup_ops :: "u32 \<Rightarrow> qmi_op list" where
  "setup_ops clock_hz =
     [DirectCsr (Some 10) (Some True) None (Some True), WaitIdle, DirectTx WSingle False 0x35, WaitIdle,
      Timing (psram_timing_of clock_hz), ReadFormat 8 24, ReadCommand 0xEB, WriteFormat 8, WriteCommand 0x38,
      DirectOff, WritableM1]"

text \<open>\<open>init_psram_qmi\<close>: the size and the writes made; \<^term>\<open>None\<close> is the division by a clock of zero.\<close>

definition init_psram_qmi :: "u32 \<Rightarrow> u16 list \<Rightarrow> (u32 \<times> qmi_op list) option" where
  "init_psram_qmi clock_hz replies =
     (let size' = detect_psram_qmi replies
      in if size' = 0 then Some (0, detect_ops)
         else if clock_hz = 0 then None
         else Some (size', detect_ops @ setup_ops clock_hz))"

section \<open>What the timing guarantees\<close>

lemma nat_div_ceil:
  fixes a b :: nat
  assumes "0 < b"
  shows "(if 0 < a mod b then a div b + 1 else a div b) = (a + b - 1) div b"
proof -
  obtain q r where qr: "a = b * q + r" "r < b" using mult_div_mod_eq [of b a] mod_less_divisor [OF assms, of a] by metis
  then have "a mod b = r" "a div b = q" by simp_all
  moreover have "(a + b - 1) div b = (if 0 < r then q + 1 else q)"
    using qr by (auto intro!: div_nat_eqI simp: algebra_simps)
  ultimately show ?thesis by simp
qed

lemma unat_div_ceil:
  assumes "0 < unat b"
  shows "unat (div_ceil a b) = (unat a + unat b - 1) div unat b"
proof (cases "0 < unat a mod unat b")
  case True
  have "unat a mod unat b < unat b" using assms by (rule mod_less_divisor)
  then have "1 < unat b" using True by linarith
  moreover have "0 < unat a" using True by (cases "unat a = 0") simp_all
  ultimately have "unat a div unat b < unat a" by (intro div_less_dividend)
  then have "unat a div unat b + 1 \<le> unat a" by simp
  then have "unat a div unat b + 1 < 2 ^ LENGTH('a)" using unsigned_less [of a, where ?'a = nat] by (rule le_less_trans)
  then have "unat (a div b + 1) = unat a div unat b + 1"
    by (subst unat_add_lem [THEN iffD1]) (simp_all add: unat_div)
  with True nat_div_ceil [OF assms, of "unat a"] show ?thesis by (simp add: div_ceil_def word_less_nat_alt unat_mod)
next
  case False
  with nat_div_ceil [OF assms, of "unat a"] show ?thesis
    by (simp add: div_ceil_def word_less_nat_alt unat_mod unat_div)
qed

lemma psram_divisor_nat:
  assumes "0 < unat clock_hz" and "unat clock_hz \<le> 300000000"
  defines "c \<equiv> unat clock_hz"
  shows "unat (psram_divisor clock_hz) = (if c \<le> 100000000 then 1 else if c \<le> 266000000 then 2 else 3)"
proof -
  have "unat (div_ceil clock_hz MAX_PSRAM_FREQ) = (c + 133000000 - 1) div 133000000"
    by (subst unat_div_ceil) (simp_all add: MAX_PSRAM_FREQ_def c_def)
  also have "\<dots> = (if c \<le> 133000000 then 1 else if c \<le> 266000000 then 2 else 3)"
    using assms by (auto intro!: div_nat_eqI)
  finally have d: "unat (div_ceil clock_hz MAX_PSRAM_FREQ) = (if c \<le> 133000000 then 1 else if c \<le> 266000000 then 2 else 3)" .
  have one: "div_ceil clock_hz MAX_PSRAM_FREQ = 1 \<longleftrightarrow> c \<le> 133000000"
    using d by (simp add: word_unat_eq_iff [of _ 1])
  have "clock_hz > 100000000 \<longleftrightarrow> c > 100000000" by (simp add: word_less_nat_alt c_def)
  with d one show ?thesis by (auto simp: psram_divisor_def Let_def)
qed

lemma clock_period_nat:
  assumes "0 < unat clock_hz" and "unat clock_hz \<le> 300000000"
  defines "P \<equiv> 10 ^ 15 div unat clock_hz"
  shows "unat (clock_period_fs clock_hz) = P" and "3333333 \<le> P" and "P * unat clock_hz \<le> 10 ^ 15"
proof -
  have "unat (ucast clock_hz :: u64) = unat clock_hz" by (simp add: unsigned_ucast_eq take_bit_nat_eq_self less_trans [OF unsigned_less])
  then show "unat (clock_period_fs clock_hz) = P"
    by (simp add: clock_period_fs_def unat_div P_def)
  have "10 ^ 15 div 300000000 \<le> P" unfolding P_def using assms(1,2) by (intro div_le_mono2)
  then show "3333333 \<le> P" by simp
  show "P * unat clock_hz \<le> 10 ^ 15" by (simp add: P_def)
qed

lemma deselect_nat:
  assumes "0 < unat clock_hz" and "unat clock_hz \<le> 300000000"
  defines "P \<equiv> 10 ^ 15 div unat clock_hz" and "q \<equiv> unat (psram_divisor clock_hz)"
  shows "unat (deselect_cycles clock_hz) + (q + 1) div 2 = (18000000 + P - 1) div P"
    and "unat (deselect_cycles clock_hz) \<le> 6"
proof -
  note period = clock_period_nat [OF assms(1,2), folded P_def]
  note divisor = psram_divisor_nat [OF assms(1,2), folded q_def]
  let ?D = "(18000000 + P - 1) div P"
  have "unat (div_ceil (18 * 1000000) (clock_period_fs clock_hz)) = ?D"
    using period(1,2) by (subst unat_div_ceil) simp_all
  moreover have "unat (ucast (psram_divisor clock_hz + 1) div 2 :: u64) = (q + 1) div 2"
  proof -
    have "unat (psram_divisor clock_hz + 1) = q + 1"
      using divisor by (subst unat_add_lem [THEN iffD1]) (simp_all add: q_def split: if_splits)
    moreover have "unat (ucast w :: u64) = unat w" for w :: u32 by (simp add: unsigned_ucast_eq take_bit_nat_eq_self less_trans [OF unsigned_less])
    ultimately show ?thesis by (simp only: unat_div) simp
  qed
  moreover have enough: "(q + 1) div 2 \<le> ?D"
  proof (cases "unat clock_hz \<le> 266000000")
    case True
    have "P div P \<le> ?D" by (rule div_le_mono) simp
    with True divisor period(2) show ?thesis by (auto split: if_splits)
  next
    case False
    have "P \<le> 10 ^ 15 div 266000000" unfolding P_def using False by (intro div_le_mono2) simp_all
    then have "P * 2 \<le> 18000000 + P - 1" by simp
    then have "P * 2 div P \<le> ?D" by (rule div_le_mono)
    with False divisor period(2) show ?thesis by simp
  qed
  ultimately have d: "unat (deselect_cycles clock_hz) = ?D - (q + 1) div 2"
    unfolding deselect_cycles_def by (subst unat_sub) (simp_all add: word_le_nat_alt)
  with enough show "unat (deselect_cycles clock_hz) + (q + 1) div 2 = ?D" by simp
  have "18000000 + P - 1 < P * 7" using period(2) by linarith
  then have "?D < 7" using period(2) by (simp add: less_mult_imp_div_less mult.commute)
  then show "unat (deselect_cycles clock_hz) \<le> 6" using d by linarith
qed



text \<open>the size is zero, and nothing set up, unless the die is marked good; else it is 1, 2, 4 or 8 MiB, within the window
  the second heap is given. Memory writes through the window are allowed only after direct mode is off again.\<close>

theorem psram_size_cases:
  assumes "init_psram_qmi clock_hz replies = Some (size', ops)"
  shows "unat size' \<in> {0, 0x100000, 0x200000, 0x400000, 0x800000} \<and> unat size' \<le> 0x1000000
    \<and> (size' = 0 \<longrightarrow> WritableM1 \<notin> set ops)
    \<and> (size' \<noteq> 0 \<longrightarrow> (\<exists>before. ops = before @ [DirectOff, WritableM1] \<and> Timing (psram_timing_of clock_hz) \<in> set before))"
proof -
  obtain kgd eid where r: "keep_replies 0 (0, 0) replies = (kgd, eid)" by fastforce
  let ?sizes = "{0, 0x100000, 0x200000, 0x400000, 0x800000} :: nat set"
  have sizes: "unat (psram_size kgd eid) \<in> ?sizes" by (simp add: psram_size_def Let_def)
  have off: "WritableM1 \<notin> set detect_ops" by (auto simp: detect_ops_def)
  obtain before where before: "detect_ops @ setup_ops clock_hz = before @ [DirectOff, WritableM1]"
      "Timing (psram_timing_of clock_hz) \<in> set before"
    by (rule that [of "detect_ops @ butlast (butlast (setup_ops clock_hz))"]) (simp_all add: setup_ops_def)
  from assms r consider "size' = 0" "ops = detect_ops"
    | "size' = psram_size kgd eid" "size' \<noteq> 0" "ops = detect_ops @ setup_ops clock_hz"
    by (auto simp: init_psram_qmi_def detect_psram_qmi_def Let_def split: if_splits)
  then have "unat size' \<in> ?sizes \<and> (size' = 0 \<longrightarrow> WritableM1 \<notin> set ops)
    \<and> (size' \<noteq> 0 \<longrightarrow> (\<exists>before. ops = before @ [DirectOff, WritableM1] \<and> Timing (psram_timing_of clock_hz) \<in> set before))"
  proof cases
    case 1
    with off show ?thesis by simp
  next
    case 2
    with sizes before show ?thesis by metis
  qed
  moreover have "n \<le> 0x1000000" if "n \<in> ?sizes" for n using that by auto
  ultimately show ?thesis by blast
qed

theorem psram_size_cases_witness:
  "\<exists>ops. init_psram_qmi 150000000 [0, 0, 0, 0, 0, 0x5d, 0x50] = Some (0x800000, ops) \<and> WritableM1 \<in> set ops"
proof -
  have "init_psram_qmi 150000000 [0, 0, 0, 0, 0, 0x5d, 0x50] = Some (0x800000, detect_ops @ setup_ops 150000000)"
    by (simp add: init_psram_qmi_def detect_psram_qmi_def psram_size_def PSRAM_KNOWN_GOOD_DIE_PASS_def Let_def)
  from psram_size_cases [OF this] this show ?thesis by (intro exI conjI) auto
qed

end
