(* ===== verification/Boot.thy ===== *)
theory Boot
  imports RustStd Utf8
begin

text \<open>What \<open>src/main.rs\<close> itself puts on the screen at boot: the banner, and the panic message of an earlier run.\<close>

text \<open>\<open>str::lines\<close>: split at line feeds, a carriage return before one dropped, no empty line after the last.\<close>

definition strip_cr :: "rstr \<Rightarrow> rstr" where
  "strip_cr l = (if l \<noteq> [] \<and> last l = CHR 0x0d then butlast l else l)"

definition str_lines :: "rstr \<Rightarrow> rstr list" where
  "str_lines s =
     (let ps = str_split (CHR 0x0a) s; all = map strip_cr (butlast ps)
      in if last ps = [] then all else all @ [last ps])"

definition boot_banner :: "rstr \<Rightarrow> rstr \<Rightarrow> rstr" where
  "boot_banner tag board = [CHR 0x1b] @ ''[35mPicoCalc '' @ tag @ '' ('' @ board @ '')'' @ [CHR 0x1b] @ ''[0m'' @ [CHR 0x0d, CHR 0x0a]"

definition panic_report :: "rstr \<Rightarrow> rstr" where
  "panic_report msg =
     [CHR 0x1f] @ ''[1mPanic: '' @ concat (map (\<lambda>chunk. chunk @ [CHR 0x0d, CHR 0x0a]) (str_lines msg)) @ [CHR 0x1f] @ ''[0m''"

lemma str_split_subset: "w \<in> set (str_split d s) \<Longrightarrow> set w \<subseteq> set s"
proof (induction s arbitrary: w)
  case (Cons c s)
  obtain v vs where split: "str_split d s = v # vs" by (cases "str_split d s") (simp_all add: str_split_nonempty)
  then have "set v \<subseteq> set s" using Cons.IH [of v] by simp
  with Cons split show ?case by (fastforce split: if_splits)
qed simp

lemma str_lines_subset:
  assumes "l \<in> set (str_lines s)"
  shows "set l \<subseteq> set s"
proof -
  let ?ps = "str_split (CHR 0x0a) s"
  have "\<exists>w \<in> set ?ps. set l \<subseteq> set w"
  proof (cases "l = last ?ps")
    case True
    with last_in_set [OF str_split_nonempty, of "CHR 0x0a" s] show ?thesis by blast
  next
    case False
    with assms have "l \<in> strip_cr ` set (butlast ?ps)" by (auto simp: str_lines_def Let_def split: if_splits)
    then obtain w where w: "w \<in> set (butlast ?ps)" "l = strip_cr w" by blast
    then have "set l \<subseteq> set w" by (auto simp: strip_cr_def dest: in_set_butlastD)
    with in_set_butlastD [OF w(1)] show ?thesis by blast
  qed
  then show ?thesis using str_split_subset by blast
qed

text \<open>the report of a panic contains no escape character that the message does not contain: its two attributes are
  introduced by the control character 0x1f, so neither is one and their letters are shown as text.\<close>

theorem panic_report_has_no_escape:
  assumes "CHR 0x1b \<notin> set msg"
  shows "CHR 0x1b \<notin> set (panic_report msg) \<and> hd (panic_report msg) = CHR 0x1f
    \<and> take 4 (panic_report msg) = [CHR 0x1f, CHR ''['', CHR ''1'', CHR ''m'']"
proof -
  have "CHR 0x1b \<notin> set l" if "l \<in> set (str_lines msg)" for l
    using str_lines_subset [OF that] assms by blast
  then show ?thesis by (auto simp: panic_report_def)
qed

theorem panic_report_has_no_escape_witness:
  "CHR 0x1b \<notin> set (panic_report (''index out of'' @ [CHR 0x0a] @ ''bounds''))"
  using panic_report_has_no_escape [of "''index out of'' @ [CHR 0x0a] @ ''bounds''"] by simp

end
