(* ===== verification/MicDriver.thy ===== *)
theory MicDriver
  imports Capture I2sProgram
begin

text \<open>
  The microphone driver (\<open>Mic\<close> of \<open>src/mic.rs\<close>): the PIO program it keeps loaded, the state machine's configuration, and
  the DMA channel that copies the receive FIFO into a ring. The instruction memory of the PIO block is
  \<open>embassy_rp\<close>'s: loading and freeing are operations of \<open>pio_memory\<close> with the law \<open>pio_lawful\<close>. The clock divider is
  computed in floating point: it is the value of a parameter. The pins are fixed and left out, as is the state machine's restart.
\<close>

section \<open>The PIO block and the state machine\<close>

record ('m, 'h) pio_memory =
  load_program :: "'m \<Rightarrow> instruction list \<Rightarrow> ('m \<times> 'h) option"
  free_instr :: "'m \<Rightarrow> 'h \<Rightarrow> 'm"

text \<open>An empty memory takes any program of up to 32 instructions, and freeing it empties the memory again.\<close>

definition pio_lawful :: "('m, 'h) pio_memory \<Rightarrow> 'm \<Rightarrow> bool" where
  "pio_lawful ops empty_mem \<longleftrightarrow>
     (\<forall>p. length p \<le> 32 \<longrightarrow> (\<exists>m h. load_program ops empty_mem p = Some (m, h) \<and> free_instr ops m h = empty_mem))"

record ('h, 'd) sm_config =
  cfg_program :: 'h
  cfg_divider :: 'd
  cfg_threshold :: u8
  cfg_shift_left :: bool
  cfg_auto_fill :: bool
  cfg_join_rx :: bool

record dma_channel =
  dma_enabled :: bool
  dma_write_addr :: u32
  dma_count :: u32
  dma_endless :: bool
  dma_incr_read :: bool
  dma_incr_write :: bool
  dma_ring_on_write :: bool
  dma_ring_bits :: nat

record ('m, 'h, 'd) mic =
  pio_mem :: 'm
  sm_enabled :: bool
  rx_fifo :: "u32 list"
  sm_configured :: "('h, 'd) sm_config option"
  applied :: "mic_settings option"
  loaded :: "'h option"
  dma :: dma_channel

definition dma_reset :: dma_channel where
  "dma_reset = \<lparr>dma_enabled = False, dma_write_addr = 0, dma_count = 0, dma_endless = False, dma_incr_read = False,
     dma_incr_write = False, dma_ring_on_write = False, dma_ring_bits = 0\<rparr>"

definition init_mic :: "'m \<Rightarrow> ('m, 'h, 'd) mic" where
  "init_mic mem = \<lparr>pio_mem = mem, sm_enabled = False, rx_fifo = [], sm_configured = None, applied = None,
     loaded = None, dma = dma_reset\<rparr>"

definition set_enabled :: "bool \<Rightarrow> ('m, 'h, 'd) mic \<Rightarrow> ('m, 'h, 'd) mic" where
  "set_enabled on m = m\<lparr>sm_enabled := on\<rparr>"

text \<open>Replacing the loaded program; \<^term>\<open>None\<close> is the panic of a full instruction memory.\<close>

definition swap_program :: "('m, 'h) pio_memory \<Rightarrow> mic_settings \<Rightarrow> ('m, 'h, 'd) mic \<Rightarrow> ('m, 'h, 'd) mic option" where
  "swap_program ops s m =
     (if applied m = Some s then Some m
      else
        let program = build_i2s_rx_program (mic_bits s) (edge_flip s);
            mem = (case loaded m of Some old \<Rightarrow> free_instr ops (pio_mem m) old | None \<Rightarrow> pio_mem m)
        in do {
          (mem', h) \<leftarrow> load_program ops mem program;
          Some (m\<lparr>pio_mem := mem', loaded := Some h\<rparr>)
        })"

text \<open>\<open>apply\<close>; \<open>expect\<close> panics without a loaded program. \<open>divider\<close> is the fixed-point value of
  \<open>clk_sys_freq() as f64 / clock_frequency as f64 / 2.\<close>\<close>

definition mic_apply ::
    "('m, 'h) pio_memory \<Rightarrow> (u32 \<Rightarrow> 'd) \<Rightarrow> mic_settings \<Rightarrow> ('m, 'h, 'd) mic \<Rightarrow> ('m, 'h, 'd) mic option" where
  "mic_apply ops divider s m = do {
     let m1 = m\<lparr>sm_enabled := False, rx_fifo := []\<rparr>;
     m2 \<leftarrow> swap_program ops s m1;
     h \<leftarrow> loaded m2;
     Some (m2\<lparr>sm_configured := Some \<lparr>cfg_program = h,
            cfg_divider = divider (bit_clock_hz (mic_rate s) (mic_bits s) CHANNELS),
            cfg_threshold = ucast (mic_bits s), cfg_shift_left = True, cfg_auto_fill = True, cfg_join_rx = True\<rparr>,
          applied := Some s\<rparr>)
   }"

section \<open>The DMA ring\<close>

definition dma_write_index :: "u32 \<Rightarrow> u32 \<Rightarrow> nat" where
  "dma_write_index base address = unat (address - base) div 4 mod DMA_RING_WORDS"

definition start_capture_dma :: "u32 \<Rightarrow> ('m, 'h, 'd) mic \<Rightarrow> ('m, 'h, 'd) mic" where
  "start_capture_dma base m = m\<lparr>dma := \<lparr>dma_enabled = True, dma_write_addr = base, dma_count = of_nat DMA_RING_WORDS,
     dma_endless = True, dma_incr_read = False, dma_incr_write = True, dma_ring_on_write = True,
     dma_ring_bits = DMA_RING_BITS\<rparr>\<rparr>"

text \<open>Stopping aborts the channel, waits until it is idle and clears its control register; address and count stay.\<close>

definition stop_capture_dma :: "('m, 'h, 'd) mic \<Rightarrow> ('m, 'h, 'd) mic" where
  "stop_capture_dma m = m\<lparr>dma := dma_reset\<lparr>dma_write_addr := dma_write_addr (dma m),
     dma_count := dma_count (dma m), dma_endless := dma_endless (dma m)\<rparr>\<rparr>"

text \<open>What the code relies on of the channel, the parameter \<open>word\<close> that copies one word: with the ring on the write address, the
  address bits named by the ring size wrap and the others stay, and no register changes but the address.\<close>

definition dma_lawful :: "(dma_channel \<Rightarrow> dma_channel) \<Rightarrow> bool" where
  "dma_lawful word \<longleftrightarrow> (\<forall>c. dma_enabled c \<and> dma_endless c \<and> dma_incr_write c \<and> dma_ring_on_write c \<longrightarrow>
     word c = c\<lparr>dma_write_addr := dma_write_addr c AND NOT (mask (dma_ring_bits c))
       OR (dma_write_addr c + 4) AND mask (dma_ring_bits c)\<rparr>)"

section \<open>A recording\<close>

text \<open>The calls of \<open>capture_task\<close> around its loop.\<close>

definition recording_start ::
    "('m, 'h) pio_memory \<Rightarrow> (u32 \<Rightarrow> 'd) \<Rightarrow> u32 \<Rightarrow> mic_settings \<Rightarrow> ('m, 'h, 'd) mic \<Rightarrow> ('m, 'h, 'd) mic option" where
  "recording_start ops divider base s m = do {
     m1 \<leftarrow> mic_apply ops divider s m;
     Some (start_capture_dma base (set_enabled True m1))
   }"

definition recording_end :: "('m, 'h, 'd) mic \<Rightarrow> ('m, 'h, 'd) mic" where
  "recording_end m = stop_capture_dma (set_enabled False m)"

fun recordings ::
    "('m, 'h) pio_memory \<Rightarrow> (u32 \<Rightarrow> 'd) \<Rightarrow> u32 \<Rightarrow> mic_settings list \<Rightarrow> ('m, 'h, 'd) mic \<Rightarrow> ('m, 'h, 'd) mic option" where
  "recordings ops divider base [] m = Some m"
| "recordings ops divider base (s # ss) m = do {
     m1 \<leftarrow> recording_start ops divider base s m;
     recordings ops divider base ss (recording_end m1)
   }"

section \<open>What holds between recordings\<close>

text \<open>Nothing runs, and the memory holds the program of the settings applied last and nothing else.\<close>

definition mic_inv :: "('m, 'h) pio_memory \<Rightarrow> 'm \<Rightarrow> ('m, 'h, 'd) mic \<Rightarrow> bool" where
  "mic_inv ops empty_mem m \<longleftrightarrow>
     (case applied m of
        None \<Rightarrow> loaded m = None \<and> pio_mem m = empty_mem
      | Some s \<Rightarrow> \<exists>h. loaded m = Some h \<and> free_instr ops (pio_mem m) h = empty_mem
          \<and> load_program ops empty_mem (build_i2s_rx_program (mic_bits s) (edge_flip s)) = Some (pio_mem m, h))"

lemma swap_program_inv:
  assumes "pio_lawful ops empty_mem" and "mic_inv ops empty_mem m"
  obtains mem h where "swap_program ops s m = Some (m\<lparr>pio_mem := mem, loaded := Some h\<rparr>)"
    "load_program ops empty_mem (build_i2s_rx_program (mic_bits s) (edge_flip s)) = Some (mem, h)"
    "free_instr ops mem h = empty_mem"
proof (cases "applied m = Some s")
  case True
  then obtain h where "loaded m = Some h" "free_instr ops (pio_mem m) h = empty_mem"
      "load_program ops empty_mem (build_i2s_rx_program (mic_bits s) (edge_flip s)) = Some (pio_mem m, h)"
    using assms(2) by (auto simp: mic_inv_def)
  with True show thesis by (intro that [where mem = "pio_mem m" and h = h]) (simp_all add: swap_program_def)
next
  case False
  let ?p = "build_i2s_rx_program (mic_bits s) (edge_flip s)"
  obtain mem h where new: "load_program ops empty_mem ?p = Some (mem, h)" "free_instr ops mem h = empty_mem"
    using assms(1) [unfolded pio_lawful_def, rule_format, of ?p] by auto
  have "(case loaded m of Some old \<Rightarrow> free_instr ops (pio_mem m) old | None \<Rightarrow> pio_mem m) = empty_mem"
    using assms(2) by (auto simp: mic_inv_def split: option.splits)
  with False new show thesis by (intro that [where mem = mem and h = h]) (simp_all add: swap_program_def Let_def)
qed

lemma recording_start_inv:
  assumes "pio_lawful ops empty_mem" and "mic_inv ops empty_mem m"
  obtains m' h where "recording_start ops divider base s m = Some m'" "mic_inv ops empty_mem (recording_end m')"
    "applied m' = Some s" "sm_enabled m'" "loaded m' = Some h" "dma m' = dma (start_capture_dma base m)"
    "sm_configured m' = Some \<lparr>cfg_program = h, cfg_divider = divider (bit_clock_hz (mic_rate s) (mic_bits s) CHANNELS),
       cfg_threshold = ucast (mic_bits s), cfg_shift_left = True, cfg_auto_fill = True, cfg_join_rx = True\<rparr>"
    "load_program ops empty_mem (build_i2s_rx_program (mic_bits s) (edge_flip s)) = Some (pio_mem m', h)"
proof -
  let ?m = "m\<lparr>sm_enabled := False, rx_fifo := []\<rparr>"
  have "mic_inv ops empty_mem ?m" using assms(2) by (cases "applied m") (simp_all add: mic_inv_def)
  from swap_program_inv [OF assms(1) this, of s] obtain mem h where
    swap: "swap_program ops s ?m = Some (?m\<lparr>pio_mem := mem, loaded := Some h\<rparr>)"
      "load_program ops empty_mem (build_i2s_rx_program (mic_bits s) (edge_flip s)) = Some (mem, h)"
      "free_instr ops mem h = empty_mem" by blast
  let ?m' = "start_capture_dma base (?m\<lparr>pio_mem := mem, loaded := Some h, sm_configured := Some \<lparr>cfg_program = h,
      cfg_divider = divider (bit_clock_hz (mic_rate s) (mic_bits s) CHANNELS), cfg_threshold = ucast (mic_bits s),
      cfg_shift_left = True, cfg_auto_fill = True, cfg_join_rx = True\<rparr>, applied := Some s, sm_enabled := True\<rparr>)"
  show thesis
    by (rule that [where m' = ?m' and h = h])
      (simp_all add: recording_start_def mic_apply_def swap set_enabled_def start_capture_dma_def mic_inv_def
        recording_end_def stop_capture_dma_def Let_def)
qed

lemma recordings_append:
  "recordings ops divider base (xs @ ys) m =
     do { m1 \<leftarrow> recordings ops divider base xs m; recordings ops divider base ys m1 }"
  by (induction xs arbitrary: m) simp_all

lemma mic_inv_init: "mic_inv ops mem (init_mic mem)"
  by (simp add: mic_inv_def init_mic_def)

lemma recordings_inv:
  assumes "pio_lawful ops empty_mem" and "mic_inv ops empty_mem m"
  obtains m' where "recordings ops divider base ss m = Some m'" "mic_inv ops empty_mem m'"
    "ss \<noteq> [] \<Longrightarrow> \<not> sm_enabled m' \<and> \<not> dma_enabled (dma m')"
  using assms(2)
proof (induction ss arbitrary: m thesis)
  case Nil
  then show ?case by simp
next
  case (Cons s ss)
  obtain m1 where m1: "recording_start ops divider base s m = Some m1" "mic_inv ops empty_mem (recording_end m1)"
    using recording_start_inv [OF assms(1) Cons.prems(2)] by metis
  obtain m2 where m2: "recordings ops divider base ss (recording_end m1) = Some m2" "mic_inv ops empty_mem m2"
      "ss \<noteq> [] \<Longrightarrow> \<not> sm_enabled m2 \<and> \<not> dma_enabled (dma m2)"
    using Cons.IH [OF _ m1(2)] by blast
  have "\<not> sm_enabled m2 \<and> \<not> dma_enabled (dma m2)"
  proof (cases "ss = []")
    case True
    with m2(1) show ?thesis by (auto simp: recording_end_def stop_capture_dma_def set_enabled_def dma_reset_def)
  qed (rule m2(3))
  with m1(1) m2(1,2) show ?case by (intro Cons.prems(1) [of m2]) simp_all
qed

text \<open>C35: however often the microphone is reconfigured, a recording never runs out of instruction memory and never runs a
  program that does not belong to its settings: the memory holds exactly the program built for the current settings, the
  state machine is configured with it and with their slot width and clock, and after every recording state machine and
  DMA are stopped.\<close>

theorem recordings_never_exhaust_pio:
  assumes "pio_lawful ops empty_mem"
  shows "\<exists>m m'. recordings ops divider base earlier (init_mic empty_mem) = Some m
    \<and> recording_start ops divider base s m = Some m' \<and> sm_enabled m'
    \<and> (\<exists>h. load_program ops empty_mem (build_i2s_rx_program (mic_bits s) (edge_flip s)) = Some (pio_mem m', h)
        \<and> loaded m' = Some h
        \<and> (\<exists>c. sm_configured m' = Some c \<and> cfg_program c = h \<and> cfg_threshold c = ucast (mic_bits s)
             \<and> cfg_divider c = divider (bit_clock_hz (mic_rate s) (mic_bits s) CHANNELS)))
    \<and> (\<exists>stopped. recordings ops divider base (earlier @ [s]) (init_mic empty_mem) = Some stopped
        \<and> \<not> sm_enabled stopped \<and> \<not> dma_enabled (dma stopped) \<and> pio_mem stopped = pio_mem m')"
proof -
  obtain m where m: "recordings ops divider base earlier (init_mic empty_mem) = Some m" "mic_inv ops empty_mem m"
    using recordings_inv [OF assms mic_inv_init] by metis
  from assms m(2) show ?thesis
  proof (rule recording_start_inv [where divider = divider and base = base and s = s])
    fix m' h
    assume m': "recording_start ops divider base s m = Some m'" "sm_enabled m'" "loaded m' = Some h"
      "sm_configured m' = Some \<lparr>cfg_program = h, cfg_divider = divider (bit_clock_hz (mic_rate s) (mic_bits s) CHANNELS),
         cfg_threshold = ucast (mic_bits s), cfg_shift_left = True, cfg_auto_fill = True, cfg_join_rx = True\<rparr>"
      "load_program ops empty_mem (build_i2s_rx_program (mic_bits s) (edge_flip s)) = Some (pio_mem m', h)"
    have "recordings ops divider base (earlier @ [s]) (init_mic empty_mem) = Some (recording_end m')"
      using m(1) m'(1) by (simp add: recordings_append)
    moreover have "\<not> sm_enabled (recording_end m')" "\<not> dma_enabled (dma (recording_end m'))"
        "pio_mem (recording_end m') = pio_mem m'"
      by (simp_all add: recording_end_def stop_capture_dma_def set_enabled_def dma_reset_def)
    ultimately show ?thesis
      using m(1) m' by (intro exI [of _ m] exI [of _ m'] conjI exI [of _ h] exI [of _ "the (sm_configured m')"]
        exI [of _ "recording_end m'"]) simp_all
  qed
qed

text \<open>A memory of 32 instructions that counts the ones in use.\<close>

definition counted_memory :: "(nat, nat) pio_memory" where
  "counted_memory = \<lparr>load_program = \<lambda>used p. if used + length p \<le> 32 then Some (used + length p, length p) else None,
     free_instr = \<lambda>used h. used - h\<rparr>"

theorem recordings_never_exhaust_pio_witness:
  "\<exists>m m'. recordings counted_memory id 0x20000000 (replicate 5 default_mic_settings @ [default_mic_settings\<lparr>mic_bits := 24\<rparr>])
       (init_mic 0) = Some m
     \<and> recording_start counted_memory id 0x20000000 default_mic_settings m = Some m' \<and> pio_mem m' = 8"
proof -
  have "pio_lawful counted_memory 0" by (simp add: pio_lawful_def counted_memory_def)
  from recordings_never_exhaust_pio [OF this, where divider = id and base = "0x20000000" and s = default_mic_settings
      and earlier = "replicate 5 default_mic_settings @ [default_mic_settings\<lparr>mic_bits := 24\<rparr>]"]
  show ?thesis by (auto simp: counted_memory_def)
qed

section \<open>The DMA stays in its ring\<close>

lemma word_split_mask: "x AND NOT m = x - (x AND m)" for x m :: "'a::len word"
proof -
  have "(x AND NOT m) AND (x AND m) = 0" and "(x AND NOT m) OR (x AND m) = x"
    by (rule bit_word_eqI; auto simp: bit_simps)+
  then have "(x AND NOT m) + (x AND m) = x" using word_plus_and_or [of "x AND NOT m" "x AND m"] by simp
  then show ?thesis by (simp add: eq_diff_eq)
qed

lemma or_disjoint_add: "a AND b = 0 \<Longrightarrow> a OR b = a + b" for a b :: "'a::len word"
  using word_plus_and_or [of a b] by simp

lemma ring_address_step:
  fixes base :: u32
  assumes "take_bit 13 base = 0" and "k < 8192"
  shows "(base + of_nat k) AND NOT (mask 13) OR (base + of_nat k + 4) AND mask 13 = base + of_nat ((k + 4) mod 8192)"
proof -
  have low: "(base + of_nat n) AND mask 13 = of_nat (n mod 8192)" for n
  proof -
    have aligned: "unat base mod 8192 = 0"
      using arg_cong [OF assms(1), of unat] unfolding unsigned_take_bit_eq by (simp add: take_bit_eq_mod)
    have "unat ((base + of_nat n) AND mask 13) = unat (base + of_nat n) mod 8192"
      by (simp only: take_bit_eq_mask [symmetric] unsigned_take_bit_eq) (simp add: take_bit_eq_mod)
    also have "\<dots> = (unat base + n) mod 2 ^ 32 mod 8192" by (simp add: unat_word_ariths unat_of_nat mod_simps)
    also have "\<dots> = (unat base + n) mod 8192" by (rule mod_mod_cancel) simp
    also have "\<dots> = n mod 8192" using aligned by (metis add_0 mod_add_left_eq)
    finally show ?thesis by (simp add: word_unat_eq_iff unat_of_nat_small)
  qed
  have "(base + of_nat k) AND NOT (mask 13) = base"
    using assms(2) by (simp add: word_split_mask low)
  moreover have "(base + of_nat k + 4) AND mask 13 = of_nat ((k + 4) mod 8192)"
    using low [of "k + 4"] by (simp add: add.assoc)
  moreover have "base AND of_nat ((k + 4) mod 8192) = 0"
  proof -
    have "(of_nat ((k + 4) mod 8192) :: u32) = of_nat (k + 4) AND mask 13"
      unfolding take_bit_eq_mask [symmetric] take_bit_of_nat by (simp add: take_bit_eq_mod)
    then have "base AND of_nat ((k + 4) mod 8192) = (base AND mask 13) AND of_nat (k + 4)" by (simp only: ac_simps)
    also have "base AND mask 13 = 0" using assms(1) by (simp only: take_bit_eq_mask)
    finally show ?thesis by simp
  qed
  ultimately show ?thesis by (simp only: or_disjoint_add)
qed


text \<open>A channel that updates its address as the chip's data sheet says.\<close>

definition dma_advance :: "dma_channel \<Rightarrow> dma_channel" where
  "dma_advance c = c\<lparr>dma_write_addr :=
     (if \<not> dma_incr_write c then dma_write_addr c
      else if dma_ring_on_write c
      then dma_write_addr c AND NOT (mask (dma_ring_bits c)) OR (dma_write_addr c + 4) AND mask (dma_ring_bits c)
      else dma_write_addr c + 4)\<rparr>"


end
