(* ===== verification/Network.thy ===== *)
theory Network
  imports Config Clock Shell
begin

text \<open>
  Bringing the network up (\<open>setup_wifi\<close> of \<open>src/net.rs\<close>) and the clock task it starts (\<open>time_sync\<close> of \<open>src/time.rs\<close>).
  The radio, DHCP, DNS and NTP are outside: the status of each join attempt, the time the address takes, its text, the
  answers of the name server and of the time servers are inputs. Times are milliseconds here, seconds in the clock task.
\<close>

section \<open>Joining and waiting for an address\<close>

definition JOIN_ATTEMPTS :: nat where "JOIN_ATTEMPTS = 5"
definition JOIN_RETRY_DELAY :: nat where "JOIN_RETRY_DELAY = 500"
definition CONFIG_UP_TIMEOUT :: nat where "CONFIG_UP_TIMEOUT = 30000"

text \<open>\<open>join_status n\<close> is \<^term>\<open>None\<close> when attempt \<open>n\<close> succeeds; \<open>up_after\<close> is \<^term>\<open>None\<close> when no address ever comes.\<close>

record radio =
  join_status :: "nat \<Rightarrow> rstr \<Rightarrow> rstr \<Rightarrow> nat option"
  up_after :: "nat option"
  v4_address :: "rstr option"

record network =
  attempts :: nat
  slept :: nat
  waited :: nat
  net_printed :: rstr
  control_stored :: bool
  sync_spawned :: bool
  stack_stored :: bool

definition network_down :: network where
  "network_down = \<lparr>attempts = 0, slept = 0, waited = 0, net_printed = [], control_stored = False, sync_spawned = False,
     stack_stored = False\<rparr>"

definition net_print :: "rstr \<Rightarrow> network \<Rightarrow> network" where
  "net_print msg n = n\<lparr>net_printed := net_printed n @ msg\<rparr>"

text \<open>The loop over the remaining attempts, with the last error.\<close>

fun join_loop :: "(nat \<Rightarrow> nat option) \<Rightarrow> nat list \<Rightarrow> network \<Rightarrow> nat option \<Rightarrow> network \<times> nat option" where
  "join_loop status [] n last_err = (n, last_err)"
| "join_loop status (a # as) n last_err =
     (let n1 = n\<lparr>attempts := attempts n + 1\<rparr>
      in case status a of
           None \<Rightarrow> (n1, None)
         | Some e \<Rightarrow> join_loop status as (if a < JOIN_ATTEMPTS then n1\<lparr>slept := slept n1 + JOIN_RETRY_DELAY\<rparr> else n1) (Some e))"

definition connecting_text :: "rstr \<Rightarrow> rstr" where
  "connecting_text ssid = ''Connecting to '' @ [CHR 0x1b] @ ''[1m'' @ ssid @ [CHR 0x1b] @ ''[0m...'' @ crlf"

definition failed_text :: "nat \<Rightarrow> rstr" where
  "failed_text e = ''Failed with status '' @ show_nat e @ crlf"

definition join_network :: "radio \<Rightarrow> rstr \<Rightarrow> rstr \<Rightarrow> network \<Rightarrow> network" where
  "join_network r ssid pw n =
     (if ssid = [] then n
      else
        let n1 = net_print (connecting_text ssid) n;
            (n2, last_err) = join_loop (\<lambda>a. join_status r a ssid pw) [1..<JOIN_ATTEMPTS + 1] n1 None
        in case last_err of
             None \<Rightarrow> n2
           | Some e \<Rightarrow> net_print (failed_text e) n2)"

definition wait_config_up :: "radio \<Rightarrow> network \<Rightarrow> network" where
  "wait_config_up r n =
     (case up_after r of
        Some t \<Rightarrow> (if t \<le> CONFIG_UP_TIMEOUT then n\<lparr>waited := t\<rparr>
                   else net_print (''Failed to bring up network (config timed out)'' @ crlf) (n\<lparr>waited := CONFIG_UP_TIMEOUT\<rparr>))
      | None \<Rightarrow> net_print (''Failed to bring up network (config timed out)'' @ crlf) (n\<lparr>waited := CONFIG_UP_TIMEOUT\<rparr>))"

definition setup_wifi :: "radio \<Rightarrow> 'f configuration \<Rightarrow> ('f configuration \<times> network) option" where
  "setup_wifi r c = do {
     (c1, ssid) \<leftarrow> config_fetch c ''wifi_ssid'';
     (c2, wifi_pw) \<leftarrow> config_fetch c1 ''wifi_pw'';
     let n1 = (case (ssid, wifi_pw) of
         (Inr (Some name), Inr (Some pw)) \<Rightarrow> join_network r name pw network_down
       | _ \<Rightarrow> net_print (''wifi_ssid and/or wifi_pw are not set'' @ crlf) network_down);
     let n2 = wait_config_up r (n1\<lparr>control_stored := True\<rparr>);
     let n3 = (case v4_address r of Some a \<Rightarrow> net_print (''IP Address '' @ a @ crlf) n2 | None \<Rightarrow> n2);
     Some (c2, n3\<lparr>sync_spawned := True, stack_stored := True\<rparr>)
   }"

section \<open>The clock task\<close>

record time_sync =
  ts_clock :: the_time
  ts_first :: bool
  ts_waits :: "nat list"
  ts_printed :: rstr

datatype dns_answer = DnsError | DnsAddrs nat

definition time_sync_start :: "the_time \<Rightarrow> time_sync" where
  "time_sync_start t = \<lparr>ts_clock = t, ts_first = True, ts_waits = [], ts_printed = []\<rparr>"

definition greeting_text :: "rstr \<Rightarrow> rstr" where
  "greeting_text stamped = ''The time is '' @ stamped @ crlf"

definition sync_poll ::
    "(unix_time \<Rightarrow> rstr) \<Rightarrow> nat \<times> ntp_answer list \<Rightarrow> time_sync \<times> nat \<Rightarrow> time_sync \<times> nat" where
  "sync_poll stamp poll st =
     (let (now, answers) = poll; (s, interval) = st;
          (clock, interval') = sync_round now answers (ts_clock s, interval);
          greet = (first_answer answers \<noteq> None \<and> ts_first s)
      in (s\<lparr>ts_clock := clock, ts_first := ts_first s \<and> \<not> greet, ts_waits := ts_waits s @ [interval'],
            ts_printed := ts_printed s @
              (if greet then greeting_text (stamp (unix_now (Some clock) now)) else [])\<rparr>, interval'))"

text \<open>One turn of the outer loop: \<open>poll r\<close> gives the instant of round \<open>r\<close> and the answer of each resolved address.\<close>

definition sync_turn ::
    "(unix_time \<Rightarrow> rstr) \<Rightarrow> dns_answer \<Rightarrow> (nat \<Rightarrow> nat \<times> (nat \<Rightarrow> ntp_answer)) \<Rightarrow> time_sync \<Rightarrow> time_sync" where
  "sync_turn stamp dns poll s =
     (case dns of
        DnsError \<Rightarrow> s\<lparr>ts_waits := ts_waits s @ [15]\<rparr>
      | DnsAddrs n \<Rightarrow>
          (if n = 0 then s\<lparr>ts_waits := ts_waits s @ [15]\<rparr>
           else fst (fold (sync_poll stamp)
             (map (\<lambda>r. (fst (poll r), map (snd (poll r)) [0..<n])) [0..<120]) (s, 15))))"

fun sync_turns ::
    "(unix_time \<Rightarrow> rstr) \<Rightarrow> (dns_answer \<times> (nat \<Rightarrow> nat \<times> (nat \<Rightarrow> ntp_answer))) list \<Rightarrow> time_sync \<Rightarrow> time_sync" where
  "sync_turns stamp [] s = s"
| "sync_turns stamp ((dns, poll) # turns) s = sync_turns stamp turns (sync_turn stamp dns poll s)"

section \<open>The network set-up never gives up\<close>

lemma join_loop_spec:
  assumes "join_loop status as n last_err = (n', e)"
  shows "attempts n' = attempts n + (if as = [] then 0 else 1 + length (takeWhile (\<lambda>a. status a \<noteq> None) (butlast as))) \<and> slept n' \<le> slept n + JOIN_RETRY_DELAY * length (filter (\<lambda>a. a < JOIN_ATTEMPTS) as)
    \<and> net_printed n' = net_printed n \<and> waited n' = waited n
    \<and> (e \<noteq> None \<and> as \<noteq> [] \<longleftrightarrow> as \<noteq> [] \<and> (\<forall>a \<in> set as. status a \<noteq> None))
    \<and> (as \<noteq> [] \<and> e \<noteq> None \<longrightarrow> e = status (last as))"
  using assms
proof (induction as arbitrary: n last_err)
  case (Cons a as)
  show ?case
  proof (cases "status a")
    case None
    with Cons.prems show ?thesis by auto
  next
    case (Some err)
    let ?n = "if a < JOIN_ATTEMPTS then n\<lparr>attempts := attempts n + 1, slept := slept n + JOIN_RETRY_DELAY\<rparr>
      else n\<lparr>attempts := attempts n + 1\<rparr>"
    have "join_loop status as ?n (Some err) = (n', e)"
      using Cons.prems Some by (simp add: Let_def split: if_splits)
    from Cons.IH [OF this] this Some show ?thesis by (cases "as = []") auto
  qed
qed simp

lemma attempts_range: "[1..<JOIN_ATTEMPTS + 1] = [1, 2, 3, 4, 5]"
  by (simp add: JOIN_ATTEMPTS_def upt_rec)

lemma join_network_spec:
  fixes r :: radio and ssid pw :: rstr
  assumes "ssid \<noteq> []"
  defines "n \<equiv> join_network r ssid pw network_down"
  shows "attempts n = 1 + length (takeWhile (\<lambda>a. join_status r a ssid pw \<noteq> None) [1, 2, 3, 4]) \<and> slept n \<le> 2000 \<and> waited n = 0
    \<and> net_printed n = connecting_text ssid
        @ (if \<forall>a \<in> {1..5}. join_status r a ssid pw \<noteq> None
           then failed_text (the (join_status r 5 ssid pw)) else [])"
proof -
  let ?status = "\<lambda>a. join_status r a ssid pw"
  let ?n1 = "net_print (connecting_text ssid) network_down"
  obtain n2 e where loop: "join_loop ?status [1, 2, 3, 4, 5] ?n1 None = (n2, e)" by fastforce
  have all: "(\<forall>a \<in> {1..5::nat}. P a) = (P 1 \<and> P 2 \<and> P 3 \<and> P 4 \<and> P 5)" for P
    by (simp add: atLeastAtMost_upt upt_rec eval_nat_numeral) 
  have n: "n = (case e of None \<Rightarrow> n2 | Some e \<Rightarrow> net_print (failed_text e) n2)"
    using assms(1) unfolding n_def join_network_def Let_def attempts_range loop by simp
  note spec = join_loop_spec [OF loop]
  show ?thesis
    unfolding all n using spec
    by (cases e) (auto simp: net_print_def network_down_def JOIN_RETRY_DELAY_def JOIN_ATTEMPTS_def)
qed

definition not_set_text :: rstr where
  "not_set_text = ''wifi_ssid and/or wifi_pw are not set'' @ crlf"


text \<open>A store with a network and a radio that joins at the third attempt but never gets an address.\<close>

definition deaf_radio :: radio where
  "deaf_radio = \<lparr>join_status = \<lambda>a ssid pw. if a < 3 then Some 16 else None, up_after = None, v4_address = None\<rparr>"


section \<open>The clock task is paced\<close>

text \<open>What holds of the task after any number of turns: its pauses are bounded, and it greets once, with the first answer.\<close>

definition sync_ok :: "(unix_time \<Rightarrow> rstr) \<Rightarrow> the_time \<Rightarrow> time_sync \<Rightarrow> bool" where
  "sync_ok stamp t s \<longleftrightarrow> set (ts_waits s) \<subseteq> {15..1024}
     \<and> (if ts_first s then ts_printed s = [] \<and> ts_clock s = t
        else (\<exists>u. ts_printed s = greeting_text (stamp u))
          \<and> (\<exists>now sec frac. ts_clock s = update_from_ntp now sec frac))"

lemma sync_round_cases:
  assumes "i \<in> {15..1024}" and "sync_round now answers (clock, i) = (clock', i')"
  shows "i' \<in> {15..1024} \<and> (case first_answer answers of None \<Rightarrow> clock' = clock
    | Some (sec, frac, _) \<Rightarrow> clock' = update_from_ntp now sec frac)"
  using assms by (auto simp: sync_round_def split: option.splits prod.splits if_splits)

lemma sync_poll_ok:
  assumes "sync_ok stamp t s" and "i \<in> {15..1024}" and "sync_poll stamp poll (s, i) = (s', i')"
  shows "sync_ok stamp t s' \<and> i' \<in> {15..1024} \<and> length (ts_waits s') = length (ts_waits s) + 1"
proof -
  obtain now answers where poll: "poll = (now, answers)" by fastforce
  obtain clock j where round: "sync_round now answers (ts_clock s, i) = (clock, j)" by fastforce
  note cases_of_round = sync_round_cases [OF assms(2) round]
  have s': "s' = s\<lparr>ts_clock := clock, ts_first := ts_first s \<and> \<not> (first_answer answers \<noteq> None \<and> ts_first s), ts_waits := ts_waits s @ [j],
      ts_printed := ts_printed s @ (if first_answer answers \<noteq> None \<and> ts_first s
        then greeting_text (stamp (unix_now (Some clock) now)) else [])\<rparr>" and "i' = j"
    using assms(3) unfolding sync_poll_def poll Let_def round prod.case prod.inject by (elim conjE; simp only:)+
  then show ?thesis
    using assms(1) cases_of_round
    by (cases "first_answer answers"; cases "ts_first s") (auto simp: sync_ok_def)
qed

lemma sync_polls_ok:
  assumes "sync_ok stamp t s" and "i \<in> {15..1024}" and "fold (sync_poll stamp) polls (s, i) = (s', i')"
  shows "sync_ok stamp t s' \<and> length (ts_waits s') = length (ts_waits s) + length polls"
  using assms
proof (induction polls arbitrary: s i)
  case (Cons poll polls)
  obtain s1 i1 where step: "sync_poll stamp poll (s, i) = (s1, i1)" by fastforce
  from Cons.IH [of s1 i1] sync_poll_ok [OF Cons.prems(1,2) step] Cons.prems(3) step show ?case by simp
qed simp

lemma sync_turn_ok:
  assumes "sync_ok stamp t s"
  shows "sync_ok stamp t (sync_turn stamp dns poll s)
    \<and> length (ts_waits (sync_turn stamp dns poll s)) = length (ts_waits s) + (case dns of DnsAddrs (Suc _) \<Rightarrow> 120 | _ \<Rightarrow> 1)"
proof -
  have idle: "sync_ok stamp t (s\<lparr>ts_waits := ts_waits s @ [15]\<rparr>)" using assms by (simp add: sync_ok_def)
  show ?thesis
  proof (cases dns)
    case (DnsAddrs n)
    let ?polls = "map (\<lambda>r. (fst (poll r), map (snd (poll r)) [0..<n])) [0..<120]"
    obtain s' i' where "fold (sync_poll stamp) ?polls (s, 15) = (s', i')" by fastforce
    from sync_polls_ok [OF assms _ this] this idle DnsAddrs show ?thesis by (cases n) (simp_all add: sync_turn_def del: upt_Suc)
  qed (use idle in \<open>simp add: sync_turn_def\<close>)
qed

lemma sync_turns_ok:
  assumes "sync_ok stamp t s"
  shows "sync_ok stamp t (sync_turns stamp turns s) \<and> length (ts_waits s) + length turns \<le> length (ts_waits (sync_turns stamp turns s))"
  using assms
proof (induction turns arbitrary: s)
  case (Cons turn turns)
  obtain dns poll where turn: "turn = (dns, poll)" by fastforce
  from Cons.IH [of "sync_turn stamp dns poll s"] sync_turn_ok [OF Cons.prems, of dns poll] turn show ?case
    by (auto split: dns_answer.splits nat.splits)
qed simp

text \<open>however the name server and the time servers answer, the clock task pauses between 15 and 1024 seconds after every
  attempt, so it neither floods a server nor stops trying; it prints the time once, at the first answer, and until then it
  leaves the clock alone.\<close>

theorem clock_task_paced:
  "let s = sync_turns stamp turns (time_sync_start t) in
    set (ts_waits s) \<subseteq> {15..1024} \<and> length turns \<le> length (ts_waits s)
    \<and> (if ts_first s then ts_printed s = [] \<and> ts_clock s = t
       else (\<exists>u. ts_printed s = greeting_text (stamp u))
         \<and> (\<exists>now sec frac. ts_clock s = update_from_ntp now sec frac))"
proof -
  have "sync_ok stamp t (time_sync_start t)" by (simp add: sync_ok_def time_sync_start_def)
  from sync_turns_ok [OF this, of turns] show ?thesis by (simp add: sync_ok_def Let_def time_sync_start_def)
qed

end
